(* ===== verification/Msr_Prelude.thy ===== *)
theory Msr_Prelude
  imports Main "HOL-Library.Word"
begin

text \<open>
  Shared ground of the development: the machine integers and error codes of the code, the
  named collections of simplification rules, the bit-level laws of a masked register update
  (stated once as a locale that the per-CPU device, the batch device and msrsave interpret),
  the split of a 64-bit register value in two 32-bit halves, pointer loops over a
  character buffer, and the hexadecimal printing of \<open>sprintf\<close>.
\<close>

unbundle bit_operations_syntax

named_theorems scan_simps \<open>facts about pointer loops over a buffer\<close>

section \<open>Machine integers and error codes\<close>

type_synonym u16 = "16 word"
type_synonym u32 = "32 word"
type_synonym u64 = "64 word"

text \<open>
  A \<open>loff_t\<close> is a signed 64-bit integer. It is kept as a word, so that \<open>+\<close> wraps as it does
  in the kernel, and is read with \<open>sint\<close> where the code compares it.
\<close>

type_synonym loff_t = "64 word"

text \<open>
  The errno values the program returns, negated in the kernel module. \<open>Eother n\<close> is any
  other code that a kernel function handed back and the code passes on.
\<close>

datatype errno =
    E2BIG | EACCES | EBADF | EBUSY | EFAULT | EILSEQ | EINVAL | EIO | ENOMEM | ENOMSG
  | ENOTTY | ENOTUNIQ | ENXIO | ERANGE | EROFS | Eother nat

text \<open>The numbers of these values on Linux, as a program sees them in \<open>errno\<close>.\<close>

fun errno_num :: "errno \<Rightarrow> int" where
  "errno_num E2BIG = 7"
| "errno_num EACCES = 13"
| "errno_num EBADF = 9"
| "errno_num EBUSY = 16"
| "errno_num EFAULT = 14"
| "errno_num EILSEQ = 84"
| "errno_num EINVAL = 22"
| "errno_num EIO = 5"
| "errno_num ENOMEM = 12"
| "errno_num ENOMSG = 42"
| "errno_num ENOTTY = 25"
| "errno_num ENOTUNIQ = 76"
| "errno_num ENXIO = 6"
| "errno_num ERANGE = 34"
| "errno_num EROFS = 30"
| "errno_num (Eother n) = int n"

abbreviation NUL :: char where "NUL \<equiv> CHR 0x00"
abbreviation LF :: char where "LF \<equiv> CHR 0x0A"
abbreviation SP :: char where "SP \<equiv> CHR '' ''"

section \<open>Register values as two 32-bit halves\<close>

text \<open>
  The kernel's MSR accessors take and return a register as two \<open>u32\<close> values, low half first;
  the code reads the pair as one \<open>u64\<close> through a pointer cast (x86 is little endian).
\<close>

definition u64_of :: "u32 \<Rightarrow> u32 \<Rightarrow> u64" where
  "u64_of lo hi = push_bit 32 (ucast hi) OR ucast lo"

definition lo32 :: "u64 \<Rightarrow> u32" where
  "lo32 w = ucast w"

definition hi32 :: "u64 \<Rightarrow> u32" where
  "hi32 w = ucast (drop_bit 32 w)"

lemma u64_of_halves [simp]: "u64_of (lo32 w) (hi32 w) = w"
  unfolding u64_of_def lo32_def hi32_def by (rule bit_word_eqI) (auto simp: bit_simps)

lemma lo32_u64_of [simp]: "lo32 (u64_of lo hi) = lo"
  unfolding u64_of_def lo32_def by (rule bit_word_eqI) (auto simp: bit_simps)

lemma hi32_u64_of [simp]: "hi32 (u64_of lo hi) = hi"
  unfolding u64_of_def hi32_def
  by (rule bit_word_eqI) (auto simp: bit_simps dest: bit_imp_le_length)

section \<open>Masked update of a register\<close>

text \<open>
  The contract of a masked register write, wherever the program does one: the bits of the
  mask come from the new value, all others from the old value.
\<close>

locale masked_update =
  fixes upd :: "u64 \<Rightarrow> u64 \<Rightarrow> u64 \<Rightarrow> u64"
  assumes bit_upd: "k < 64 \<Longrightarrow> bit (upd m old new) k = (if bit m k then bit new k else bit old k)"
begin

lemma upd_outside: "upd m old new AND NOT m = old AND NOT m"
  by (rule bit_word_eqI) (auto simp: bit_simps bit_upd)

lemma upd_inside: "upd m old new AND m = new AND m"
  by (rule bit_word_eqI) (auto simp: bit_simps bit_upd)

lemma upd_full: "upd (NOT 0) old new = new"
  by (rule bit_word_eqI) (auto simp: bit_simps bit_upd)

lemma upd_none: "upd 0 old new = old"
  by (rule bit_word_eqI) (auto simp: bit_upd)

lemma upd_same: "upd m old old = old"
  by (rule bit_word_eqI) (auto simp: bit_upd)

lemma upd_twice: "upd m (upd m old new) new' = upd m old new'"
  by (rule bit_word_eqI) (auto simp: bit_upd)

lemma upd_undo: "upd m (upd m old new) old = old"
  by (rule bit_word_eqI) (auto simp: bit_upd)

lemma upd_diff: "upd m old new XOR old = (old XOR new) AND m"
  by (rule bit_word_eqI) (auto simp: bit_simps bit_upd)

lemma upd_unique:
  assumes "w AND m = new AND m" and "w AND NOT m = old AND NOT m"
  shows "w = upd m old new"
proof (rule bit_word_eqI)
  fix k assume k: "k < LENGTH(64)"
  have "bit (w AND m) k = bit (new AND m) k" "bit (w AND NOT m) k = bit (old AND NOT m) k"
    using assms by simp_all
  with k show "bit w k = bit (upd m old new) k"
    by (auto simp: bit_simps bit_upd split: if_splits)
qed

end

text \<open>The reference masked update, against which the three sites of the code are compared.\<close>

definition merge_bits :: "u64 \<Rightarrow> u64 \<Rightarrow> u64 \<Rightarrow> u64" where
  "merge_bits m old new = (new AND m) OR (old AND NOT m)"

lemma bit_merge_bits:
  "k < 64 \<Longrightarrow> bit (merge_bits m old new) k = (if bit m k then bit new k else bit old k)"
  by (auto simp: merge_bits_def bit_simps)

interpretation merge: masked_update merge_bits
  by unfold_locales (rule bit_merge_bits)

section \<open>Pointer loops over a character buffer\<close>

text \<open>
  A character buffer is a list of bytes and a pointer into it is an index. \<open>peek\<close> is the
  dereference; past the end of the buffer it reads as NUL, and the parser's safety lemmas
  show that it is never asked to read there.
\<close>

definition peek :: "string \<Rightarrow> nat \<Rightarrow> char" where
  "peek buf i = (if i < length buf then buf ! i else NUL)"

text \<open>The loop \<open>while (p(*s)) s++;\<close> from index \<open>i\<close>.\<close>

function scan_while :: "(char \<Rightarrow> bool) \<Rightarrow> string \<Rightarrow> nat \<Rightarrow> nat" where
  "scan_while p buf i = (if i < length buf \<and> p (buf ! i) then scan_while p buf (Suc i) else i)"
  by pat_completeness auto
termination
  by (relation "measure (\<lambda>(p, buf, i). length buf - i)") auto

declare scan_while.simps [simp del]

text \<open>The C string that starts at index \<open>i\<close>.\<close>

definition cstr :: "string \<Rightarrow> nat \<Rightarrow> string" where
  "cstr buf i = takeWhile (\<lambda>c. c \<noteq> NUL) (drop i buf)"

lemma scan_while_eq:
  "i \<le> length buf \<Longrightarrow> scan_while p buf i = i + length (takeWhile p (drop i buf))"
proof (induction p buf i rule: scan_while.induct)
  case (1 p buf i)
  show ?case
  proof (cases "i < length buf")
    case True
    then have "drop i buf = buf ! i # drop (Suc i) buf"
      by (simp add: Cons_nth_drop_Suc)
    with 1 True show ?thesis
      by (subst scan_while.simps) simp
  next
    case False
    with 1 show ?thesis by (subst scan_while.simps) simp
  qed
qed

lemma scan_while_ge [scan_simps]: "i \<le> scan_while p buf i"
proof (induction p buf i rule: scan_while.induct)
  case (1 p buf i)
  then show ?case by (subst scan_while.simps) (auto dest: Suc_leD)
qed

lemma scan_while_le: "i \<le> length buf \<Longrightarrow> scan_while p buf i \<le> length buf"
proof (induction p buf i rule: scan_while.induct)
  case (1 p buf i)
  then show ?case by (subst scan_while.simps) auto
qed

lemma scan_while_stop:
  "scan_while p buf i < length buf \<Longrightarrow> \<not> p (buf ! scan_while p buf i)"
proof (induction p buf i rule: scan_while.induct)
  case (1 p buf i)
  show ?case
  proof (cases "i < length buf \<and> p (buf ! i)")
    case True
    then have "scan_while p buf i = scan_while p buf (Suc i)"
      by (simp add: scan_while.simps [of p buf i])
    with 1 True show ?thesis by simp
  next
    case False
    then have "scan_while p buf i = i" by (subst scan_while.simps) auto
    with False 1(2) show ?thesis by simp
  qed
qed

text \<open>
  A loop whose guard fails at NUL stops no later than the first NUL it can meet: it never
  reads past the terminator.
\<close>

lemma scan_while_NUL:
  assumes "i \<le> n" and "n < length buf" and "buf ! n = NUL" and "\<not> p NUL"
  shows "scan_while p buf i \<le> n"
  using assms
proof (induction p buf i rule: scan_while.induct)
  case (1 p buf i)
  show ?case
  proof (cases "i < length buf \<and> p (buf ! i)")
    case True
    with 1 have "Suc i \<le> n" by (metis Suc_leI le_neq_implies_less)
    with 1 True show ?thesis by (subst scan_while.simps) simp
  next
    case False
    with 1 show ?thesis by (subst scan_while.simps) simp
  qed
qed

section \<open>Hexadecimal printing\<close>

definition hex_digit :: "nat \<Rightarrow> char" where
  "hex_digit d = ''0123456789ABCDEF'' ! (d mod 16)"

function hex_string :: "nat \<Rightarrow> string" where
  "hex_string n = (if n < 16 then [hex_digit n] else hex_string (n div 16) @ [hex_digit n])"
  by pat_completeness auto
termination
  by (relation "measure id") auto

declare hex_string.simps [simp del]

text \<open>The conversion \<open>%0wllX\<close> of \<open>sprintf\<close>: upper case, at least \<open>w\<close> digits, padded with zeros.\<close>

definition sprintf_0X :: "nat \<Rightarrow> u64 \<Rightarrow> string" where
  "sprintf_0X w v = (let s = hex_string (unat v) in replicate (w - length s) (CHR ''0'') @ s)"

text \<open>The conversion \<open>%-ws\<close>: left justified, padded with blanks to \<open>w\<close> characters.\<close>

definition sprintf_left :: "nat \<Rightarrow> string \<Rightarrow> string" where
  "sprintf_left w s = s @ replicate (w - length s) SP"

lemma length_hex_string: "n < 16 ^ Suc k \<Longrightarrow> length (hex_string n) \<le> Suc k"
proof (induction k arbitrary: n)
  case 0
  then show ?case by (simp add: hex_string.simps)
next
  case (Suc k)
  show ?case
  proof (cases "n < 16")
    case True
    then show ?thesis by (simp add: hex_string.simps)
  next
    case False
    from Suc.prems have "n div 16 < 16 ^ Suc k" by (simp add: less_mult_imp_div_less mult.commute)
    from Suc.IH [OF this] False show ?thesis by (subst hex_string.simps) simp
  qed
qed

lemma length_sprintf_0X: "w \<le> 16 \<Longrightarrow> length (sprintf_0X w v) \<le> 16"
proof -
  assume w: "w \<le> 16"
  have "unat v < 2 ^ 64" using unsigned_less [of v] by simp
  then have "unat v < 16 ^ Suc 15" by simp
  from length_hex_string [OF this] w show ?thesis by (simp add: sprintf_0X_def Let_def)
qed

lemma sprintf_0X_ge: "w \<le> length (sprintf_0X w v)"
  by (simp add: sprintf_0X_def Let_def)

lemma hex_string_not_Nil [simp]: "hex_string n \<noteq> []"
  by (subst hex_string.simps) simp

end
