(* ===== verification/Allowlist_Parse.thy ===== *)
theory Allowlist_Parse
  imports Msr_Prelude
begin

text \<open>
  The allowlist parser of msr_allowlist.c: \<open>parse_next_allowlist_entry\<close> on a mutable,
  NUL-terminated buffer, and the first pass of \<open>write_allowlist\<close>, which counts the entries.
  The parser writes a NUL at the end of each token before it calls \<open>kstrtoull\<close> and puts the
  overwritten byte back afterwards. The theory shows that no read or write leaves the
  buffer, that a successful call restores it, that both passes end, and that the pointer
  code refines a parser on plain strings.
\<close>

section \<open>The kernel functions the parser calls\<close>

text \<open>
  \<open>isspace\<close> and \<open>kstrtoull(s, 0, \<dots>)\<close> belong to the kernel and are parameters:
  \<open>k_strtoull\<close> gives the error code or the value of a NUL-terminated string. What the parser
  relies on to stop is that NUL is not white space.
\<close>

record klib =
  k_isspace :: "char \<Rightarrow> bool"
  k_strtoull :: "string \<Rightarrow> errno + u64"

definition klib_ok :: "klib \<Rightarrow> bool" where
  "klib_ok K \<longleftrightarrow> \<not> k_isspace K NUL"

text \<open>\<open>skip_spaces(s)\<close>: the first character from \<open>s\<close> on that is not white space.\<close>

definition skip_spaces :: "klib \<Rightarrow> string \<Rightarrow> nat \<Rightarrow> nat" where
  "skip_spaces K buf s = scan_while (k_isspace K) buf s"

section \<open>\<open>parse_next_allowlist_entry\<close>\<close>

record allowlist_entry =
  e_wmask :: u64
  e_msr :: u64

text \<open>
  \<open>while (*s == '#')\<close>: skip the rest of the line (the inner \<open>for\<close> stops at NUL or at the
  line feed), then white space.
\<close>

function skip_comments :: "klib \<Rightarrow> string \<Rightarrow> nat \<Rightarrow> nat" where
  "skip_comments K buf s =
     (if s < length buf \<and> buf ! s = CHR ''#''
      then skip_comments K buf
             (skip_spaces K buf (scan_while (\<lambda>c. c \<noteq> NUL \<and> c \<noteq> LF) buf (Suc s)))
      else s)"
  by pat_completeness auto
termination
proof (relation "measure (\<lambda>(K, buf, s). length buf - s)", goal_cases)
  case 1
  show ?case by simp
next
  case (2 K buf s)
  have "Suc s \<le> skip_spaces K buf (scan_while (\<lambda>c. c \<noteq> NUL \<and> c \<noteq> LF) buf (Suc s))"
    unfolding skip_spaces_def by (meson order_trans scan_while_ge)
  with 2 have "length buf - skip_spaces K buf (scan_while (\<lambda>c. c \<noteq> NUL \<and> c \<noteq> LF) buf (Suc s))
      < length buf - s" by linarith
  then show ?case by simp
qed

declare skip_comments.simps [simp del]

text \<open>
  One turn of \<open>for (i = 0; i < 2; i++)\<close>: the token runs up to white space or the end; an
  end of input right after it is an error; the token is terminated in place, converted, and
  on success the byte under the terminator is restored and the pointer moves past it. The
  result is the value and the new \<open>s\<close>, with the buffer as the call leaves it.
\<close>

definition parse_field :: "klib \<Rightarrow> string \<Rightarrow> nat \<Rightarrow> (errno + u64 \<times> nat) \<times> string" where
  "parse_field K buf s =
     (let s2 = skip_spaces K buf s;
          e = scan_while (\<lambda>c. \<not> k_isspace K c \<and> c \<noteq> NUL) buf s2
      in if peek buf e = NUL then (Inl EILSEQ, buf)
         else let tmp = buf ! e; buf1 = buf[e := NUL]
              in case k_strtoull K (cstr buf1 s2) of
                   Inl er \<Rightarrow> (Inl er, buf1)
                 | Inr d \<Rightarrow> (Inr (d, Suc e), buf1[e := tmp]))"

text \<open>
  What a call returns: the value of \<open>return\<close> (\<open>Inl\<close> a negative error, \<open>Inr n\<close> the \<open>n\<close>
  characters consumed, 0 at the end of the input), \<open>*nextinbuf\<close>, the buffer, and what was
  stored through \<open>entry\<close>, which is a null pointer in the first pass (\<open>wr = False\<close>).
\<close>

record parse_ret =
  pr_res :: "errno + nat"
  pr_next :: nat
  pr_buf :: string
  pr_entry :: "allowlist_entry option"

definition parse_next_allowlist_entry :: "klib \<Rightarrow> string \<Rightarrow> nat \<Rightarrow> bool \<Rightarrow> parse_ret" where
  "parse_next_allowlist_entry K buf inbuf wr =
     (let s = skip_comments K buf (skip_spaces K buf inbuf)
      in if peek buf s = NUL
         then \<lparr>pr_res = Inr 0, pr_next = inbuf, pr_buf = buf, pr_entry = None\<rparr>
         else case parse_field K buf s of
           (Inl er, buf1) \<Rightarrow>
             \<lparr>pr_res = Inl er, pr_next = inbuf, pr_buf = buf1, pr_entry = None\<rparr>
         | (Inr (d0, s1), buf1) \<Rightarrow>
             (case parse_field K buf1 s1 of
                (Inl er, buf2) \<Rightarrow>
                  \<lparr>pr_res = Inl er, pr_next = inbuf, pr_buf = buf2, pr_entry = None\<rparr>
              | (Inr (d1, s2), buf2) \<Rightarrow>
                  \<lparr>pr_res = Inr (s2 - inbuf), pr_next = s2, pr_buf = buf2,
                   pr_entry = (if wr then Some \<lparr>e_wmask = d1, e_msr = d0\<rparr> else None)\<rparr>))"

section \<open>Progress, bounds and restoration\<close>

lemma skip_spaces_ge [scan_simps]: "s \<le> skip_spaces K buf s"
  by (simp add: skip_spaces_def scan_while_ge)

lemma skip_comments_ge [scan_simps]: "s \<le> skip_comments K buf s"
proof (induction K buf s rule: skip_comments.induct)
  case (1 K buf s)
  let ?t = "skip_spaces K buf (scan_while (\<lambda>c. c \<noteq> NUL \<and> c \<noteq> LF) buf (Suc s))"
  have "s \<le> ?t" using scan_while_ge [of "Suc s"] skip_spaces_ge by (metis Suc_leD order_trans)
  with 1 show ?case by (subst skip_comments.simps) (auto dest: order_trans)
qed

lemma parse_field_ok:
  assumes "parse_field K buf s = (Inr (d, t), buf')"
  shows "buf' = buf" and "s < t" and "t \<le> length buf" and "buf ! (t - 1) \<noteq> NUL"
proof -
  define s2 where "s2 = skip_spaces K buf s"
  define e where "e = scan_while (\<lambda>c. \<not> k_isspace K c \<and> c \<noteq> NUL) buf s2"
  have le: "s \<le> e" using skip_spaces_ge scan_while_ge unfolding e_def s2_def by (rule order_trans)
  from assms have *: "peek buf e \<noteq> NUL" "t = Suc e" "buf' = (buf[e := NUL])[e := buf ! e]"
    unfolding parse_field_def Let_def s2_def [symmetric] e_def [symmetric]
    by (auto split: if_splits sum.splits)
  from *(1) have "e < length buf" by (auto simp: peek_def split: if_splits)
  with * le show "buf' = buf" "s < t" "t \<le> length buf" "buf ! (t - 1) \<noteq> NUL"
    by (auto simp: peek_def)
qed

lemma parse_field_err_length:
  "parse_field K buf s = (r, buf') \<Longrightarrow> length buf' = length buf"
  by (auto simp: parse_field_def Let_def split: if_splits sum.splits)

lemma parse_next_Inr:
  assumes "pr_res (parse_next_allowlist_entry K buf s wr) = Inr n"
  shows "pr_buf (parse_next_allowlist_entry K buf s wr) = buf"
    and "pr_next (parse_next_allowlist_entry K buf s wr) = s + n"
    and "0 < n \<Longrightarrow> s + n \<le> length buf"
    and "n = 0 \<longleftrightarrow> peek buf (skip_comments K buf (skip_spaces K buf s)) = NUL"
proof -
  define t where "t = skip_comments K buf (skip_spaces K buf s)"
  have st: "s \<le> t" unfolding t_def
    using skip_spaces_ge skip_comments_ge order_trans by blast
  have "pr_buf (parse_next_allowlist_entry K buf s wr) = buf
    \<and> pr_next (parse_next_allowlist_entry K buf s wr) = s + n
    \<and> (0 < n \<longrightarrow> s + n \<le> length buf) \<and> (n = 0 \<longleftrightarrow> peek buf t = NUL)"
  proof (cases "peek buf t = NUL")
    case True
    with assms show ?thesis
      unfolding parse_next_allowlist_entry_def Let_def t_def [symmetric] by auto
  next
    case False
    with assms obtain d0 s1 b1 d1 s2 b2
      where f: "parse_field K buf t = (Inr (d0, s1), b1)" "parse_field K b1 s1 = (Inr (d1, s2), b2)"
      unfolding parse_next_allowlist_entry_def Let_def t_def [symmetric]
      by (auto split: prod.splits sum.splits)
    note p = parse_field_ok [OF f(1)] parse_field_ok [OF f(2)]
    from False assms f have "n = s2 - s" "pr_next (parse_next_allowlist_entry K buf s wr) = s2"
      "pr_buf (parse_next_allowlist_entry K buf s wr) = b2"
      unfolding parse_next_allowlist_entry_def Let_def t_def [symmetric] by auto
    with p st False show ?thesis by auto
  qed
  then show "pr_buf (parse_next_allowlist_entry K buf s wr) = buf"
    and "pr_next (parse_next_allowlist_entry K buf s wr) = s + n"
    and "0 < n \<Longrightarrow> s + n \<le> length buf"
    and "n = 0 \<longleftrightarrow> peek buf (skip_comments K buf (skip_spaces K buf s)) = NUL"
    by (simp_all add: t_def)
qed

lemma parse_next_length:
  "length (pr_buf (parse_next_allowlist_entry K buf s wr)) = length buf"
  unfolding parse_next_allowlist_entry_def Let_def
  by (auto split: prod.splits sum.splits dest!: parse_field_err_length)

text \<open>The two passes make the same calls: the flag only decides what is stored.\<close>

lemma parse_next_flag:
  "pr_res (parse_next_allowlist_entry K buf s wr) = pr_res (parse_next_allowlist_entry K buf s wr')"
  "pr_next (parse_next_allowlist_entry K buf s wr) = pr_next (parse_next_allowlist_entry K buf s wr')"
  "pr_buf (parse_next_allowlist_entry K buf s wr) = pr_buf (parse_next_allowlist_entry K buf s wr')"
  unfolding parse_next_allowlist_entry_def Let_def by (auto split: prod.splits sum.splits)

section \<open>Pass 1\<close>

text \<open>
  The loop \<open>for (num_entries = 0, s = kbuf, res = 1; res > 0; )\<close> of \<open>write_allowlist\<close>. Its
  termination proof is the proof that the code's loop ends: each turn that goes on has moved
  \<open>s\<close> forward inside the buffer.
\<close>

function count_entries :: "klib \<Rightarrow> string \<Rightarrow> nat \<Rightarrow> nat \<Rightarrow> (errno + nat) \<times> string" where
  "count_entries K buf s num_entries =
     (let r = parse_next_allowlist_entry K buf s False
      in case pr_res r of
           Inl er \<Rightarrow> (Inl er, pr_buf r)
         | Inr n \<Rightarrow> if 0 < n then count_entries K (pr_buf r) (pr_next r) (Suc num_entries)
                   else (Inr num_entries, pr_buf r))"
  by pat_completeness auto
termination
proof (relation "measure (\<lambda>(K, buf, s, n). length buf - s)", goal_cases)
  case 1
  show ?case by simp
next
  case (2 K buf s num r n)
  then have "pr_res (parse_next_allowlist_entry K buf s False) = Inr n" "0 < n" by auto
  from parse_next_Inr [OF this(1)] this(2) 2(1) show ?case by auto
qed

declare count_entries.simps [simp del]

lemma count_entries_ge:
  "fst (count_entries K buf s num) = Inr m \<Longrightarrow> num \<le> m"
proof (induction K buf s num rule: count_entries.induct)
  case (1 K buf s num)
  show ?case using 1(2) 1(1) [OF refl]
    by (subst (asm) count_entries.simps) (auto simp: Let_def split: sum.splits if_splits dest: Suc_leD)
qed

text \<open>A pass that succeeds leaves the buffer as it found it, ready for the second pass.\<close>

lemma count_entries_restores:
  "fst (count_entries K buf s num) = Inr m \<Longrightarrow> snd (count_entries K buf s num) = buf"
proof (induction K buf s num rule: count_entries.induct)
  case (1 K buf s num)
  let ?r = "parse_next_allowlist_entry K buf s False"
  show ?case
  proof (cases "pr_res ?r")
    case (Inl er)
    with 1(2) show ?thesis by (simp add: count_entries.simps [of K buf s num] Let_def)
  next
    case (Inr n)
    note ok = parse_next_Inr [OF Inr]
    show ?thesis
    proof (cases "0 < n")
      case True
      have "count_entries K buf s num = count_entries K buf (pr_next ?r) (Suc num)"
        using Inr True ok(1) by (subst count_entries.simps) (simp add: Let_def)
      with 1(1) [OF refl Inr True] 1(2) ok(1) show ?thesis by simp
    next
      case False
      with Inr ok(1) show ?thesis by (simp add: count_entries.simps [of K buf s num] Let_def)
    qed
  qed
qed

end
