(* ===== verification/Allowlist_Spec.thy ===== *)
theory Allowlist_Spec
  imports Allowlist_Parse
begin

text \<open>
  What the allowlist parser promises, stated on the text of the buffer alone: a parser that
  consumes a string from the left (\<open>spec_next\<close>) and the list of entries of a whole text
  (\<open>spec_parse\<close>). The pointer parser of \<open>Allowlist_Parse\<close> refines it: on a terminated
  buffer a call computes exactly what the specification gives for the C string at its
  pointer, and never looks past the terminator.
\<close>

section \<open>The parser on strings\<close>

definition spec_field :: "klib \<Rightarrow> string \<Rightarrow> errno + u64 \<times> string" where
  "spec_field K xs =
     (let ys = dropWhile (k_isspace K) xs;
          rest = dropWhile (\<lambda>c. \<not> k_isspace K c) ys
      in if rest = [] then Inl EILSEQ
         else case k_strtoull K (takeWhile (\<lambda>c. \<not> k_isspace K c) ys) of
                Inl er \<Rightarrow> Inl er
              | Inr d \<Rightarrow> Inr (d, tl rest))"

text \<open>Leading white space and \<open>#\<close> comments, up to the first character of an entry.\<close>

function spec_skip :: "klib \<Rightarrow> string \<Rightarrow> string" where
  "spec_skip K xs =
     (let ys = dropWhile (k_isspace K) xs
      in if ys \<noteq> [] \<and> hd ys = CHR ''#'' then spec_skip K (dropWhile (\<lambda>c. c \<noteq> LF) (tl ys))
         else ys)"
  by pat_completeness auto
termination
proof (relation "measure (\<lambda>(K, xs). length xs)", goal_cases)
  case 1
  show ?case by simp
next
  case (2 K xs ys)
  have "length (dropWhile (\<lambda>c. c \<noteq> LF) (tl ys)) \<le> length (tl ys)" by (rule length_dropWhile_le)
  also have "\<dots> < length ys" using 2 by simp
  also have "\<dots> \<le> length xs" using 2 by (simp add: length_dropWhile_le)
  finally show ?case by simp
qed

declare spec_skip.simps [simp del]

definition spec_next :: "klib \<Rightarrow> string \<Rightarrow> errno + (u64 \<times> u64 \<times> string) option" where
  "spec_next K xs =
     (let ys = spec_skip K xs
      in if ys = [] then Inr None
         else case spec_field K ys of
           Inl er \<Rightarrow> Inl er
         | Inr (d0, y1) \<Rightarrow>
             (case spec_field K y1 of
                Inl er \<Rightarrow> Inl er
              | Inr (d1, y2) \<Rightarrow> Inr (Some (d0, d1, y2))))"

lemma length_spec_skip: "length (spec_skip K xs) \<le> length xs"
proof (induction K xs rule: spec_skip.induct)
  case (1 K xs)
  let ?ys = "dropWhile (k_isspace K) xs"
  have le: "length ?ys \<le> length xs" by (rule length_dropWhile_le)
  show ?case
  proof (cases "?ys \<noteq> [] \<and> hd ?ys = CHR ''#''")
    case True
    have "length (dropWhile (\<lambda>c. c \<noteq> LF) (tl ?ys)) \<le> length (tl ?ys)" by (rule length_dropWhile_le)
    with 1 [OF refl True] le True show ?thesis
      by (subst spec_skip.simps) (simp add: Let_def)
  next
    case False
    with le show ?thesis by (subst spec_skip.simps) (simp only: Let_def if_False)
  qed
qed

lemma length_spec_field: "spec_field K xs = Inr (d, ys) \<Longrightarrow> length ys < length xs"
proof -
  assume *: "spec_field K xs = Inr (d, ys)"
  let ?zs = "dropWhile (k_isspace K) xs"
  let ?r = "dropWhile (\<lambda>c. \<not> k_isspace K c) ?zs"
  from * have "?r \<noteq> []" "ys = tl ?r"
    by (auto simp: spec_field_def Let_def split: if_splits sum.splits)
  then have "length ys < length ?r" by simp
  also have "\<dots> \<le> length ?zs" by (rule length_dropWhile_le)
  also have "\<dots> \<le> length xs" by (rule length_dropWhile_le)
  finally show ?thesis .
qed

lemma length_spec_next: "spec_next K xs = Inr (Some (m, w, ys)) \<Longrightarrow> length ys < length xs"
  using length_spec_skip [of K xs]
  by (auto simp: spec_next_def Let_def split: if_splits sum.splits dest!: length_spec_field)

text \<open>All entries of a text, or the first error.\<close>

function spec_parse :: "klib \<Rightarrow> string \<Rightarrow> errno + allowlist_entry list" where
  "spec_parse K xs =
     (case spec_next K xs of
        Inl er \<Rightarrow> Inl er
      | Inr None \<Rightarrow> Inr []
      | Inr (Some (m, w, ys)) \<Rightarrow>
          (case spec_parse K ys of
             Inl er \<Rightarrow> Inl er
           | Inr es \<Rightarrow> Inr (\<lparr>e_wmask = w, e_msr = m\<rparr> # es)))"
  by pat_completeness auto
termination
  by (relation "measure (\<lambda>(K, xs). length xs)") (auto dest: length_spec_next)

declare spec_parse.simps [simp del]

section \<open>Terminated buffers\<close>

text \<open>A NUL lies at or after the pointer.\<close>

definition term_at :: "string \<Rightarrow> nat \<Rightarrow> bool" where
  "term_at buf i \<longleftrightarrow> NUL \<in> set (drop i buf)"

lemma term_at_less: "term_at buf i \<Longrightarrow> i < length buf"
  by (cases "i < length buf") (auto simp: term_at_def)

lemma term_at_unfold:
  "i < length buf \<Longrightarrow> term_at buf i \<longleftrightarrow> buf ! i = NUL \<or> term_at buf (Suc i)"
  by (auto simp: term_at_def Cons_nth_drop_Suc [symmetric])

lemma cstr_NUL: "i < length buf \<Longrightarrow> buf ! i = NUL \<Longrightarrow> cstr buf i = []"
  by (simp add: cstr_def Cons_nth_drop_Suc [symmetric])

lemma cstr_Cons: "i < length buf \<Longrightarrow> buf ! i \<noteq> NUL \<Longrightarrow> cstr buf i = buf ! i # cstr buf (Suc i)"
  by (simp add: cstr_def Cons_nth_drop_Suc [symmetric])

lemma cstr_Nil_iff: "term_at buf i \<Longrightarrow> cstr buf i = [] \<longleftrightarrow> buf ! i = NUL"
  using term_at_less cstr_NUL cstr_Cons by (metis list.distinct(1))

lemma peek_NUL_iff: "term_at buf i \<Longrightarrow> peek buf i = NUL \<longleftrightarrow> cstr buf i = []"
  by (simp add: peek_def term_at_less cstr_Nil_iff)

lemma hd_cstr: "term_at buf i \<Longrightarrow> cstr buf i \<noteq> [] \<Longrightarrow> hd (cstr buf i) = buf ! i"
  by (metis cstr_Cons cstr_NUL list.sel(1) term_at_less)

lemma tl_cstr: "term_at buf i \<Longrightarrow> cstr buf i \<noteq> [] \<Longrightarrow> tl (cstr buf i) = cstr buf (Suc i)"
  by (metis cstr_Cons cstr_NUL list.sel(3) term_at_less)

lemma term_at_Suc: "term_at buf i \<Longrightarrow> cstr buf i \<noteq> [] \<Longrightarrow> term_at buf (Suc i)"
  by (metis cstr_NUL term_at_less term_at_unfold)

text \<open>A pointer loop that stops at NUL is a \<open>dropWhile\<close> on the C string.\<close>

lemma scan_while_cstr_all:
  assumes "term_at buf i" and "\<not> p NUL"
  shows "term_at buf (scan_while p buf i) \<and> cstr buf (scan_while p buf i) = dropWhile p (cstr buf i)
    \<and> scan_while p buf i = i + length (takeWhile p (cstr buf i))"
  using assms
proof (induction p buf i rule: scan_while.induct)
  case (1 p buf i)
  have i: "i < length buf" using 1(2) by (rule term_at_less)
  show ?case
  proof (cases "p (buf ! i)")
    case True
    with 1(3) have nz: "buf ! i \<noteq> NUL" by auto
    with 1(2) i have t: "term_at buf (Suc i)" by (simp add: term_at_unfold)
    have "scan_while p buf i = scan_while p buf (Suc i)"
      using i True by (subst scan_while.simps) simp
    with 1(1) [OF _ t 1(3)] i True nz show ?thesis by (auto simp: cstr_Cons)
  next
    case False
    have eq: "scan_while p buf i = i" using False by (subst scan_while.simps) simp
    show ?thesis
    proof (cases "buf ! i = NUL")
      case True
      with i 1(2) show ?thesis by (simp add: eq cstr_NUL)
    next
      case nz: False
      with i False 1(2) show ?thesis by (simp add: eq cstr_Cons)
    qed
  qed
qed

lemma scan_while_cstr:
  assumes "term_at buf i" and "\<not> p NUL"
  shows "term_at buf (scan_while p buf i)"
    and "cstr buf (scan_while p buf i) = dropWhile p (cstr buf i)"
    and "scan_while p buf i = i + length (takeWhile p (cstr buf i))"
  using scan_while_cstr_all [of buf i p, OF assms] by blast+

lemma NUL_notin_cstr: "NUL \<notin> set (cstr buf i)"
  by (auto simp: cstr_def dest: set_takeWhileD)

lemma cstr_decomp: "term_at buf i \<Longrightarrow> \<exists>zs. drop i buf = cstr buf i @ NUL # zs"
proof -
  let ?r = "dropWhile (\<lambda>c. c \<noteq> NUL) (drop i buf)"
  assume "term_at buf i"
  then have ne: "?r \<noteq> []" by (auto simp: term_at_def)
  then have "hd ?r = NUL" using hd_dropWhile [OF ne] by simp
  with ne have "?r = NUL # tl ?r" by (cases ?r) auto
  then have "drop i buf = cstr buf i @ NUL # tl ?r"
    using takeWhile_dropWhile_id [of "\<lambda>c. c \<noteq> NUL" "drop i buf"] by (simp add: cstr_def)
  then show ?thesis by blast
qed

text \<open>Terminating a token in place makes it the C string at its start.\<close>

lemma cstr_terminated:
  assumes "term_at buf i" and "cstr buf i = tok @ c # rest"
  shows "cstr (buf[i + length tok := NUL]) i = tok" and "buf ! (i + length tok) = c"
proof -
  from cstr_decomp [OF assms(1)] obtain zs where d: "drop i buf = tok @ c # rest @ NUL # zs"
    using assms(2) by auto
  have i: "i < length buf" using assms(1) by (rule term_at_less)
  have nz: "NUL \<notin> set tok" using NUL_notin_cstr [of buf i] assms(2) by auto
  have "drop i (buf[i + length tok := NUL]) = (drop i buf)[length tok := NUL]"
    by (simp add: drop_update_swap)
  then have *: "drop i (buf[i + length tok := NUL]) = tok @ NUL # rest @ NUL # zs"
    by (simp add: d)
  have "takeWhile (\<lambda>c. c \<noteq> NUL) (tok @ NUL # rest @ NUL # zs) = tok"
    using nz by (subst takeWhile_append2) auto
  then show "cstr (buf[i + length tok := NUL]) i = tok"
    unfolding cstr_def * .
  have "buf ! (i + length tok) = drop i buf ! length tok" using i by (simp add: nth_drop)
  then show "buf ! (i + length tok) = c" by (simp add: d)
qed

section \<open>Refinement\<close>

lemma spec_skip_dropWhile: "spec_skip K (dropWhile (k_isspace K) xs) = spec_skip K xs"
  by (subst (1 2) spec_skip.simps) simp

lemma not_NUL_cong:
  "dropWhile (\<lambda>c. P c \<and> c \<noteq> NUL) (cstr buf i) = dropWhile P (cstr buf i)"
  "dropWhile (\<lambda>c. c \<noteq> NUL \<and> P c) (cstr buf i) = dropWhile P (cstr buf i)"
  "takeWhile (\<lambda>c. P c \<and> c \<noteq> NUL) (cstr buf i) = takeWhile P (cstr buf i)"
  using NUL_notin_cstr [of buf i]
  by (auto intro!: dropWhile_cong takeWhile_cong)

lemma skip_spaces_cstr:
  assumes "klib_ok K" and "term_at buf i"
  shows "term_at buf (skip_spaces K buf i)"
    and "cstr buf (skip_spaces K buf i) = dropWhile (k_isspace K) (cstr buf i)"
  using scan_while_cstr(1,2) [OF assms(2), of "k_isspace K"] assms(1)
  by (simp_all add: skip_spaces_def klib_ok_def)

lemma skip_comments_cstr:
  assumes "klib_ok K" and "term_at buf s"
    and "dropWhile (k_isspace K) (cstr buf s) = cstr buf s"
  shows "term_at buf (skip_comments K buf s) \<and> cstr buf (skip_comments K buf s) = spec_skip K (cstr buf s)"
  using assms
proof (induction K buf s rule: skip_comments.induct)
  case (1 K buf s)
  have s: "s < length buf" using 1(3) by (rule term_at_less)
  show ?case
  proof (cases "buf ! s = CHR ''#''")
    case True
    with s have cons: "cstr buf s = CHR ''#'' # cstr buf (Suc s)" by (simp add: cstr_Cons)
    have ts: "term_at buf (Suc s)" using 1(3) cons by (simp add: term_at_Suc)
    define t where "t = scan_while (\<lambda>c. c \<noteq> NUL \<and> c \<noteq> LF) buf (Suc s)"
    have t: "term_at buf t" "cstr buf t = dropWhile (\<lambda>c. c \<noteq> LF) (cstr buf (Suc s))"
      using scan_while_cstr(1,2) [OF ts, of "\<lambda>c. c \<noteq> NUL \<and> c \<noteq> LF"]
      by (simp_all add: t_def not_NUL_cong)
    note sp = skip_spaces_cstr [OF 1(2) t(1)]
    have "skip_comments K buf s = skip_comments K buf (skip_spaces K buf t)"
      using s True by (subst skip_comments.simps) (simp add: t_def)
    moreover have "spec_skip K (cstr buf s) = spec_skip K (cstr buf t)"
      using 1(4) cons t(2) by (subst spec_skip.simps) simp
    moreover have "term_at buf (skip_comments K buf (skip_spaces K buf t))
        \<and> cstr buf (skip_comments K buf (skip_spaces K buf t))
          = spec_skip K (cstr buf (skip_spaces K buf t))"
      using 1(1) [OF conjI [OF s True], folded t_def, OF 1(2) sp(1)] sp(2) by simp
    ultimately show ?thesis using sp(2) by (simp add: spec_skip_dropWhile)
  next
    case False
    have "skip_comments K buf s = s" using False by (subst skip_comments.simps) simp
    moreover have "spec_skip K (cstr buf s) = cstr buf s"
      using 1(3,4) False by (subst spec_skip.simps) (auto simp: Let_def hd_cstr)
    ultimately show ?thesis using 1(3) by simp
  qed
qed

lemma parse_field_cstr:
  assumes K: "klib_ok K" and t: "term_at buf s"
  shows "case spec_field K (cstr buf s) of
      Inl er \<Rightarrow> fst (parse_field K buf s) = Inl er
    | Inr (d, rest) \<Rightarrow> \<exists>u. parse_field K buf s = (Inr (d, u), buf) \<and> term_at buf u \<and> cstr buf u = rest"
proof -
  define s2 where "s2 = skip_spaces K buf s"
  define e where "e = scan_while (\<lambda>c. \<not> k_isspace K c \<and> c \<noteq> NUL) buf s2"
  define ys where "ys = dropWhile (k_isspace K) (cstr buf s)"
  define tok where "tok = takeWhile (\<lambda>c. \<not> k_isspace K c) ys"
  define rest where "rest = dropWhile (\<lambda>c. \<not> k_isspace K c) ys"
  have s2: "term_at buf s2" "cstr buf s2 = ys"
    using skip_spaces_cstr [OF K t] by (simp_all add: s2_def ys_def)
  have e: "term_at buf e" "cstr buf e = rest" "e = s2 + length tok"
    unfolding e_def rest_def tok_def s2(2) [symmetric]
    by (simp_all add: scan_while_cstr(1,2) [OF s2(1)] not_NUL_cong)
      (simp add: scan_while_cstr(3) [OF s2(1)] not_NUL_cong)
  have pk: "peek buf e = NUL \<longleftrightarrow> rest = []" using peek_NUL_iff [OF e(1)] e(2) by simp
  have sf: "spec_field K (cstr buf s) = (if rest = [] then Inl EILSEQ
      else case k_strtoull K tok of Inl er \<Rightarrow> Inl er | Inr d \<Rightarrow> Inr (d, tl rest))"
    by (simp only: spec_field_def Let_def ys_def rest_def tok_def)
  have pf: "parse_field K buf s = (if peek buf e = NUL then (Inl EILSEQ, buf)
      else case k_strtoull K (cstr (buf[e := NUL]) s2) of
          Inl er \<Rightarrow> (Inl er, buf[e := NUL])
        | Inr d \<Rightarrow> (Inr (d, Suc e), buf[e := NUL, e := buf ! e]))"
    by (simp only: parse_field_def Let_def s2_def e_def)
  show ?thesis
  proof (cases "rest = []")
    case True
    with pk show ?thesis by (simp add: sf pf)
  next
    case False
    then obtain c r where c: "rest = c # r" by (meson list.exhaust)
    have "cstr buf s2 = tok @ c # r" unfolding s2(2) c [symmetric] by (simp add: tok_def rest_def)
    note tm = cstr_terminated [OF s2(1) this]
    have el: "e < length buf" using e(1) by (rule term_at_less)
    have "term_at buf (Suc e)" "cstr buf (Suc e) = r"
      using term_at_Suc [OF e(1)] tl_cstr [OF e(1)] e(2) c by simp_all
    with False pk tm c el e(3) show ?thesis
      by (auto simp: sf pf split: sum.splits)
  qed
qed

lemma field_cases:
  assumes "klib_ok K" and "term_at buf s"
  obtains (err) er b where "spec_field K (cstr buf s) = Inl er" and "parse_field K buf s = (Inl er, b)"
  | (field) d rest u where "spec_field K (cstr buf s) = Inr (d, rest)"
      and "parse_field K buf s = (Inr (d, u), buf)" and "term_at buf u" and "cstr buf u = rest"
  using parse_field_cstr [OF assms]
  by (cases "spec_field K (cstr buf s)"; cases "parse_field K buf s") auto

text \<open>One call of the parser is one step of the specification.\<close>

lemma parse_next_refines:
  assumes K: "klib_ok K" and t: "term_at buf s"
  shows "case spec_next K (cstr buf s) of
      Inl er \<Rightarrow> pr_res (parse_next_allowlist_entry K buf s wr) = Inl er
    | Inr None \<Rightarrow> pr_res (parse_next_allowlist_entry K buf s wr) = Inr 0
    | Inr (Some (m, w, rest)) \<Rightarrow>
        (\<exists>n > 0. pr_res (parse_next_allowlist_entry K buf s wr) = Inr n)
        \<and> pr_entry (parse_next_allowlist_entry K buf s wr)
            = (if wr then Some \<lparr>e_wmask = w, e_msr = m\<rparr> else None)
        \<and> pr_buf (parse_next_allowlist_entry K buf s wr) = buf
        \<and> term_at buf (pr_next (parse_next_allowlist_entry K buf s wr))
        \<and> cstr buf (pr_next (parse_next_allowlist_entry K buf s wr)) = rest"
proof -
  define u where "u = skip_comments K buf (skip_spaces K buf s)"
  note sp = skip_spaces_cstr [OF K t]
  have u: "term_at buf u" "cstr buf u = spec_skip K (cstr buf s)"
    using skip_comments_cstr [OF K sp(1)] sp(2) by (simp_all add: u_def spec_skip_dropWhile)
  note pk = peek_NUL_iff [OF u(1)]
  have su: "s \<le> u" unfolding u_def using skip_spaces_ge skip_comments_ge order_trans by blast
  note unf = parse_next_allowlist_entry_def Let_def u_def [symmetric] spec_next_def u(2) [symmetric]
  show ?thesis
  proof (cases "cstr buf u = []")
    case True
    with pk show ?thesis by (simp add: unf)
  next
    case ne: False
    from K u(1) show ?thesis
    proof (cases rule: field_cases)
      case (err er b)
      with ne pk show ?thesis by (simp add: unf)
    next
      case 1: (field d0 y1 u1)
      from K 1(3) show ?thesis
      proof (cases rule: field_cases)
        case (err er b)
        with 1 ne pk show ?thesis by (simp add: unf)
      next
        case 2: (field d1 y2 u2)
        have "s < u2" using su parse_field_ok(2) [OF 1(2)] parse_field_ok(2) [OF 2(2)] by simp
        with ne pk 1 2 show ?thesis by (simp add: unf)
      qed
    qed
  qed
qed

text \<open>The first pass counts the entries of the text, and reports its first error.\<close>

lemma count_entries_refines:
  assumes "klib_ok K" and "term_at buf s"
  shows "fst (count_entries K buf s num)
    = (case spec_parse K (cstr buf s) of Inl er \<Rightarrow> Inl er | Inr es \<Rightarrow> Inr (num + length es))"
  using assms
proof (induction K buf s num rule: count_entries.induct)
  case (1 K buf s num)
  let ?r = "parse_next_allowlist_entry K buf s False"
  note step = parse_next_refines [OF 1(2,3), of False]
  show ?case
  proof (cases "spec_next K (cstr buf s)")
    case (Inl er)
    with step show ?thesis by (subst count_entries.simps, subst spec_parse.simps) (simp add: Let_def)
  next
    case (Inr o1)
    show ?thesis
    proof (cases o1)
      case None
      with step Inr show ?thesis
        by (subst count_entries.simps, subst spec_parse.simps) (simp add: Let_def)
    next
      case (Some p)
      obtain m w rest where p: "p = (m, w, rest)" by (cases p)
      with step Inr Some obtain n where r: "pr_res ?r = Inr n" "0 < n" "pr_buf ?r = buf"
        "term_at buf (pr_next ?r)" "cstr buf (pr_next ?r) = rest" by auto
      have "fst (count_entries K buf s num) = fst (count_entries K buf (pr_next ?r) (Suc num))"
        using r by (subst count_entries.simps) (simp add: Let_def)
      with 1(1) [OF refl r(1,2)] 1(2) r Inr Some p show ?thesis
        by (subst spec_parse.simps) (simp split: sum.splits)
    qed
  qed
qed

end
