(* ===== verification/Allowlist_Table.thy ===== *)
theory Allowlist_Table
  imports Allowlist_Spec
begin

text \<open>
  The loaded allowlist of msr_allowlist.c: the array of entries, the hash table of 64
  buckets that links them, and the operations on both. An entry pointer is its index in the
  array; a bucket is the list of the indices linked in it, the last one added first. The
  theory shows that the table stays well formed while pass 2 fills it, and that a look-up
  in a well-formed table is a look-up in a finite map.
\<close>

section \<open>State\<close>

text \<open>
  \<open>static struct allowlist_entry *allowlist\<close> (\<open>None\<close> is the null pointer), \<open>static int
  allowlist_numentries\<close> and \<open>DEFINE_HASHTABLE(allowlist_hash, 6)\<close>.
\<close>

record alist =
  al_array :: "allowlist_entry list option"
  al_numentries :: nat
  al_hash :: "6 word \<Rightarrow> nat list"

text \<open>
  The state of the module's static data before any call. The hash function of the kernel's
  \<open>hash_add\<close> and \<open>hash_for_each_possible\<close> is a parameter \<open>h\<close> everywhere below.
\<close>

definition al_initial :: alist where
  "al_initial = \<lparr>al_array = None, al_numentries = 0, al_hash = (\<lambda>_. [])\<rparr>"

type_synonym bucket_hash = "u64 \<Rightarrow> 6 word"

section \<open>Operations\<close>

text \<open>\<open>hash_init(allowlist_hash)\<close>: every bucket becomes empty.\<close>

definition hash_init :: "alist \<Rightarrow> alist" where
  "hash_init G = G\<lparr>al_hash := (\<lambda>_. [])\<rparr>"

definition delete_allowlist :: "alist \<Rightarrow> alist" where
  "delete_allowlist G =
     (case al_array G of
        None \<Rightarrow> G
      | Some _ \<Rightarrow> G\<lparr>al_array := None, al_numentries := 0\<rparr>)"

text \<open>
  \<open>kcalloc\<close> gives zeroed entries or, when \<open>kcalloc_ok\<close> is false, the null pointer; the
  number of entries has been set by then.
\<close>

definition create_allowlist :: "bool \<Rightarrow> nat \<Rightarrow> alist \<Rightarrow> errno option \<times> alist" where
  "create_allowlist kcalloc_ok nentries G =
     (let G1 = delete_allowlist (hash_init G);
          G2 = G1\<lparr>al_numentries := nentries\<rparr>
      in if kcalloc_ok
         then (None, G2\<lparr>al_array := Some (replicate nentries \<lparr>e_wmask = 0, e_msr = 0\<rparr>)\<rparr>)
         else (Some ENOMEM, G2\<lparr>al_array := None\<rparr>))"

text \<open>The loop of \<open>hash_for_each_possible\<close> over one bucket, up to the first match.\<close>

fun find_chain :: "allowlist_entry list \<Rightarrow> u64 \<Rightarrow> nat list \<Rightarrow> nat option" where
  "find_chain xs msr [] = None"
| "find_chain xs msr (i # is) = (if e_msr (xs ! i) = msr then Some i else find_chain xs msr is)"

definition find_in_allowlist :: "bucket_hash \<Rightarrow> alist \<Rightarrow> u64 \<Rightarrow> nat option" where
  "find_in_allowlist h G msr =
     (case al_array G of
        None \<Rightarrow> None
      | Some xs \<Rightarrow> find_chain xs msr (al_hash G (h msr)))"

text \<open>\<open>hash_add(allowlist_hash, &entry->hlist, entry->msr)\<close> for the entry at index \<open>k\<close>.\<close>

definition add_to_allowlist :: "bucket_hash \<Rightarrow> nat \<Rightarrow> alist \<Rightarrow> alist" where
  "add_to_allowlist h k G =
     (case al_array G of
        None \<Rightarrow> G
      | Some xs \<Rightarrow> let b = h (e_msr (xs ! k))
                   in G\<lparr>al_hash := (al_hash G)(b := k # al_hash G b)\<rparr>)"

text \<open>The store through \<open>entry\<close>; \<open>None\<close> is a store outside the array.\<close>

definition store_entry :: "nat \<Rightarrow> allowlist_entry \<Rightarrow> alist \<Rightarrow> alist option" where
  "store_entry k e G =
     (case al_array G of
        None \<Rightarrow> None
      | Some xs \<Rightarrow> if k < length xs then Some (G\<lparr>al_array := Some (xs[k := e])\<rparr>) else None)"

text \<open>
  The body of pass 2 for an entry that has just been parsed: store it, look its MSR up among
  the entries linked so far, fail on a duplicate, link it otherwise. The cursor \<open>k\<close> is the
  loop's \<open>entry\<close>.
\<close>

definition table_put ::
  "bucket_hash \<Rightarrow> nat \<times> alist \<Rightarrow> allowlist_entry \<Rightarrow> (errno option \<times> nat \<times> alist) option" where
  "table_put h g e =
     (case g of (k, G) \<Rightarrow>
       (case store_entry k e G of
          None \<Rightarrow> None
        | Some G1 \<Rightarrow>
            if find_in_allowlist h G1 (e_msr e) \<noteq> None
            then Some (Some ENOTUNIQ, k, delete_allowlist G1)
            else Some (None, Suc k, add_to_allowlist h k G1)))"

definition msr_allowlist_maskexists :: "bucket_hash \<Rightarrow> alist \<Rightarrow> u64 \<Rightarrow> bool" where
  "msr_allowlist_maskexists h G reg = (find_in_allowlist h G reg \<noteq> None)"

definition msr_allowlist_writemask :: "bucket_hash \<Rightarrow> alist \<Rightarrow> u64 \<Rightarrow> u64" where
  "msr_allowlist_writemask h G reg =
     (case find_in_allowlist h G reg of
        None \<Rightarrow> 0
      | Some i \<Rightarrow> e_wmask (the (al_array G) ! i))"

section \<open>Well-formed tables\<close>

text \<open>The first \<open>k\<close> entries have distinct addresses and are the ones linked, each in its bucket.\<close>

definition tab_inv :: "bucket_hash \<Rightarrow> nat \<Rightarrow> alist \<Rightarrow> bool" where
  "tab_inv h k G =
     (case al_array G of
        None \<Rightarrow> False
      | Some xs \<Rightarrow> k \<le> length xs \<and> al_numentries G = length xs
          \<and> distinct (map e_msr (take k xs))
          \<and> (\<forall>b. distinct (al_hash G b) \<and> set (al_hash G b) = {i. i < k \<and> h (e_msr (xs ! i)) = b}))"

definition al_inv :: "bucket_hash \<Rightarrow> alist \<Rightarrow> bool" where
  "al_inv h G = (case al_array G of None \<Rightarrow> True | Some xs \<Rightarrow> tab_inv h (length xs) G)"

text \<open>The abstraction: the list of address and mask pairs, and the finite map it denotes.\<close>

definition entry_pairs :: "allowlist_entry list \<Rightarrow> (u64 \<times> u64) list" where
  "entry_pairs es = map (\<lambda>e. (e_msr e, e_wmask e)) es"

definition al_map :: "alist \<Rightarrow> u64 \<rightharpoonup> u64" where
  "al_map G = (case al_array G of None \<Rightarrow> Map.empty | Some xs \<Rightarrow> map_of (entry_pairs xs))"

lemma map_fst_entry_pairs [simp]: "map fst (entry_pairs es) = map e_msr es"
  by (simp add: entry_pairs_def comp_def)

lemma entry_pairs_append [simp]: "entry_pairs (xs @ ys) = entry_pairs xs @ entry_pairs ys"
  by (simp add: entry_pairs_def)

lemma find_chain_None: "find_chain xs r is = None \<longleftrightarrow> (\<forall>i \<in> set is. e_msr (xs ! i) \<noteq> r)"
  by (induction "is") auto

lemma find_chain_Some: "find_chain xs r is = Some i \<Longrightarrow> i \<in> set is \<and> e_msr (xs ! i) = r"
  by (induction "is") (auto split: if_splits)

lemma tab_inv_array: "tab_inv h k G \<Longrightarrow> \<exists>xs. al_array G = Some xs \<and> k \<le> length xs"
  by (auto simp: tab_inv_def split: option.splits)

text \<open>Every node the table can follow while it is loaded lies inside the array.\<close>

lemma tab_inv_nodes:
  "tab_inv h k G \<Longrightarrow> al_array G = Some xs \<Longrightarrow> i \<in> set (al_hash G b) \<Longrightarrow> i < k \<and> i < length xs"
  by (auto simp: tab_inv_def)

lemma tab_find_None:
  assumes "tab_inv h k G" and "al_array G = Some xs"
  shows "find_in_allowlist h G r = None \<longleftrightarrow> r \<notin> e_msr ` set (take k xs)"
proof -
  have b: "set (al_hash G (h r)) = {i. i < k \<and> h (e_msr (xs ! i)) = h r}" "k \<le> length xs"
    using assms by (simp_all add: tab_inv_def)
  then have "e_msr ` set (take k xs) = (\<lambda>i. e_msr (xs ! i)) ` {0..<k}"
    by (simp add: nth_image [symmetric] image_image)
  with b(1) assms(2) show ?thesis
    by (auto simp: find_in_allowlist_def find_chain_None)
qed

lemma tab_find_Some:
  assumes "tab_inv h k G" and "al_array G = Some xs" and "find_in_allowlist h G r = Some i"
  shows "i < k" and "i < length xs" and "e_msr (xs ! i) = r"
proof -
  from assms(2,3) have "i \<in> set (al_hash G (h r))" "e_msr (xs ! i) = r"
    by (auto simp: find_in_allowlist_def dest: find_chain_Some)
  with tab_inv_nodes [OF assms(1,2)] show "i < k" "i < length xs" "e_msr (xs ! i) = r" by auto
qed

lemma map_of_nth:
  assumes "distinct (map e_msr xs)" and "i < length xs"
  shows "map_of (entry_pairs xs) (e_msr (xs ! i)) = Some (e_wmask (xs ! i))"
proof -
  have "(e_msr (xs ! i), e_wmask (xs ! i)) \<in> set (entry_pairs xs)"
    using assms(2) by (auto simp: entry_pairs_def)
  with assms(1) show ?thesis by (simp add: map_of_is_SomeI)
qed

text \<open>Look-ups in a well-formed table agree with the map.\<close>

lemma maskexists_al_map:
  assumes "al_inv h G"
  shows "msr_allowlist_maskexists h G r \<longleftrightarrow> r \<in> dom (al_map G)"
proof (cases "al_array G")
  case None
  then show ?thesis by (simp add: msr_allowlist_maskexists_def find_in_allowlist_def al_map_def)
next
  case (Some xs)
  with assms have "tab_inv h (length xs) G" by (simp add: al_inv_def)
  from tab_find_None [OF this Some, of r] Some show ?thesis
    by (auto simp: msr_allowlist_maskexists_def al_map_def dom_map_of_conv_image_fst
        entry_pairs_def image_image)
qed

lemma writemask_al_map:
  assumes "al_inv h G"
  shows "msr_allowlist_writemask h G r = (case al_map G r of None \<Rightarrow> 0 | Some w \<Rightarrow> w)"
proof (cases "al_array G")
  case None
  then show ?thesis by (simp add: msr_allowlist_writemask_def find_in_allowlist_def al_map_def)
next
  case (Some xs)
  with assms have inv: "tab_inv h (length xs) G" by (simp add: al_inv_def)
  show ?thesis
  proof (cases "find_in_allowlist h G r")
    case None
    then have "r \<notin> dom (al_map G)"
      using maskexists_al_map [OF assms, of r] by (simp add: msr_allowlist_maskexists_def)
    with None show ?thesis by (simp add: msr_allowlist_writemask_def domIff)
  next
    case f: (Some i)
    have "distinct (map e_msr xs)" using inv Some by (simp add: tab_inv_def)
    with tab_find_Some [OF inv Some f] f Some show ?thesis
      using map_of_nth [of xs i] by (auto simp: msr_allowlist_writemask_def al_map_def)
  qed
qed

section \<open>Preservation\<close>

lemma al_inv_initial [simp]: "al_inv h al_initial"
  by (simp add: al_inv_def al_initial_def)

lemma delete_array [simp]: "al_array (delete_allowlist G) = None"
  by (simp add: delete_allowlist_def split: option.splits)

lemma hash_init_array [simp]: "al_array (hash_init G) = al_array G"
  by (simp add: hash_init_def)

lemma al_inv_unloaded: "al_array G = None \<Longrightarrow> al_inv h G"
  by (simp add: al_inv_def)

lemma al_map_unloaded: "al_array G = None \<Longrightarrow> al_map G = Map.empty"
  by (simp add: al_map_def)

lemma create_fails:
  "create_allowlist False n G = (r, G') \<Longrightarrow> r = Some ENOMEM \<and> al_array G' = None \<and> al_numentries G' = n"
  by (auto simp: create_allowlist_def Let_def)

text \<open>A fresh table is empty whatever the hash table held before: \<open>hash_init\<close> comes first.\<close>

lemma create_fresh:
  assumes "create_allowlist True n G = (r, G')"
  shows "r = None" and "tab_inv h 0 G'"
    and "al_array G' = Some (replicate n \<lparr>e_wmask = 0, e_msr = 0\<rparr>)"
proof -
  have d: "al_hash (delete_allowlist (hash_init G)) = (\<lambda>_. [])"
    by (simp add: delete_allowlist_def hash_init_def split: option.splits)
  from assms show "r = None" "tab_inv h 0 G'"
    "al_array G' = Some (replicate n \<lparr>e_wmask = 0, e_msr = 0\<rparr>)"
    by (auto simp: create_allowlist_def Let_def tab_inv_def d)
qed

text \<open>Storing at the cursor does not disturb the entries linked before it.\<close>

lemma store_entry_inv:
  assumes "tab_inv h k G" and "al_array G = Some xs" and "k < length xs"
  shows "\<exists>G'. store_entry k e G = Some G' \<and> tab_inv h k G' \<and> al_array G' = Some (xs[k := e])"
  using assms by (auto simp: store_entry_def tab_inv_def nth_list_update)

lemma add_to_allowlist_inv:
  assumes "tab_inv h k G" and "al_array G = Some xs" and "k < length xs"
    and "e_msr (xs ! k) \<notin> e_msr ` set (take k xs)"
  shows "tab_inv h (Suc k) (add_to_allowlist h k G)"
proof -
  have "distinct (map e_msr (take (Suc k) xs))"
    using assms by (simp add: tab_inv_def take_Suc_conv_app_nth)
  moreover have "set (al_hash (add_to_allowlist h k G) b) = {i. i < Suc k \<and> h (e_msr (xs ! i)) = b}" for b
    using assms by (auto simp: tab_inv_def add_to_allowlist_def Let_def less_Suc_eq)
  moreover have "distinct (al_hash (add_to_allowlist h k G) b)" for b
    using assms by (auto simp: tab_inv_def add_to_allowlist_def Let_def)
  ultimately show ?thesis
    using assms by (simp add: tab_inv_def add_to_allowlist_def Let_def)
qed

lemma add_array [simp]: "al_array (add_to_allowlist h k G) = al_array G"
  by (simp add: add_to_allowlist_def Let_def split: option.splits)

section \<open>Filling a table\<close>

text \<open>
  The interface between pass 2 and the table. \<open>put\<close> inserts one entry and may fail or (the
  outer \<open>None\<close>) leave the memory it owns; \<open>content\<close> lists what has been inserted, \<open>room\<close>
  counts the free slots, \<open>wiped\<close> says that the table has been thrown away.
\<close>

locale filling_table =
  fixes good :: "'g \<Rightarrow> bool"
    and room :: "'g \<Rightarrow> nat"
    and content :: "'g \<Rightarrow> allowlist_entry list"
    and wiped :: "'g \<Rightarrow> bool"
    and put :: "'g \<Rightarrow> allowlist_entry \<Rightarrow> (errno option \<times> 'g) option"
  assumes put_fresh: "\<lbrakk>good g; 0 < room g; e_msr e \<notin> e_msr ` set (content g)\<rbrakk> \<Longrightarrow>
      \<exists>g'. put g e = Some (None, g') \<and> good g' \<and> content g' = content g @ [e] \<and> room g' = room g - 1"
    and put_dup: "\<lbrakk>good g; 0 < room g; e_msr e \<in> e_msr ` set (content g)\<rbrakk> \<Longrightarrow>
      \<exists>g'. put g e = Some (Some ENOTUNIQ, g') \<and> wiped g'"
    and content_distinct: "good g \<Longrightarrow> distinct (map e_msr (content g))"

text \<open>Inserting the entries of a list in order, up to the first failure.\<close>

fun put_all :: "('g \<Rightarrow> 'e \<Rightarrow> (errno option \<times> 'g) option) \<Rightarrow> 'g \<Rightarrow> 'e list \<Rightarrow> (errno option \<times> 'g) option"
where
  "put_all put g [] = Some (None, g)"
| "put_all put g (e # es) =
     (case put g e of
        None \<Rightarrow> None
      | Some (Some er, g') \<Rightarrow> Some (Some er, g')
      | Some (None, g') \<Rightarrow> put_all put g' es)"

context filling_table begin

lemma put_all_distinct:
  assumes "good g" and "length es \<le> room g" and "distinct (map e_msr (content g @ es))"
  shows "\<exists>g'. put_all put g es = Some (None, g') \<and> good g' \<and> content g' = content g @ es
    \<and> room g' = room g - length es"
  using assms
proof (induction es arbitrary: g)
  case Nil
  then show ?case by simp
next
  case (Cons e es)
  then obtain g1 where g1: "put g e = Some (None, g1)" "good g1" "content g1 = content g @ [e]"
    "room g1 = room g - 1"
    using put_fresh [of g e] by auto
  have "length es \<le> room g1" "distinct (map e_msr (content g1 @ es))"
    using Cons.prems g1 by auto
  from Cons.IH [OF g1(2) this] g1 show ?case by auto
qed

lemma put_all_duplicate:
  assumes "good g" and "length es \<le> room g" and "\<not> distinct (map e_msr (content g @ es))"
  shows "\<exists>g'. put_all put g es = Some (Some ENOTUNIQ, g') \<and> wiped g'"
  using assms
proof (induction es arbitrary: g)
  case Nil
  then show ?case using content_distinct by simp
next
  case (Cons e es)
  show ?case
  proof (cases "e_msr e \<in> e_msr ` set (content g)")
    case True
    with Cons.prems obtain g1 where "put g e = Some (Some ENOTUNIQ, g1)" "wiped g1"
      using put_dup [of g e] by auto
    then show ?thesis by simp
  next
    case False
    with Cons.prems obtain g1 where g1: "put g e = Some (None, g1)" "good g1"
      "content g1 = content g @ [e]" "room g1 = room g - 1"
      using put_fresh [of g e] by auto
    have "length es \<le> room g1" "\<not> distinct (map e_msr (content g1 @ es))"
      using Cons.prems g1 by auto
    from Cons.IH [OF g1(2) this] g1 show ?thesis by simp
  qed
qed

end

text \<open>The allowlist's table under construction: the cursor and the table, filled up to it.\<close>

definition tab_room :: "nat \<times> alist \<Rightarrow> nat" where
  "tab_room g = (case al_array (snd g) of None \<Rightarrow> 0 | Some xs \<Rightarrow> length xs - fst g)"

definition tab_content :: "nat \<times> alist \<Rightarrow> allowlist_entry list" where
  "tab_content g = (case al_array (snd g) of None \<Rightarrow> [] | Some xs \<Rightarrow> take (fst g) xs)"

definition tab_wiped :: "nat \<times> alist \<Rightarrow> bool" where
  "tab_wiped g \<longleftrightarrow> al_array (snd g) = None \<and> al_numentries (snd g) = 0"

lemma table_put_dup:
  assumes "tab_inv h k G" and "0 < tab_room (k, G)" and "e_msr e \<in> e_msr ` set (tab_content (k, G))"
  shows "\<exists>g'. table_put h (k, G) e = Some (Some ENOTUNIQ, g') \<and> tab_wiped g'"
proof -
  from tab_inv_array [OF assms(1)] obtain xs where xs: "al_array G = Some xs" by blast
  with assms(2) have k: "k < length xs" by (simp add: tab_room_def)
  obtain G1 where G1: "store_entry k e G = Some G1" "tab_inv h k G1" "al_array G1 = Some (xs[k := e])"
    using store_entry_inv [OF assms(1) xs k] by blast
  have "find_in_allowlist h G1 (e_msr e) \<noteq> None"
    using tab_find_None [OF G1(2,3)] assms(3) xs by (simp add: tab_content_def)
  moreover have "tab_wiped (k, delete_allowlist G1)"
    using G1(3) by (simp add: tab_wiped_def delete_allowlist_def)
  ultimately show ?thesis using G1(1) by (simp add: table_put_def)
qed

lemma table_put_fresh:
  assumes "tab_inv h k G" and "0 < tab_room (k, G)" and "e_msr e \<notin> e_msr ` set (tab_content (k, G))"
  shows "\<exists>G'. table_put h (k, G) e = Some (None, Suc k, G') \<and> tab_inv h (Suc k) G'
    \<and> tab_content (Suc k, G') = tab_content (k, G) @ [e] \<and> tab_room (Suc k, G') = tab_room (k, G) - 1"
proof -
  from tab_inv_array [OF assms(1)] obtain xs where xs: "al_array G = Some xs" by blast
  with assms(2) have k: "k < length xs" by (simp add: tab_room_def)
  obtain G1 where G1: "store_entry k e G = Some G1" "tab_inv h k G1" "al_array G1 = Some (xs[k := e])"
    using store_entry_inv [OF assms(1) xs k] by blast
  have f: "find_in_allowlist h G1 (e_msr e) = None"
    using tab_find_None [OF G1(2,3)] assms(3) xs by (simp add: tab_content_def)
  have "tab_inv h (Suc k) (add_to_allowlist h k G1)"
    using add_to_allowlist_inv [OF G1(2,3)] k assms(3) xs by (simp add: tab_content_def)
  with f G1 k xs show ?thesis
    by (simp add: table_put_def tab_content_def tab_room_def take_Suc_conv_app_nth)
qed

interpretation tab: filling_table "\<lambda>g. tab_inv h (fst g) (snd g)" tab_room tab_content tab_wiped
  "table_put h" for h
proof (unfold_locales, goal_cases)
  case (1 g e)
  then show ?case using table_put_fresh [of h "fst g" "snd g" e] by fastforce
next
  case (2 g e)
  then show ?case using table_put_dup [of h "fst g" "snd g" e] by simp
next
  case (3 g)
  then show ?case by (auto simp: tab_inv_def tab_content_def split: option.splits)
qed

section \<open>The access policy\<close>

text \<open>
  What the two devices that touch registers rely on when they consult the allowlist. The
  allowlist is the provider; the per-CPU device and the batch device are the clients.
\<close>

locale msr_policy =
  fixes inv :: "'g \<Rightarrow> bool"
    and policy :: "'g \<Rightarrow> u64 \<rightharpoonup> u64"
    and readable :: "'g \<Rightarrow> u64 \<Rightarrow> bool"
    and writemask :: "'g \<Rightarrow> u64 \<Rightarrow> u64"
  assumes readable_policy: "inv g \<Longrightarrow> readable g r \<longleftrightarrow> r \<in> dom (policy g)"
    and writemask_policy: "inv g \<Longrightarrow> writemask g r = (case policy g r of None \<Rightarrow> 0 | Some w \<Rightarrow> w)"
begin

lemma writable_readable: "inv g \<Longrightarrow> writemask g r \<noteq> 0 \<Longrightarrow> readable g r"
  by (auto simp: readable_policy writemask_policy split: option.splits)

lemma unlisted_no_mask: "inv g \<Longrightarrow> \<not> readable g r \<Longrightarrow> writemask g r = 0"
  using writable_readable by blast

lemma readable_mask: "inv g \<Longrightarrow> readable g r \<Longrightarrow> policy g r = Some (writemask g r)"
  by (auto simp: readable_policy writemask_policy)

end

interpretation al: msr_policy "al_inv h" al_map "msr_allowlist_maskexists h" "msr_allowlist_writemask h"
  for h
  by unfold_locales (auto simp: maskexists_al_map writemask_al_map)

end
