(* ===== verification/Klib_Instance.thy ===== *)
theory Klib_Instance
  imports Allowlist_Spec
begin

text \<open>
  The documented behaviour of the kernel's string functions that the round trips rely on, and
  a concrete instance of it (ASCII white space; \<open>kstrtoull\<close> with base 0: a 0x prefix means
  hexadecimal, a leading 0 octal, \<open>EINVAL\<close> for a malformed number, \<open>ERANGE\<close> for one that does
  not fit in 64 bits). The instance shows that the hypotheses can hold, and the witnesses of
  the other theories run on it; no definition of the program depends on it.
\<close>

definition klib_doc :: "klib \<Rightarrow> bool" where
  "klib_doc K \<longleftrightarrow> klib_ok K \<and> k_isspace K SP \<and> k_isspace K LF \<and> \<not> k_isspace K (CHR ''#'')
     \<and> \<not> k_isspace K (CHR ''x'') \<and> (\<forall>d. \<not> k_isspace K (hex_digit d))
     \<and> (\<forall>w v. k_strtoull K (''0x'' @ sprintf_0X w v) = Inr v)"

fun ascii_space :: "char \<Rightarrow> bool" where
  "ascii_space c = (let n = of_char c :: nat in n = 32 \<or> (9 \<le> n \<and> n \<le> 13))"

definition digit_val :: "char \<Rightarrow> nat" where
  "digit_val c =
     (let n = of_char c :: nat
      in if 48 \<le> n \<and> n \<le> 57 then n - 48
         else if 97 \<le> n \<and> n \<le> 102 then n - 87
         else if 65 \<le> n \<and> n \<le> 70 then n - 55
         else 99)"

fun digits_val :: "nat \<Rightarrow> nat \<Rightarrow> string \<Rightarrow> nat option" where
  "digits_val base acc [] = Some acc"
| "digits_val base acc (c # cs) =
     (if digit_val c < base then digits_val base (acc * base + digit_val c) cs else None)"

definition number :: "nat \<Rightarrow> string \<Rightarrow> errno + u64" where
  "number base s =
     (case (if s = [] then None else digits_val base 0 s) of
        None \<Rightarrow> Inl EINVAL
      | Some n \<Rightarrow> if n < 2 ^ 64 then Inr (of_nat n) else Inl ERANGE)"

definition strtoull0 :: "string \<Rightarrow> errno + u64" where
  "strtoull0 s =
     (if take 2 s = ''0x'' \<or> take 2 s = ''0X'' then number 16 (drop 2 s)
      else if take 1 s = ''0'' then number 8 s
      else number 10 s)"

definition linux_klib :: klib where
  "linux_klib = \<lparr>k_isspace = ascii_space, k_strtoull = strtoull0\<rparr>"

lemma digit_val_hex_digit [simp]: "digit_val (hex_digit d) = d mod 16"
proof -
  have "\<forall>n < 16. digit_val (''0123456789ABCDEF'' ! n) = n" by (code_simp)
  then show ?thesis by (simp add: hex_digit_def)
qed

lemma hex_digit_not_space: "\<not> ascii_space (hex_digit d)"
proof -
  have "\<forall>n < 16. \<not> ascii_space (''0123456789ABCDEF'' ! n)" by (code_simp)
  then show ?thesis by (simp add: hex_digit_def)
qed

lemma digits_val_append:
  "digits_val b acc (xs @ ys) = (case digits_val b acc xs of None \<Rightarrow> None | Some a \<Rightarrow> digits_val b a ys)"
  by (induction xs arbitrary: acc) auto

lemma digits_val_hex_string: "digits_val 16 0 (hex_string n) = Some n"
proof (induction n rule: hex_string.induct)
  case (1 n)
  show ?case
  proof (cases "n < 16")
    case True
    then show ?thesis by (subst hex_string.simps) simp
  next
    case False
    with 1 show ?thesis by (subst hex_string.simps) (simp add: digits_val_append)
  qed
qed

lemma digit_val_0 [simp]: "digit_val (CHR ''0'') = 0"
  by code_simp

lemma digits_val_zeros: "digits_val 16 0 (replicate k (CHR ''0'') @ xs) = digits_val 16 0 xs"
  by (induction k) auto

lemma strtoull0_hex: "strtoull0 (''0x'' @ sprintf_0X w v) = Inr v"
proof -
  have "digits_val 16 0 (sprintf_0X w v) = Some (unat v)"
    by (simp add: sprintf_0X_def Let_def digits_val_zeros digits_val_hex_string)
  moreover have "unat v < 2 ^ 64" using unsigned_less [of v] by simp
  ultimately show ?thesis
    by (simp add: strtoull0_def number_def sprintf_0X_def Let_def)
qed

lemma linux_klib_ok [simp]: "klib_ok linux_klib"
  by (simp add: klib_ok_def linux_klib_def)

lemma linux_klib_doc [simp]: "klib_doc linux_klib"
  unfolding klib_doc_def
  by (simp add: strtoull0_hex [simplified] hex_digit_not_space [simplified])
     (simp add: linux_klib_def strtoull0_hex [simplified] hex_digit_not_space [simplified])

text \<open>Evaluation of the string parser on closed texts.\<close>

lemmas klib_eval = spec_parse.simps spec_next_def spec_skip.simps spec_field_def Let_def
  linux_klib_def strtoull0_def number_def digit_val_def

end
