(* ===== verification/Allowlist_Dev.thy ===== *)
theory Allowlist_Dev
  imports Allowlist_Table Klib_Instance
begin

text \<open>
  The device /dev/cpu/msr_allowlist: \<open>write_allowlist\<close> replaces the loaded table by the
  entries of a text, \<open>read_allowlist\<close> prints one entry per call. The theory shows that a
  write computes what the string parser and the finite map say on every branch, that it
  never stores outside the entry array, that a rejected text leaves either the old table
  (first pass) or no table (second pass), and what a read copies to user space.
\<close>

definition open_allowlist :: int where
  "open_allowlist = 0"

section \<open>\<open>write_allowlist\<close>\<close>

text \<open>What the kernel decides during the call: the two allocations and the copy from user space.\<close>

record write_env =
  kzalloc_ok :: bool
  copy_in_ok :: bool
  kcalloc_ok :: bool

definition MAX_WLIST_BSIZE :: nat where
  "MAX_WLIST_BSIZE = (128 * 1024) + 1"

text \<open>
  The loop of pass 2. The cursor and the table are the pair \<open>g\<close>; a parse error deletes the
  table. The outer \<open>None\<close> is a store outside the array.
\<close>

function build_allowlist ::
  "klib \<Rightarrow> bucket_hash \<Rightarrow> string \<Rightarrow> nat \<Rightarrow> nat \<times> alist \<Rightarrow> (errno option \<times> nat \<times> alist) option" where
  "build_allowlist K h buf s g =
     (let r = parse_next_allowlist_entry K buf s True
      in case pr_res r of
           Inl er \<Rightarrow> Some (Some er, fst g, delete_allowlist (snd g))
         | Inr n \<Rightarrow>
             if 0 < n
             then (case table_put h g (the (pr_entry r)) of
                     None \<Rightarrow> None
                   | Some (Some er, g') \<Rightarrow> Some (Some er, g')
                   | Some (None, g') \<Rightarrow> build_allowlist K h (pr_buf r) (pr_next r) g')
             else Some (None, g))"
  by pat_completeness auto
termination
proof (relation "measure (\<lambda>(K, h, buf, s, g). length buf - s)", goal_cases)
  case 1
  show ?case by simp
next
  case (2 K h buf s g r n)
  then have "pr_res (parse_next_allowlist_entry K buf s True) = Inr n" "0 < n" by auto
  from parse_next_Inr [OF this(1)] this(2) 2(1) show ?case by auto
qed

declare build_allowlist.simps [simp del]

text \<open>
  \<open>ubuf\<close> are the \<open>count\<close> bytes at \<open>buf\<close>. The result is the return value (\<open>Inl\<close> a
  negated error) and the module's allowlist state; \<open>None\<close> is a store outside the entry array.
\<close>

definition write_allowlist ::
  "klib \<Rightarrow> bucket_hash \<Rightarrow> write_env \<Rightarrow> string \<Rightarrow> alist \<Rightarrow> ((errno + nat) \<times> alist) option" where
  "write_allowlist K h env ubuf G =
     (let count = length ubuf
      in if count \<le> 2 then Some (Inr count, hash_init (delete_allowlist G))
         else if count + 1 > MAX_WLIST_BSIZE then Some (Inl E2BIG, G)
         else if \<not> kzalloc_ok env then Some (Inl ENOMEM, G)
         else if \<not> copy_in_ok env then Some (Inl EFAULT, G)
         else let kbuf = ubuf @ [NUL]
         in case count_entries K kbuf 0 0 of
              (Inl er, kbuf1) \<Rightarrow> Some (Inl er, G)
            | (Inr num_entries, kbuf1) \<Rightarrow>
                if num_entries = 0 then Some (Inl ENOMSG, G)
                else (case create_allowlist (kcalloc_ok env) num_entries G of
                        (Some er, G1) \<Rightarrow> Some (Inl er, G1)
                      | (None, G1) \<Rightarrow>
                          (case build_allowlist K h kbuf1 0 (0, G1) of
                             None \<Rightarrow> None
                           | Some (Some er, g) \<Rightarrow> Some (Inl er, snd g)
                           | Some (None, g) \<Rightarrow> Some (Inr count, snd g))))"

section \<open>\<open>read_allowlist\<close>\<close>

text \<open>The two \<open>sprintf\<close> calls: a header before the first entry, and the entry's line.\<close>

definition entry_line :: "allowlist_entry \<Rightarrow> string" where
  "entry_line e = ''0x'' @ sprintf_0X 8 (e_msr e) @ '' 0x'' @ sprintf_0X 16 (e_wmask e) @ [LF]"

definition header_line :: string where
  "header_line = sprintf_left 10 ''#MSR'' @ [SP] @ sprintf_left 18 ''Write mask'' @ [LF]"

definition allowlist_kbuf :: "int \<Rightarrow> allowlist_entry \<Rightarrow> string" where
  "allowlist_kbuf idx e = (if idx = 0 then header_line @ entry_line e else entry_line e)"

text \<open>What a read returns: the return value, the file position left in \<open>*ppos\<close>, the bytes copied.\<close>

record read_ret =
  rd_res :: "errno + nat"
  rd_ppos :: loff_t
  rd_data :: string

text \<open>
  \<open>None\<close> is an access \<open>allowlist[idx]\<close> through the null pointer or past the array.
\<close>

definition read_allowlist :: "bool \<Rightarrow> nat \<Rightarrow> loff_t \<Rightarrow> alist \<Rightarrow> read_ret option" where
  "read_allowlist copy_ok count ppos G =
     (let idx = sint ppos
      in if idx \<ge> int (al_numentries G) \<or> idx < 0
         then Some \<lparr>rd_res = Inr 0, rd_ppos = 0, rd_data = []\<rparr>
         else case al_array G of
           None \<Rightarrow> None
         | Some xs \<Rightarrow>
             if nat idx \<ge> length xs then None
             else let kbuf = allowlist_kbuf idx (xs ! nat idx); len = length kbuf
             in if len > count then Some \<lparr>rd_res = Inl E2BIG, rd_ppos = 0, rd_data = []\<rparr>
                else if \<not> copy_ok then Some \<lparr>rd_res = Inl EFAULT, rd_ppos = 0, rd_data = []\<rparr>
                else Some \<lparr>rd_res = Inr len, rd_ppos = word_of_int (idx + 1), rd_data = kbuf\<rparr>)"

section \<open>Pass 2 is a sequence of insertions\<close>

text \<open>One round of the loop, by what the specification finds at the cursor.\<close>

lemma build_at_end:
  assumes "klib_ok K" and "term_at buf s" and "spec_next K (cstr buf s) = Inr None"
  shows "build_allowlist K h buf s g = Some (None, g)"
  using parse_next_refines [OF assms(1,2), of True] assms(3)
  by (subst build_allowlist.simps) (simp add: Let_def)

lemma build_at_entry:
  assumes "klib_ok K" and "term_at buf s" and "spec_next K (cstr buf s) = Inr (Some (m, w, rest))"
  shows "\<exists>u. term_at buf u \<and> cstr buf u = rest \<and> build_allowlist K h buf s g =
    (case table_put h g \<lparr>e_wmask = w, e_msr = m\<rparr> of
       None \<Rightarrow> None
     | Some (Some er, g') \<Rightarrow> Some (Some er, g')
     | Some (None, g') \<Rightarrow> build_allowlist K h buf u g')"
proof (intro exI conjI)
  let ?r = "parse_next_allowlist_entry K buf s True"
  from parse_next_refines [OF assms(1,2), of True] assms(3) obtain k
    where r: "pr_res ?r = Inr k" "0 < k" "pr_entry ?r = Some \<lparr>e_wmask = w, e_msr = m\<rparr>" "pr_buf ?r = buf"
      and "term_at buf (pr_next ?r)" "cstr buf (pr_next ?r) = rest" by auto
  then show "term_at buf (pr_next ?r)" "cstr buf (pr_next ?r) = rest" by simp_all
  show "build_allowlist K h buf s g = (case table_put h g \<lparr>e_wmask = w, e_msr = m\<rparr> of
       None \<Rightarrow> None
     | Some (Some er, g') \<Rightarrow> Some (Some er, g')
     | Some (None, g') \<Rightarrow> build_allowlist K h buf (pr_next ?r) g')"
    by (subst build_allowlist.simps) (simp add: Let_def r cong: option.case_cong)
qed

lemma build_refines:
  assumes "klib_ok K" and "term_at buf s" and "spec_parse K (cstr buf s) = Inr es"
  shows "build_allowlist K h buf s g = put_all (table_put h) g es"
  using assms(2,3)
proof (induction es arbitrary: s g)
  case Nil
  then have "spec_next K (cstr buf s) = Inr None"
    by (subst (asm) spec_parse.simps) (auto split: sum.splits option.splits)
  from build_at_end [OF assms(1) Nil(1) this] show ?case by simp
next
  case (Cons e es)
  then obtain m w rest where n: "spec_next K (cstr buf s) = Inr (Some (m, w, rest))"
    "e = \<lparr>e_wmask = w, e_msr = m\<rparr>" "spec_parse K rest = Inr es"
    by (subst (asm) spec_parse.simps) (auto split: sum.splits option.splits)
  from build_at_entry [OF assms(1) Cons.prems(1) n(1), of h g] obtain u
    where u: "term_at buf u" "cstr buf u = rest"
      and step: "build_allowlist K h buf s g = (case table_put h g e of
        None \<Rightarrow> None
      | Some (Some er, g') \<Rightarrow> Some (Some er, g')
      | Some (None, g') \<Rightarrow> build_allowlist K h buf u g')" unfolding n(2) by blast
  have "build_allowlist K h buf u = (\<lambda>g'. put_all (table_put h) g' es)"
    by (rule ext) (rule Cons.IH [OF u(1)], simp add: u(2) n(3))
  then show ?case by (simp only: step put_all.simps)
qed

section \<open>A write refines its specification\<close>

text \<open>
  The contract of a write, on the finite map alone: \<open>m\<close> is the policy before the call.
  A text rejected in the first pass leaves it; one rejected later leaves the empty policy.
\<close>

definition write_spec ::
  "klib \<Rightarrow> write_env \<Rightarrow> string \<Rightarrow> (u64 \<rightharpoonup> u64) \<Rightarrow> (errno + nat) \<times> (u64 \<rightharpoonup> u64)" where
  "write_spec K env ubuf m =
     (if length ubuf \<le> 2 then (Inr (length ubuf), Map.empty)
      else if length ubuf > 131072 then (Inl E2BIG, m)
      else if \<not> kzalloc_ok env then (Inl ENOMEM, m)
      else if \<not> copy_in_ok env then (Inl EFAULT, m)
      else case spec_parse K (takeWhile (\<lambda>c. c \<noteq> NUL) ubuf) of
             Inl er \<Rightarrow> (Inl er, m)
           | Inr es \<Rightarrow>
               if es = [] then (Inl ENOMSG, m)
               else if \<not> kcalloc_ok env then (Inl ENOMEM, Map.empty)
               else if distinct (map e_msr es) then (Inr (length ubuf), map_of (entry_pairs es))
               else (Inl ENOTUNIQ, Map.empty))"

lemma kbuf_term: "term_at (ubuf @ [NUL]) 0"
  by (simp add: term_at_def)

lemma kbuf_cstr: "cstr (ubuf @ [NUL]) 0 = takeWhile (\<lambda>c. c \<noteq> NUL) ubuf"
proof (cases "NUL \<in> set ubuf")
  case True
  then show ?thesis by (simp add: cstr_def takeWhile_append1)
next
  case False
  then have "\<forall>c \<in> set ubuf. c \<noteq> NUL" by blast
  then have tw: "takeWhile (\<lambda>c. c \<noteq> NUL) ubuf = ubuf" by (simp add: takeWhile_eq_all_conv)
  have "takeWhile (\<lambda>c. c \<noteq> NUL) (ubuf @ [NUL]) = ubuf @ takeWhile (\<lambda>c. c \<noteq> NUL) [NUL]"
    by (rule takeWhile_append2) (use False in blast)
  then have "cstr (ubuf @ [NUL]) 0 = ubuf" by (simp add: cstr_def)
  then show ?thesis by (simp only: tw)
qed

lemma pass1_ok:
  assumes "klib_ok K" and "spec_parse K (takeWhile (\<lambda>c. c \<noteq> NUL) ubuf) = Inr es"
  shows "count_entries K (ubuf @ [NUL]) 0 0 = (Inr (length es), ubuf @ [NUL])"
proof -
  have f: "fst (count_entries K (ubuf @ [NUL]) 0 0) = Inr (length es)"
    using count_entries_refines [OF assms(1) kbuf_term, of ubuf 0] assms(2) by (simp add: kbuf_cstr)
  with count_entries_restores [OF f] show ?thesis by (simp add: prod_eq_iff)
qed

lemma pass1_err:
  assumes "klib_ok K" and "spec_parse K (takeWhile (\<lambda>c. c \<noteq> NUL) ubuf) = Inl er"
  shows "\<exists>b. count_entries K (ubuf @ [NUL]) 0 0 = (Inl er, b)"
proof -
  have "fst (count_entries K (ubuf @ [NUL]) 0 0) = Inl er"
    using count_entries_refines [OF assms(1) kbuf_term, of ubuf 0] assms(2) by (simp add: kbuf_cstr)
  then show ?thesis by (simp add: prod_eq_iff)
qed

text \<open>
  Pass 1 and pass 2 agree: once pass 1 has counted the entries of the text, pass 2 fills a
  table of that size with exactly these entries or reports a duplicate. It meets no parse
  error and never stores past the end of the table.
\<close>

lemma build_after_count:
  assumes K: "klib_ok K" and es: "spec_parse K (takeWhile (\<lambda>c. c \<noteq> NUL) ubuf) = Inr es"
    and cr: "create_allowlist True (length es) G = (r, G1)"
  shows "if distinct (map e_msr es)
    then \<exists>k G2. build_allowlist K h (ubuf @ [NUL]) 0 (0, G1) = Some (None, k, G2)
           \<and> tab_inv h (length es) G2 \<and> al_array G2 = Some es
    else \<exists>k G2. build_allowlist K h (ubuf @ [NUL]) 0 (0, G1) = Some (Some ENOTUNIQ, k, G2)
           \<and> al_array G2 = None \<and> al_numentries G2 = 0"
proof -
  note fresh = create_fresh(1) [OF cr] create_fresh(2) [OF cr, of h] create_fresh(3) [OF cr]
  have b: "build_allowlist K h (ubuf @ [NUL]) 0 (0, G1) = put_all (table_put h) (0, G1) es"
    using build_refines [OF K kbuf_term] es by (simp add: kbuf_cstr)
  have room: "length es \<le> tab_room (0, G1)" using fresh by (simp add: tab_room_def)
  have con: "tab_content (0, G1) = []" using fresh by (simp add: tab_content_def)
  show ?thesis
  proof (cases "distinct (map e_msr es)")
    case True
    with tab.put_all_distinct [of h "(0, G1)" es] fresh(2) room con obtain k G2
      where g: "put_all (table_put h) (0, G1) es = Some (None, k, G2)" "tab_inv h k G2"
        "tab_content (k, G2) = es" "tab_room (k, G2) = tab_room (0, G1) - length es"
      by auto
    obtain xs where xs: "al_array G2 = Some xs" "k \<le> length xs" using tab_inv_array [OF g(2)] by blast
    have "take k xs = es" "length xs - k = 0"
      using g(3,4) xs fresh(3) by (simp_all add: tab_content_def tab_room_def)
    with xs g(2) have "tab_inv h (length es) G2" "al_array G2 = Some es" by auto
    with True g(1) b show ?thesis by auto
  next
    case False
    with tab.put_all_duplicate [of h "(0, G1)" es] fresh(2) room con obtain k G2
      where "put_all (table_put h) (0, G1) es = Some (Some ENOTUNIQ, k, G2)" "tab_wiped (k, G2)"
      by auto
    with False b show ?thesis by (auto simp: tab_wiped_def)
  qed
qed

text \<open>A state without a table counts no entries; this is what \<open>read_allowlist\<close> relies on.\<close>

definition count_ok :: "alist \<Rightarrow> bool" where
  "count_ok G \<longleftrightarrow> (al_array G = None \<longrightarrow> al_numentries G = 0)"

text \<open>
  The four outcomes of a write: a short text unloads; what is refused before the second pass
  changes nothing; a failed allocation or a register listed twice leaves no allowlist; else
  the text is the allowlist.
\<close>

definition write_ok :: "klib \<Rightarrow> bucket_hash \<Rightarrow> write_env \<Rightarrow> string \<Rightarrow> alist \<Rightarrow> bool" where
  "write_ok K h env ubuf G \<longleftrightarrow> (\<exists>r G'. write_allowlist K h env ubuf G = Some (r, G') \<and> al_inv h G'
    \<and> (r, al_map G') = write_spec K env ubuf (al_map G)
    \<and> (kcalloc_ok env \<longrightarrow> count_ok G \<longrightarrow> count_ok G'))"

definition accepted :: "write_env \<Rightarrow> string \<Rightarrow> bool" where
  "accepted env ubuf \<longleftrightarrow> 2 < length ubuf \<and> length ubuf \<le> 131072 \<and> kzalloc_ok env \<and> copy_in_ok env"

lemmas write_unfold = write_ok_def write_allowlist_def write_spec_def Let_def MAX_WLIST_BSIZE_def
  count_ok_def accepted_def

lemma write_short: "length ubuf \<le> 2 \<Longrightarrow> write_ok K h env ubuf G"
proof -
  have "al_numentries (hash_init (delete_allowlist G)) = 0" if "count_ok G"
    using that by (simp add: count_ok_def hash_init_def delete_allowlist_def split: option.splits)
  then show "length ubuf \<le> 2 \<Longrightarrow> write_ok K h env ubuf G"
    by (simp add: write_ok_def write_allowlist_def write_spec_def Let_def al_inv_unloaded al_map_unloaded)
      (simp add: count_ok_def)
qed

lemma write_refused: "\<not> accepted env ubuf \<Longrightarrow> 2 < length ubuf \<Longrightarrow> al_inv h G \<Longrightarrow> write_ok K h env ubuf G"
  by (auto simp: write_unfold)

lemma write_bad_text:
  assumes "klib_ok K" and "al_inv h G" and "accepted env ubuf"
    and "spec_parse K (takeWhile (\<lambda>c. c \<noteq> NUL) ubuf) = Inl er"
  shows "write_ok K h env ubuf G"
proof -
  from pass1_err [OF assms(1,4)] obtain b where "count_entries K (ubuf @ [NUL]) 0 0 = (Inl er, b)" by blast
  with assms(2-4) show ?thesis by (simp add: write_unfold)
qed

lemma write_no_memory:
  assumes "klib_ok K" and "accepted env ubuf" and "\<not> kcalloc_ok env"
    and "spec_parse K (takeWhile (\<lambda>c. c \<noteq> NUL) ubuf) = Inr es" and "es \<noteq> []"
  shows "write_ok K h env ubuf G"
proof -
  obtain r G1 where cr: "create_allowlist False (length es) G = (r, G1)" by fastforce
  from create_fails [OF cr] show ?thesis
    using assms pass1_ok [OF assms(1,4)] cr by (simp add: write_unfold al_inv_unloaded al_map_unloaded)
qed

lemma write_text:
  assumes "klib_ok K" and "accepted env ubuf" and "kcalloc_ok env"
    and "spec_parse K (takeWhile (\<lambda>c. c \<noteq> NUL) ubuf) = Inr es" and "es \<noteq> []"
  shows "write_ok K h env ubuf G"
proof -
  obtain r G1 where cr: "create_allowlist True (length es) G = (r, G1)" by fastforce
  note bc = build_after_count [OF assms(1,4) cr, of h]
  note facts = assms(2-5) pass1_ok [OF assms(1,4)] cr create_fresh(1) [OF cr]
  show ?thesis
  proof (cases "distinct (map e_msr es)")
    case True
    with bc obtain k G2 where "build_allowlist K h (ubuf @ [NUL]) 0 (0, G1) = Some (None, k, G2)"
      "tab_inv h (length es) G2" "al_array G2 = Some es" by auto
    with facts True show ?thesis by (simp add: write_unfold al_inv_def al_map_def)
  next
    case False
    with bc obtain k G2 where "build_allowlist K h (ubuf @ [NUL]) 0 (0, G1) = Some (Some ENOTUNIQ, k, G2)"
      "al_array G2 = None" "al_numentries G2 = 0" by auto
    with facts False show ?thesis by (simp add: write_unfold al_inv_unloaded al_map_unloaded)
  qed
qed

lemma write_empty:
  assumes "klib_ok K" and "al_inv h G" and "accepted env ubuf"
    and "spec_parse K (takeWhile (\<lambda>c. c \<noteq> NUL) ubuf) = Inr []"
  shows "write_ok K h env ubuf G"
  using assms pass1_ok [OF assms(1,4)] by (simp add: write_unfold)

lemma write_refines:
  assumes "klib_ok K" and "al_inv h G"
  shows "\<exists>r G'. write_allowlist K h env ubuf G = Some (r, G') \<and> al_inv h G'
    \<and> (r, al_map G') = write_spec K env ubuf (al_map G)
    \<and> (kcalloc_ok env \<longrightarrow> count_ok G \<longrightarrow> count_ok G')"
proof -
  have "write_ok K h env ubuf G" if acc: "accepted env ubuf"
  proof (cases "spec_parse K (takeWhile (\<lambda>c. c \<noteq> NUL) ubuf)")
    case (Inl er)
    then show ?thesis by (rule write_bad_text [OF assms acc])
  next
    case (Inr es)
    then show ?thesis
      using write_empty [OF assms acc] write_text [OF assms(1) acc] write_no_memory [OF assms(1) acc]
      by (cases "es = []") blast+
  qed
  then have "write_ok K h env ubuf G"
    using write_short [of ubuf K h env G] write_refused [OF _ _ assms(2)] by (metis not_less)
  then show ?thesis unfolding write_ok_def .
qed

lemma write_spec_count: "write_spec K env ubuf m = (Inr n, m') \<Longrightarrow> n = length ubuf"
  by (auto simp: write_spec_def split: if_splits sum.splits)

text \<open>A read of a well-formed table stays inside the array and hands out no more than asked for.\<close>

lemma read_defined:
  assumes "al_inv h G" and "count_ok G"
  shows "\<exists>r. read_allowlist copy_ok count ppos G = Some r \<and> (\<forall>n. rd_res r = Inr n \<longrightarrow> length (rd_data r) \<le> count)"
proof -
  from assms have "al_array G = None \<Longrightarrow> al_numentries G = 0"
    "al_array G = Some xs \<Longrightarrow> al_numentries G = length xs" for xs
    by (auto simp: count_ok_def al_inv_def tab_inv_def)
  then show ?thesis by (cases "al_array G") (auto simp: read_allowlist_def Let_def)
qed

text \<open>The successful case, with the entries themselves.\<close>

lemma write_success:
  assumes "klib_ok K" and "2 < length ubuf" and "length ubuf < MAX_WLIST_BSIZE"
    and "kzalloc_ok env" and "copy_in_ok env" and "kcalloc_ok env"
    and "spec_parse K (takeWhile (\<lambda>c. c \<noteq> NUL) ubuf) = Inr es" and "es \<noteq> []"
    and "distinct (map e_msr es)"
  shows "\<exists>G'. write_allowlist K h env ubuf G = Some (Inr (length ubuf), G')
    \<and> al_inv h G' \<and> al_array G' = Some es"
proof -
  obtain r G1 where cr: "create_allowlist True (length es) G = (r, G1)"
    by (cases "create_allowlist True (length es) G")
  from build_after_count [OF assms(1,7) cr, of h] assms(9) obtain k G2 where
    "build_allowlist K h (ubuf @ [NUL]) 0 (0, G1) = Some (None, k, G2)"
    "tab_inv h (length es) G2" "al_array G2 = Some es" by auto
  with assms cr pass1_ok [OF assms(1,7)] create_fresh(1) [OF cr] show ?thesis
    by (simp add: write_allowlist_def Let_def al_inv_def)
qed

section \<open>Properties\<close>

text \<open>The text used by the witnesses, with a comment and a read-only entry.\<close>

definition sample_text :: string where
  "sample_text = ''# MSR mask'' @ [LF] @ ''0x10 0x0 # TSC'' @ [LF] @ ''0x199 0xFFFF'' @ [LF]"

definition all_ok :: write_env where
  "all_ok = \<lparr>kzalloc_ok = True, copy_in_ok = True, kcalloc_ok = True\<rparr>"

definition sample_entries :: "allowlist_entry list" where
  "sample_entries = [\<lparr>e_wmask = 0, e_msr = 0x10\<rparr>, \<lparr>e_wmask = 0xFFFF, e_msr = 0x199\<rparr>]"

lemma sample_parse:
  "spec_parse linux_klib (takeWhile (\<lambda>c. c \<noteq> NUL) sample_text) = Inr sample_entries"
  by (simp add: sample_text_def sample_entries_def klib_eval)

lemma sample_length: "length sample_text = 39"
  by (simp add: sample_text_def)

text \<open>
  C6: for every text, every outcome of the kernel's allocations and copies and every
  well-formed table, a write to the allowlist device returns the value that the string
  parser and the finite map prescribe (success, E2BIG, ENOMEM, EFAULT, a parse error,
  ENOMSG, ENOTUNIQ), never stores outside the entry array, and leaves a well-formed table
  that denotes exactly the prescribed policy.
\<close>

theorem write_allowlist_meets_spec:
  assumes "klib_ok K" and "al_inv h G"
  shows "\<exists>r G'. write_allowlist K h env ubuf G = Some (r, G') \<and> al_inv h G'
    \<and> (r, al_map G') = write_spec K env ubuf (al_map G)"
  using write_refines [OF assms, of env ubuf] by blast

theorem write_allowlist_meets_spec_witness:
  "\<exists>r G'. write_allowlist linux_klib ucast all_ok sample_text al_initial = Some (r, G')
    \<and> r = Inr 39 \<and> al_map G' 0x10 = Some 0 \<and> al_map G' 0x199 = Some 0xFFFF \<and> al_map G' 0x11 = None"
proof -
  have "write_spec linux_klib all_ok sample_text m = (Inr 39, map_of [(0x10, 0), (0x199, 0xFFFF)])" for m
    by (simp add: write_spec_def all_ok_def sample_parse sample_entries_def sample_length entry_pairs_def)
  with write_allowlist_meets_spec [OF linux_klib_ok al_inv_initial, of ucast all_ok sample_text]
  show ?thesis by auto
qed

text \<open>
  An error in the first pass leaves the module's state untouched, the loaded table, its
  count and its hash chains included.
\<close>

theorem write_parse_error_undisturbed:
  assumes "klib_ok K" and "2 < length ubuf" and "length ubuf < MAX_WLIST_BSIZE"
    and "kzalloc_ok env" and "copy_in_ok env"
    and "spec_parse K (takeWhile (\<lambda>c. c \<noteq> NUL) ubuf) = Inl er"
  shows "write_allowlist K h env ubuf G = Some (Inl er, G)"
proof -
  from pass1_err [OF assms(1,6)] obtain b where "count_entries K (ubuf @ [NUL]) 0 0 = (Inl er, b)"
    by blast
  with assms show ?thesis by (simp add: write_allowlist_def Let_def)
qed

theorem write_parse_error_undisturbed_witness:
  "write_allowlist linux_klib ucast all_ok (''0x10 zz'' @ [LF]) al_initial = Some (Inl EINVAL, al_initial)"
  by (rule write_parse_error_undisturbed [OF linux_klib_ok]) (simp_all add: MAX_WLIST_BSIZE_def all_ok_def klib_eval)

text \<open>
  C27: once the first pass has accepted a text, the second pass meets no parse error and
  writes no entry outside the array that was allocated from the first pass's count: it ends
  with all entries loaded or with a duplicate reported and the table deleted.
\<close>

theorem second_pass_agrees:
  assumes "klib_ok K" and "count_entries K (ubuf @ [NUL]) 0 0 = (Inr n, kbuf)"
    and "create_allowlist True n G = (r, G1)"
  shows "kbuf = ubuf @ [NUL] \<and> (\<exists>res k G2. build_allowlist K h kbuf 0 (0, G1) = Some (res, k, G2)
    \<and> (res = None \<and> tab_inv h n G2 \<and> al_numentries G2 = n
       \<or> res = Some ENOTUNIQ \<and> al_array G2 = None \<and> al_numentries G2 = 0))"
proof -
  from count_entries_restores [of K "ubuf @ [NUL]" 0 0] assms(2) have kb: "kbuf = ubuf @ [NUL]" by simp
  from count_entries_refines [OF assms(1) kbuf_term, of ubuf 0] assms(2)
  obtain es where es: "spec_parse K (takeWhile (\<lambda>c. c \<noteq> NUL) ubuf) = Inr es" "n = length es"
    by (auto simp: kbuf_cstr split: sum.splits)
  have cnt: "al_numentries G2 = k" if "tab_inv h k G2" "al_array G2 = Some es" "k = length es" for k G2
    using that by (simp add: tab_inv_def)
  show ?thesis
    using build_after_count [OF assms(1) es(1) assms(3) [unfolded es(2)], of h] kb es(2) cnt
    by (auto split: if_splits)
qed

theorem second_pass_agrees_witness:
  "\<exists>r G1 res k G2. create_allowlist True 2 al_initial = (r, G1)
    \<and> build_allowlist linux_klib ucast (sample_text @ [NUL]) 0 (0, G1) = Some (res, k, G2)
    \<and> (res = None \<and> tab_inv ucast 2 G2 \<and> al_numentries G2 = 2
       \<or> res = Some ENOTUNIQ \<and> al_array G2 = None \<and> al_numentries G2 = 0)"
proof -
  obtain r G1 where G1: "create_allowlist True 2 al_initial = (r, G1)"
    by (cases "create_allowlist True 2 al_initial")
  have "count_entries linux_klib (sample_text @ [NUL]) 0 0 = (Inr 2, sample_text @ [NUL])"
    using pass1_ok [OF linux_klib_ok sample_parse] by (simp add: sample_entries_def)
  from second_pass_agrees [OF linux_klib_ok this G1, of ucast] G1 show ?thesis by auto
qed

text \<open>
  As long as no allocation of the entry array has failed, reading the device after any
  write touches the array only at loaded entries; no read follows a null or a dangling
  pointer.
\<close>

theorem read_after_write_is_safe:
  assumes "klib_ok K" and "al_inv h G" and "count_ok G" and "kcalloc_ok env"
    and "write_allowlist K h env ubuf G = Some (r, G')"
  shows "al_inv h G' \<and> count_ok G' \<and> read_allowlist copy_ok count ppos G' \<noteq> None"
proof -
  from write_refines [OF assms(1,2), of env ubuf] assms(3-5)
  have G': "al_inv h G'" "count_ok G'" by auto
  from read_defined [OF this, of copy_ok count ppos] have "read_allowlist copy_ok count ppos G' \<noteq> None" by auto
  with G' show ?thesis by blast
qed

theorem read_after_write_is_safe_witness:
  "\<exists>r G'. write_allowlist linux_klib ucast all_ok sample_text al_initial = Some (r, G')
    \<and> read_allowlist True 4096 0 G' \<noteq> None"
proof -
  have c: "count_ok al_initial" "kcalloc_ok all_ok" by (simp_all add: count_ok_def al_initial_def all_ok_def)
  obtain r G' where w: "write_allowlist linux_klib ucast all_ok sample_text al_initial = Some (r, G')"
    using write_refines [OF linux_klib_ok al_inv_initial, of ucast all_ok sample_text] by auto
  from read_after_write_is_safe [OF linux_klib_ok al_inv_initial c w] w show ?thesis by blast
qed

text \<open>
  C36: when the allocation of the entry array fails, \<open>create_allowlist\<close> has already set the
  entry count: the write reports ENOMEM, and the next read of the first entry goes through
  the null pointer.
\<close>

theorem enomem_leaves_stale_count:
  assumes "klib_ok K" and "2 < length ubuf" and "length ubuf < MAX_WLIST_BSIZE"
    and "kzalloc_ok env" and "copy_in_ok env" and "\<not> kcalloc_ok env"
    and "spec_parse K (takeWhile (\<lambda>c. c \<noteq> NUL) ubuf) = Inr es" and "es \<noteq> []"
  shows "\<exists>G'. write_allowlist K h env ubuf G = Some (Inl ENOMEM, G')
    \<and> al_array G' = None \<and> al_numentries G' = length es \<and> read_allowlist copy_ok count 0 G' = None"
proof -
  note c = pass1_ok [OF assms(1,7)]
  obtain r G1 where cr: "create_allowlist False (length es) G = (r, G1)"
    by (cases "create_allowlist False (length es) G")
  note f = create_fails [OF cr]
  have "write_allowlist K h env ubuf G = Some (Inl ENOMEM, G1)"
    using assms c cr f by (simp add: write_allowlist_def Let_def)
  moreover have "read_allowlist copy_ok count 0 G1 = None"
    using f assms(8) by (simp add: read_allowlist_def)
  ultimately show ?thesis using f by blast
qed

theorem enomem_leaves_stale_count_witness:
  "\<exists>G'. write_allowlist linux_klib ucast (all_ok\<lparr>kcalloc_ok := False\<rparr>) sample_text al_initial
      = Some (Inl ENOMEM, G') \<and> read_allowlist True 4096 0 G' = None"
proof -
  have "2 < length sample_text" "length sample_text < MAX_WLIST_BSIZE"
    by (simp_all add: sample_length MAX_WLIST_BSIZE_def)
  from enomem_leaves_stale_count [OF linux_klib_ok this _ _ _ sample_parse,
      where env = "all_ok\<lparr>kcalloc_ok := False\<rparr>" and h = ucast and G = al_initial]
  show ?thesis by (auto simp: all_ok_def sample_entries_def)
qed

end
