(* ===== verification/Step_System.thy ===== *)
theory Step_System
  imports Main
begin

text \<open>
  The interface of the step relations of this development: a system with initial states, steps
  and an invariant, one whose runs also end, one that implements a specification, and one
  whose agents get their turn. The CPUs that execute a batch (\<open>Msr_Smp\<close>), the
  module with its concurrent callers (\<open>Msr_System\<close>), the allowlist with its arrays on a heap
  (\<open>Allowlist_Race\<close>) and the loaded module under CPU hotplug (\<open>Module_Life\<close>) are such systems.
\<close>

locale step_system =
  fixes initial :: "'s \<Rightarrow> bool"
    and step :: "'s \<Rightarrow> 's \<Rightarrow> bool"
    and invariant :: "'s \<Rightarrow> bool"
  assumes initial_inv: "initial s \<Longrightarrow> invariant s"
    and step_inv: "invariant s \<Longrightarrow> step s t \<Longrightarrow> invariant t"
begin

lemma run_inv: "step\<^sup>*\<^sup>* s t \<Longrightarrow> invariant s \<Longrightarrow> invariant t"
  by (induction rule: rtranclp_induct) (auto intro: step_inv)

lemma reachable_inv: "initial s \<Longrightarrow> step\<^sup>*\<^sup>* s t \<Longrightarrow> invariant t"
  using run_inv initial_inv by blast

end

text \<open>
  Every step uses up one of finitely many turns, and a state that is not final has a step: no
  run is infinite, and every run can be completed.
\<close>

locale terminating_system = step_system +
  fixes turns :: "'s \<Rightarrow> nat"
    and final :: "'s \<Rightarrow> bool"
  assumes step_turns: "invariant s \<Longrightarrow> step s t \<Longrightarrow> turns t < turns s"
    and progress: "invariant s \<Longrightarrow> \<not> final s \<Longrightarrow> \<exists>t. step s t"
begin

lemma no_infinite_run:
  assumes "invariant (f 0)"
  shows "\<not> (\<forall>i. step (f i) (f (Suc i)))"
proof
  assume st: "\<forall>i. step (f i) (f (Suc i))"
  have inv: "invariant (f i)" for i
    by (induction i) (use assms st step_inv in blast)+
  have "(f (Suc i), f i) \<in> measure turns" for i
    using st step_turns [OF inv] by simp
  then show False using wf_measure [of turns] unfolding wf_iff_no_infinite_down_chain by blast
qed

lemma completes: "invariant s \<Longrightarrow> \<exists>t. step\<^sup>*\<^sup>* s t \<and> final t"
proof (induction "turns s" arbitrary: s rule: less_induct)
  case less
  show ?case
  proof (cases "final s")
    case True
    then show ?thesis by blast
  next
    case False
    with less.prems obtain t where t: "step s t" using progress by blast
    from less.hyps [OF step_turns [OF less.prems t] step_inv [OF less.prems t]] t show ?thesis
      by (blast intro: converse_rtranclp_into_rtranclp)
  qed
qed

end

text \<open>
  The runs are, seen through \<open>abs\<close>, runs of a specification: a step shows as a step of the
  specification or does not show.
\<close>

locale simulation = step_system +
  fixes abs :: "'s \<Rightarrow> 'a"
    and spec :: "'a \<Rightarrow> 'a \<Rightarrow> bool"
  assumes simulates: "invariant s \<Longrightarrow> step s t \<Longrightarrow> abs t = abs s \<or> spec (abs s) (abs t)"
begin

lemma run_simulates:
  assumes "step\<^sup>*\<^sup>* s t" and "invariant s"
  shows "spec\<^sup>*\<^sup>* (abs s) (abs t)"
  using assms(1)
proof (induction rule: rtranclp_induct)
  case base
  then show ?case by simp
next
  case (step t u)
  from simulates [OF run_inv [OF step.hyps(1) assms(2)] step.hyps(2)] step.IH show ?case
    by (metis rtranclp.rtrancl_into_rtrancl)
qed

end

text \<open>
  Something that must not go on for ever in an infinite run, such as one call among others: its
  own moves use up its turns, the other steps leave it alone, and while it goes on it can
  move. Under weak fairness - what can move from some point on does move - it ends.
\<close>

definition weakly_fair :: "('s \<Rightarrow> 's \<Rightarrow> bool) \<Rightarrow> ('s \<Rightarrow> 's \<Rightarrow> bool) \<Rightarrow> (nat \<Rightarrow> 's) \<Rightarrow> bool" where
  "weakly_fair step moves f \<longleftrightarrow>
     (\<forall>i. (\<forall>j \<ge> i. \<exists>t. step (f j) t \<and> moves (f j) t) \<longrightarrow> (\<exists>j \<ge> i. moves (f j) (f (Suc j))))"

locale fair_system = step_system +
  fixes moves :: "'s \<Rightarrow> 's \<Rightarrow> bool"
    and busy :: "'s \<Rightarrow> bool"
    and own_turns :: "'s \<Rightarrow> nat"
  assumes moves_turns: "\<lbrakk>invariant s; step s t; busy s; moves s t\<rbrakk> \<Longrightarrow> own_turns t < own_turns s"
    and others_turns: "\<lbrakk>invariant s; step s t; busy s; \<not> moves s t\<rbrakk> \<Longrightarrow> own_turns t = own_turns s"
    and enabled: "\<lbrakk>invariant s; busy s\<rbrakk> \<Longrightarrow> \<exists>t. step s t \<and> moves s t"
begin

lemma ends:
  assumes "initial (f 0)" and "\<forall>i. step (f i) (f (Suc i))" and "weakly_fair step moves f"
  shows "\<exists>j \<ge> i. \<not> busy (f j)"
proof (induction "own_turns (f i)" arbitrary: i rule: less_induct)
  case less
  have inv: "invariant (f i)" for i
    by (induction i) (use assms(1,2) initial_inv step_inv in blast)+
  show ?case
  proof (rule ccontr)
    assume "\<not> (\<exists>j \<ge> i. \<not> busy (f j))"
    then have busy: "busy (f j)" if "i \<le> j" for j using that by blast
    with enabled inv assms(3) obtain j where j: "i \<le> j" "moves (f j) (f (Suc j))"
      unfolding weakly_fair_def by blast
    have "own_turns (f k) \<le> own_turns (f i)" if "i \<le> k" for k
      using that
    proof (induction k rule: dec_induct)
      case base
      then show ?case by simp
    next
      case (step k)
      then show ?case
        using moves_turns [OF inv] others_turns [OF inv] assms(2) busy [OF step.hyps(1)]
        by (metis le_trans less_imp_le_nat)
    qed
    with j have "own_turns (f (Suc j)) < own_turns (f i)"
      using moves_turns [OF inv _ busy [OF j(1)]] assms(2) by (meson le_less_trans le_trans not_le)
    from less.hyps [OF this] busy j(1) show False by (meson le_SucI le_trans)
  qed
qed

end

end
