(* ===== verification/Allowlist_Race.thy ===== *)
theory Allowlist_Race
  imports Allowlist_Dev Step_System
begin

text \<open>
  The other theories take \<open>msr_allowlist_writemask\<close> for one step. The code is not: it looks
  the entry up under the mutex and reads the mask through the pointer after it has released
  the mutex. Here the two halves are apart and the entry arrays live at addresses of a heap,
  where a write to the allowlist device frees one and allocates another, at whatever address
  the allocator chooses among those that are free.
\<close>

section \<open>Entry arrays on a heap\<close>

record race_state =
  rs_al :: alist
  rs_base :: nat
  rs_heap :: "nat \<rightharpoonup> allowlist_entry list"

text \<open>The half under the mutex: a pointer is the address of an array and an index.\<close>

definition lookup_ptr :: "bucket_hash \<Rightarrow> race_state \<Rightarrow> u64 \<Rightarrow> (nat \<times> nat) option" where
  "lookup_ptr h s reg = map_option (\<lambda>i. (rs_base s, i)) (find_in_allowlist h (rs_al s) reg)"

text \<open>
  \<open>return entry ? entry->wmask : 0;\<close> after the mutex is released. \<open>None\<close> is a read of freed
  memory or past the end of the array that is there now.
\<close>

definition deref_wmask :: "race_state \<Rightarrow> (nat \<times> nat) option \<Rightarrow> u64 option" where
  "deref_wmask s entry =
     (case entry of
        None \<Rightarrow> Some 0
      | Some (a, i) \<Rightarrow>
          (case rs_heap s a of
             None \<Rightarrow> None
           | Some xs \<Rightarrow> if i < length xs then Some (e_wmask (xs ! i)) else None))"

text \<open>
  Whether a write to the device gets as far as \<open>delete_allowlist\<close>: a short text does at once,
  another one when the first pass has counted entries.
\<close>

definition replaces :: "klib \<Rightarrow> write_env \<Rightarrow> string \<Rightarrow> bool" where
  "replaces K env ubuf \<longleftrightarrow> length ubuf \<le> 2 \<or>
     length ubuf < MAX_WLIST_BSIZE \<and> kzalloc_ok env \<and> copy_in_ok env \<and>
     (case count_entries K (ubuf @ [NUL]) 0 0 of (Inl er, _) \<Rightarrow> False | (Inr n, _) \<Rightarrow> n > 0)"

text \<open>The heap after \<open>kfree(allowlist)\<close>, and the whole state after the write.\<close>

definition freed :: "race_state \<Rightarrow> nat \<rightharpoonup> allowlist_entry list" where
  "freed s = (if al_array (rs_al s) = None then rs_heap s else (rs_heap s)(rs_base s := None))"

definition after_write :: "alist \<Rightarrow> nat \<Rightarrow> race_state \<Rightarrow> race_state" where
  "after_write G' a s =
     (case al_array G' of
        None \<Rightarrow> s\<lparr>rs_al := G', rs_heap := freed s\<rparr>
      | Some xs \<Rightarrow> s\<lparr>rs_al := G', rs_base := a, rs_heap := (freed s)(a \<mapsto> xs)\<rparr>)"

inductive race_step :: "klib \<Rightarrow> bucket_hash \<Rightarrow> race_state \<Rightarrow> race_state \<Rightarrow> bool"
  for K :: klib and h :: bucket_hash where
  keep: "\<lbrakk>write_allowlist K h env ubuf (rs_al s) = Some (r, G'); \<not> replaces K env ubuf\<rbrakk> \<Longrightarrow>
    race_step K h s (s\<lparr>rs_al := G'\<rparr>)"
| replace: "\<lbrakk>write_allowlist K h env ubuf (rs_al s) = Some (r, G'); replaces K env ubuf; a \<notin> dom (freed s)\<rbrakk> \<Longrightarrow>
    race_step K h s (after_write G' a s)"

definition race_start :: race_state where
  "race_start = \<lparr>rs_al = al_initial, rs_base = 0, rs_heap = Map.empty\<rparr>"

definition race_reach :: "klib \<Rightarrow> bucket_hash \<Rightarrow> race_state \<Rightarrow> bool" where
  "race_reach K h s \<longleftrightarrow> (race_step K h)\<^sup>*\<^sup>* race_start s"

section \<open>Without a write in between\<close>

definition race_inv :: "bucket_hash \<Rightarrow> race_state \<Rightarrow> bool" where
  "race_inv h s \<longleftrightarrow> al_inv h (rs_al s)
     \<and> (\<forall>xs. al_array (rs_al s) = Some xs \<longrightarrow> rs_heap s (rs_base s) = Some xs)"

lemma write_keeps_table:
  assumes "\<not> replaces K env ubuf" and "write_allowlist K h env ubuf G = Some (r, G')"
  shows "G' = G"
proof -
  have "length ubuf > 2" using assms(1) by (simp add: replaces_def)
  with assms show ?thesis
    by (auto simp: replaces_def write_allowlist_def Let_def MAX_WLIST_BSIZE_def split: prod.splits sum.splits if_splits)
qed

lemma race_inv_step:
  assumes "race_step K h s t" and "race_inv h s" and "klib_ok K"
  shows "race_inv h t"
  using assms(1)
proof cases
  case (keep env ubuf r G')
  from write_keeps_table [OF keep(3,2)] assms(2) keep(1) show ?thesis by simp
next
  case (replace env ubuf r G' a)
  from write_refines [OF assms(3), of h "rs_al s" env ubuf] assms(2) replace(2)
  have "al_inv h G'" by (auto simp: race_inv_def)
  then show ?thesis unfolding replace(1)
    by (cases "al_array G'") (auto simp: race_inv_def after_write_def)
qed

lemma race_inv_start: "race_inv h race_start"
  by (simp add: race_inv_def race_start_def) (simp add: al_initial_def)

interpretation race: step_system "\<lambda>s. klib_ok K \<and> s = race_start" "race_step K h" "\<lambda>s. klib_ok K \<and> race_inv h s"
  for K h
  by unfold_locales (auto intro: race_inv_start race_inv_step)

lemma race_reach_inv: "race_reach K h s \<Longrightarrow> klib_ok K \<Longrightarrow> race_inv h s"
  using race.reachable_inv unfolding race_reach_def by blast

text \<open>If nothing happens between the two halves they are \<open>msr_allowlist_writemask\<close>.\<close>

lemma halves_together:
  assumes "race_inv h s"
  shows "deref_wmask s (lookup_ptr h s reg) = Some (msr_allowlist_writemask h (rs_al s) reg)"
proof (cases "find_in_allowlist h (rs_al s) reg")
  case None
  then show ?thesis by (simp add: deref_wmask_def lookup_ptr_def msr_allowlist_writemask_def)
next
  case (Some i)
  then obtain xs where xs: "al_array (rs_al s) = Some xs"
    by (auto simp: find_in_allowlist_def split: option.splits)
  with assms have t: "tab_inv h (length xs) (rs_al s)" "rs_heap s (rs_base s) = Some xs"
    by (auto simp: race_inv_def al_inv_def)
  from tab_find_Some(2) [OF t(1) xs Some] t(2) xs Some show ?thesis
    by (simp add: deref_wmask_def lookup_ptr_def msr_allowlist_writemask_def)
qed

section \<open>With a write in between\<close>

text \<open>Two allowlists of one register each, and the three writes: the first, the second, an empty one.\<close>

definition first_text :: string where
  "first_text = ''0x199 0xFF'' @ [LF]"

definition second_text :: string where
  "second_text = ''0x10 0xFFFF'' @ [LF]"

lemma texts_parse:
  "spec_parse linux_klib (takeWhile (\<lambda>c. c \<noteq> NUL) first_text) = Inr [\<lparr>e_wmask = 0xFF, e_msr = 0x199\<rparr>]"
  "spec_parse linux_klib (takeWhile (\<lambda>c. c \<noteq> NUL) second_text) = Inr [\<lparr>e_wmask = 0xFFFF, e_msr = 0x10\<rparr>]"
  by (simp_all add: first_text_def second_text_def klib_eval)

lemma texts_length: "2 < length first_text" "length first_text < MAX_WLIST_BSIZE"
  "2 < length second_text" "length second_text < MAX_WLIST_BSIZE"
  by (simp_all add: first_text_def second_text_def MAX_WLIST_BSIZE_def)

text \<open>Loading a text of one entry allocates its array at any free address.\<close>

lemma load_step:
  assumes "2 < length text" and "length text < MAX_WLIST_BSIZE"
    and "spec_parse linux_klib (takeWhile (\<lambda>c. c \<noteq> NUL) text) = Inr [e]" and "a \<notin> dom (freed s)"
  shows "\<exists>t. race_step linux_klib ucast s t \<and> al_array (rs_al t) = Some [e] \<and> al_inv ucast (rs_al t)
    \<and> rs_base t = a \<and> rs_heap t a = Some [e]"
proof -
  have ok: "kzalloc_ok all_ok" "copy_in_ok all_ok" "kcalloc_ok all_ok" by (simp_all add: all_ok_def)
  obtain G' where G': "write_allowlist linux_klib ucast all_ok text (rs_al s) = Some (Inr (length text), G')"
    "al_inv ucast G'" "al_array G' = Some [e]"
    using write_success [OF linux_klib_ok assms(1,2) ok assms(3), of ucast "rs_al s"] by auto
  have "replaces linux_klib all_ok text"
    using pass1_ok [OF linux_klib_ok assms(3)] assms(2) ok by (simp add: replaces_def)
  from race_step.replace [OF G'(1) this assms(4)] G' show ?thesis
    by (intro exI [of _ "after_write G' a s"]) (simp add: after_write_def)
qed

lemma clear_step:
  assumes "a \<notin> dom (freed s)"
  shows "\<exists>t. race_step linux_klib ucast s t \<and> rs_heap t = freed s"
proof -
  let ?G = "hash_init (delete_allowlist (rs_al s))"
  have "write_allowlist linux_klib ucast all_ok [] (rs_al s) = Some (Inr 0, ?G)"
    by (simp add: write_allowlist_def)
  from race_step.replace [OF this _ assms] show ?thesis
    by (intro exI [of _ "after_write ?G a s"]) (simp add: replaces_def after_write_def)
qed

lemma lookup_single:
  assumes "al_inv h (rs_al s)" and "al_array (rs_al s) = Some [e]"
  shows "lookup_ptr h s (e_msr e) = Some (rs_base s, 0)"
proof -
  have t: "tab_inv h 1 (rs_al s)" using assms by (simp add: al_inv_def)
  from tab_find_None [OF t assms(2), of "e_msr e"] obtain i where i: "find_in_allowlist h (rs_al s) (e_msr e) = Some i"
    by auto
  from tab_find_Some(1) [OF t assms(2) i] i show ?thesis by (simp add: lookup_ptr_def)
qed

section \<open>Property\<close>

text \<open>
  C34: the race in \<open>msr_allowlist_writemask\<close>. A process looks register 0x199 up, whose mask is
  0xFF. If the allowlist is cleared before it reads the mask, it reads freed memory; if an
  allowlist is loaded that does not list the register at all, it can get the mask 0xFFFF of
  another register, which no allowlist has ever given to this one.
\<close>

theorem writemask_race:
  "\<exists>s t u. race_reach linux_klib ucast s
    \<and> deref_wmask s (lookup_ptr ucast s 0x199) = Some 0xFF \<and> al_map (rs_al s) 0x199 = Some 0xFF
    \<and> race_step linux_klib ucast s t \<and> deref_wmask t (lookup_ptr ucast s 0x199) = None
    \<and> race_step linux_klib ucast s u \<and> al_map (rs_al u) 0x199 = None
    \<and> deref_wmask u (lookup_ptr ucast s 0x199) = Some 0xFFFF"
proof -
  have "0 \<notin> dom (freed race_start)" by (simp add: freed_def race_start_def al_initial_def)
  from load_step [OF texts_length(1,2) texts_parse(1) this] obtain s where
    st: "race_step linux_klib ucast race_start s" and s: "al_array (rs_al s) = Some [\<lparr>e_wmask = 0xFF, e_msr = 0x199\<rparr>]"
      "al_inv ucast (rs_al s)" "rs_base s = 0" "rs_heap s 0 = Some [\<lparr>e_wmask = 0xFF, e_msr = 0x199\<rparr>]" by blast
  have f: "0 \<notin> dom (freed s)" using s by (simp add: freed_def)
  from clear_step [OF f] obtain t where t: "race_step linux_klib ucast s t" "rs_heap t = freed s" by blast
  from load_step [OF texts_length(3,4) texts_parse(2) f] obtain u where
    u: "race_step linux_klib ucast s u" "al_array (rs_al u) = Some [\<lparr>e_wmask = 0xFFFF, e_msr = 0x10\<rparr>]"
      "rs_heap u 0 = Some [\<lparr>e_wmask = 0xFFFF, e_msr = 0x10\<rparr>]" by blast
  have p: "lookup_ptr ucast s 0x199 = Some (0, 0)" using lookup_single [OF s(2,1)] s(3) by simp
  have r: "race_reach linux_klib ucast s" using st unfolding race_reach_def by (rule r_into_rtranclp)
  have "rs_heap t 0 = None" using f t(2) by (simp add: domIff)
  with r t(1) u(1) show ?thesis
    by (intro exI [of _ s] exI [of _ t] exI [of _ u])
      (simp add: p deref_wmask_def s u al_map_def entry_pairs_def)
qed

end
