(* ===== verification/Msr_Entry.thy ===== *)
theory Msr_Entry
  imports Allowlist_Dev
begin

text \<open>
  The per-CPU device /dev/cpu/<cpu>/msr_safe of msr_entry.c: \<open>msr_seek\<close>, \<open>msr_read\<close>,
  \<open>msr_write\<close> and \<open>msr_open\<close>. The kernel's \<open>rdmsr_safe_on_cpu\<close> and \<open>wrmsr_safe_on_cpu\<close>
  are parameters over a machine state. The theory shows that a read discloses listed
  registers only, that a write changes the bits of the write mask in the addressed register
  of the addressed CPU and nothing else, and that a call that reports an error has written
  nothing.
\<close>

section \<open>The hardware port and the open file\<close>

text \<open>
  The two kernel calls, on a machine \<open>'m\<close>: a CPU number, a register, the halves of its value.
  A failed write leaves the machine as it is (the instruction faults before any effect).
\<close>

record 'm cpu_port =
  rdmsr_safe_on_cpu :: "'m \<Rightarrow> nat \<Rightarrow> u32 \<Rightarrow> errno + u32 \<times> u32"
  wrmsr_safe_on_cpu :: "'m \<Rightarrow> nat \<Rightarrow> u32 \<Rightarrow> u32 \<Rightarrow> u32 \<Rightarrow> errno + 'm"

text \<open>
  The documented behaviour of plain registers: a successful read returns what \<open>view\<close> shows
  of the machine, a successful write changes that register of that CPU to the value written.
\<close>

definition port_view :: "('m \<Rightarrow> nat \<Rightarrow> u32 \<Rightarrow> u64) \<Rightarrow> 'm cpu_port \<Rightarrow> bool" where
  "port_view view P \<longleftrightarrow>
     (\<forall>m c r lo hi. rdmsr_safe_on_cpu P m c r = Inr (lo, hi) \<longrightarrow> u64_of lo hi = view m c r) \<and>
     (\<forall>m c r lo hi m'. wrmsr_safe_on_cpu P m c r lo hi = Inr m' \<longrightarrow>
        view m' = (view m)(c := (view m c)(r := u64_of lo hi)))"

record msr_file =
  f_pos :: loff_t
  f_minor :: nat

section \<open>File operations\<close>

text \<open>\<open>orig\<close> is SEEK_SET (0), SEEK_CUR (1) or anything else; the sum wraps at 64 bits.\<close>

definition msr_seek :: "msr_file \<Rightarrow> loff_t \<Rightarrow> int \<Rightarrow> (errno + loff_t) \<times> msr_file" where
  "msr_seek file offset orig =
     (if orig = 0 then let file1 = file\<lparr>f_pos := offset\<rparr> in (Inr (f_pos file1), file1)
      else if orig = 1
      then let file1 = file\<lparr>f_pos := f_pos file + offset\<rparr> in (Inr (f_pos file1), file1)
      else (Inl EINVAL, file))"

text \<open>\<open>u32 reg = *ppos\<close> keeps the low half of the position.\<close>

definition msr_reg :: "loff_t \<Rightarrow> u32" where
  "msr_reg ppos = ucast ppos"

text \<open>A successful read copies the eight bytes of the pair to user space and returns 8.\<close>

definition msr_read ::
  "bucket_hash \<Rightarrow> alist \<Rightarrow> 'm cpu_port \<Rightarrow> 'm \<Rightarrow> bool \<Rightarrow> nat \<Rightarrow> nat \<Rightarrow> loff_t \<Rightarrow> errno + u32 \<times> u32" where
  "msr_read h G P m copy_ok cpu count ppos =
     (let reg = msr_reg ppos
      in if count \<noteq> 8 then Inl EINVAL
         else if \<not> msr_allowlist_maskexists h G (ucast reg) then Inl EACCES
         else case rdmsr_safe_on_cpu P m cpu reg of
                Inl err \<Rightarrow> Inl err
              | Inr data \<Rightarrow> if \<not> copy_ok then Inl EFAULT else Inr data)"

text \<open>
  The three updates of \<open>msr_write\<close> on the pairs \<open>curdata\<close> and \<open>data\<close>, read as 64-bit
  values through the pointer casts; the result is the new \<open>data\<close>.
\<close>

definition write_merge :: "u64 \<Rightarrow> u32 \<times> u32 \<Rightarrow> u32 \<times> u32 \<Rightarrow> u32 \<times> u32" where
  "write_merge wmask curdata data =
     (let cur = u64_of (fst curdata) (snd curdata) AND NOT wmask;
          d1 = u64_of (fst data) (snd data) AND wmask;
          d2 = d1 OR cur
      in (lo32 d2, hi32 d2))"

text \<open>\<open>data\<close> is the pair at the user's address; the result is the return value and the machine.\<close>

definition msr_write ::
  "bucket_hash \<Rightarrow> alist \<Rightarrow> 'm cpu_port \<Rightarrow> 'm \<Rightarrow> bool \<Rightarrow> nat \<Rightarrow> nat \<Rightarrow> loff_t \<Rightarrow> u32 \<times> u32
     \<Rightarrow> (errno + nat) \<times> 'm" where
  "msr_write h G P m copy_ok cpu count ppos data =
     (let reg = msr_reg ppos
      in if count \<noteq> 8 then (Inl EINVAL, m)
         else let wmask = msr_allowlist_writemask h G (ucast reg)
         in if wmask = 0 then (Inl EACCES, m)
            else if \<not> copy_ok then (Inl EFAULT, m)
            else case (if wmask \<noteq> 0xffffffffffffffff
                       then (case rdmsr_safe_on_cpu P m cpu reg of
                               Inl err \<Rightarrow> Inl err
                             | Inr curdata \<Rightarrow> Inr (write_merge wmask curdata data))
                       else Inr data) of
                   Inl err \<Rightarrow> (Inl err, m)
                 | Inr (lo, hi) \<Rightarrow>
                     (case wrmsr_safe_on_cpu P m cpu reg lo hi of
                        Inl err \<Rightarrow> (Inl err, m)
                      | Inr m' \<Rightarrow> (Inr 8, m')))"

text \<open>\<open>nr_cpu_ids\<close> and \<open>cpu_online\<close> are the kernel's.\<close>

definition msr_open :: "nat \<Rightarrow> (nat \<Rightarrow> bool) \<Rightarrow> msr_file \<Rightarrow> errno + unit" where
  "msr_open nr_cpu_ids cpu_online file =
     (let cpu = f_minor file
      in if cpu \<ge> nr_cpu_ids \<or> \<not> cpu_online cpu then Inl ENXIO else Inr ())"

definition msr_close :: "msr_file \<Rightarrow> nat" where
  "msr_close file = 0"

section \<open>The masked write\<close>

lemma write_merge_bits:
  "u64_of (fst (write_merge m cur d)) (snd (write_merge m cur d))
     = merge_bits m (u64_of (fst cur) (snd cur)) (u64_of (fst d) (snd d))"
  by (simp add: write_merge_def Let_def merge_bits_def)

interpretation entry_upd: masked_update
  "\<lambda>m old new. u64_of (fst (write_merge m (lo32 old, hi32 old) (lo32 new, hi32 new)))
     (snd (write_merge m (lo32 old, hi32 old) (lo32 new, hi32 new)))"
  by unfold_locales (simp add: write_merge_bits bit_merge_bits)

lemma all_ones: "(0xffffffffffffffff :: u64) = NOT 0"
  by simp

text \<open>What a successful write hands to the hardware, the full mask included.\<close>

lemma msr_write_ok:
  assumes "msr_write h G P m copy_ok cpu count ppos data = (Inr n, m')"
  obtains lo hi where "n = 8" and "count = 8" and "copy_ok"
    and "msr_allowlist_writemask h G (ucast (msr_reg ppos)) \<noteq> 0"
    and "wrmsr_safe_on_cpu P m cpu (msr_reg ppos) lo hi = Inr m'"
    and "\<And>view. port_view view P \<Longrightarrow> u64_of lo hi
      = merge_bits (msr_allowlist_writemask h G (ucast (msr_reg ppos)))
          (view m cpu (msr_reg ppos)) (u64_of (fst data) (snd data))"
proof -
  define reg where "reg = msr_reg ppos"
  define wmask where "wmask = msr_allowlist_writemask h G (ucast reg)"
  note unf = msr_write_def Let_def reg_def [symmetric] wmask_def [symmetric]
  from assms have c: "count = 8" "wmask \<noteq> 0" "copy_ok"
    by (auto simp: unf split: if_splits)
  show thesis
  proof (cases "wmask = 0xffffffffffffffff")
    case True
    with assms c have w: "wrmsr_safe_on_cpu P m cpu reg (fst data) (snd data) = Inr m'" "n = 8"
      by (auto simp: unf split: sum.splits prod.splits)
    have "u64_of (fst data) (snd data) = merge_bits wmask old (u64_of (fst data) (snd data))" for old
      unfolding True all_ones by (rule merge.upd_full [symmetric])
    with w c show thesis by (intro that) (auto simp: reg_def wmask_def)
  next
    case False
    with assms c obtain cur where r: "rdmsr_safe_on_cpu P m cpu reg = Inr cur"
      by (auto simp: unf split: sum.splits)
    with False assms c have w: "wrmsr_safe_on_cpu P m cpu reg (fst (write_merge wmask cur data))
        (snd (write_merge wmask cur data)) = Inr m'" "n = 8"
      by (auto simp: unf split: sum.splits prod.splits)
    have "u64_of (fst cur) (snd cur) = view m cpu reg" if "port_view view P" for view
      using that r unfolding port_view_def by (metis prod.collapse)
    with w c show thesis by (intro that) (auto simp: reg_def wmask_def write_merge_bits)
  qed
qed

lemma msr_write_err: "msr_write h G P m copy_ok cpu count ppos data = (Inl err, m') \<Longrightarrow> m' = m"
  by (auto simp: msr_write_def Let_def split: if_splits sum.splits prod.splits)

text \<open>A write that reports success, seen in the registers.\<close>

lemma msr_write_view:
  assumes "al_inv h G" and "port_view view P"
    and "msr_write h G P m copy_ok cpu count ppos data = (Inr n, m')"
  shows "n = 8 \<and> count = 8 \<and> (\<exists>w. al_map G (ucast (msr_reg ppos)) = Some w \<and> w \<noteq> 0
    \<and> view m' = (view m)(cpu := (view m cpu)(msr_reg ppos :=
        merge_bits w (view m cpu (msr_reg ppos)) (u64_of (fst data) (snd data)))))"
proof -
  from assms(3) obtain lo hi where w: "n = 8" "count = 8"
    "msr_allowlist_writemask h G (ucast (msr_reg ppos)) \<noteq> 0"
    "wrmsr_safe_on_cpu P m cpu (msr_reg ppos) lo hi = Inr m'"
    "u64_of lo hi = merge_bits (msr_allowlist_writemask h G (ucast (msr_reg ppos)))
       (view m cpu (msr_reg ppos)) (u64_of (fst data) (snd data))"
    by (rule msr_write_ok) (use assms(2) in blast)
  have "al_map G (ucast (msr_reg ppos)) = Some (msr_allowlist_writemask h G (ucast (msr_reg ppos)))"
    using al.readable_mask [OF assms(1) al.writable_readable [OF assms(1) w(3)]] .
  moreover have "view m' = (view m)(cpu := (view m cpu)(msr_reg ppos := u64_of lo hi))"
    using assms(2) w(4) by (simp add: port_view_def)
  ultimately show ?thesis using w by simp
qed

lemma msr_read_listed:
  assumes "al_inv h G" and "port_view view P"
    and "msr_read h G P m copy_ok cpu count ppos = Inr data"
  shows "count = 8 \<and> ucast (msr_reg ppos) \<in> dom (al_map G)
    \<and> u64_of (fst data) (snd data) = view m cpu (msr_reg ppos)"
proof -
  from assms(3) have r: "count = 8" "msr_allowlist_maskexists h G (ucast (msr_reg ppos))"
    "rdmsr_safe_on_cpu P m cpu (msr_reg ppos) = Inr data"
    by (auto simp: msr_read_def Let_def split: if_splits sum.splits)
  with assms(1,2) show ?thesis
    unfolding port_view_def by (metis maskexists_al_map prod.collapse)
qed

lemma msr_reg_add: "msr_reg (a + b) = msr_reg a + msr_reg b"
proof -
  have "take_bit 32 (take_bit 64 i + take_bit 64 j) = take_bit 32 (i + j)" for i j :: int
    by (subst (1 2) take_bit_add [symmetric]) (simp add: take_bit_take_bit)
  then show ?thesis unfolding msr_reg_def by transfer simp
qed

section \<open>Properties\<close>

text \<open>A machine of plain registers, for the witnesses.\<close>

definition plain_port :: "(nat \<Rightarrow> u32 \<Rightarrow> u64) cpu_port" where
  "plain_port = \<lparr>rdmsr_safe_on_cpu = (\<lambda>m c r. Inr (lo32 (m c r), hi32 (m c r))),
     wrmsr_safe_on_cpu = (\<lambda>m c r lo hi. Inr (m(c := (m c)(r := u64_of lo hi))))\<rparr>"

lemma plain_port_view: "port_view (\<lambda>m. m) plain_port"
  by (auto simp: port_view_def plain_port_def)

text \<open>A table with one partly writable register.\<close>

definition sample_table :: alist where
  "sample_table = \<lparr>al_array = Some [\<lparr>e_wmask = 0xFF, e_msr = 0x199\<rparr>], al_numentries = 1,
     al_hash = (\<lambda>b. if b = 0x19 then [0] else [])\<rparr>"

definition sample_hash :: bucket_hash where
  "sample_hash r = ucast r"

lemma sample_table_inv: "al_inv sample_hash sample_table"
  by (simp add: al_inv_def tab_inv_def sample_table_def sample_hash_def) auto

lemma sample_table_map: "al_map sample_table = [0x199 \<mapsto> 0xFF]"
  by (simp add: al_map_def sample_table_def entry_pairs_def)

lemma sample_policy:
  "msr_allowlist_maskexists sample_hash sample_table r \<longleftrightarrow> r = 0x199"
  "msr_allowlist_writemask sample_hash sample_table r = (if r = 0x199 then 0xFF else 0)"
  by (simp_all add: maskexists_al_map writemask_al_map sample_table_inv sample_table_map)

text \<open>
  C5: a write to the per-CPU device that reports success has written exactly one register,
  the one at the low 32 bits of the file position on the file's CPU. The register is in the
  allowlist with a non-zero mask; its bits inside the mask are the user's, all other bits
  are what they were; every other register of every CPU is unchanged.
\<close>

theorem msr_write_masked:
  assumes "al_inv h G" and "port_view view P"
    and "msr_write h G P m copy_ok cpu count ppos data = (Inr n, m')"
  shows "n = 8 \<and> (\<exists>w. al_map G (ucast (msr_reg ppos)) = Some w \<and> w \<noteq> 0
    \<and> view m' = (view m)(cpu := (view m cpu)(msr_reg ppos :=
        merge_bits w (view m cpu (msr_reg ppos)) (u64_of (fst data) (snd data)))))"
  using msr_write_view [OF assms] by blast

theorem msr_write_masked_witness:
  "msr_write sample_hash sample_table plain_port (\<lambda>c r. 0x1234) True 3 8 0x199 (0xABCD, 1)
     = (Inr 8, (\<lambda>c r. 0x1234)(3 := (\<lambda>r. 0x1234)(0x199 := 0x12CD)))"
proof -
  let ?w = "msr_write sample_hash sample_table plain_port (\<lambda>c r. 0x1234) True 3 8 0x199 (0xABCD, 1)"
  have "fst ?w = Inr 8"
    by (simp add: msr_write_def Let_def msr_reg_def sample_policy plain_port_def write_merge_def)
  then have w: "?w = (Inr 8, snd ?w)" by (metis prod.collapse)
  from msr_write_masked [OF sample_table_inv plain_port_view w]
  have "snd ?w = (\<lambda>c r. 0x1234)(3 := (\<lambda>r. 0x1234)(0x199 :=
      merge_bits 0xFF 0x1234 (u64_of 0xABCD 1)))"
    by (simp add: sample_table_map msr_reg_def)
  then show ?thesis using w by (simp add: merge_bits_def u64_of_def)
qed

text \<open>
  A write that reports an error, whichever, has not changed the machine: no register is
  written before the checks, the copy from user space and the read have succeeded.
\<close>

theorem msr_write_error_no_effect:
  assumes "fst (msr_write h G P m copy_ok cpu count ppos data) = Inl err"
  shows "snd (msr_write h G P m copy_ok cpu count ppos data) = m"
  using assms msr_write_err by (metis prod.collapse)

theorem msr_write_error_no_effect_witness:
  "snd (msr_write sample_hash sample_table plain_port (\<lambda>_ _. 7) True 0 8 0x10 (0, 0)) = (\<lambda>_ _. 7)"
  by (rule msr_write_error_no_effect [where err = EACCES])
    (simp add: msr_write_def Let_def msr_reg_def sample_policy)

text \<open>
  A register outside the allowlist can be neither read nor written, and a register with
  mask 0 cannot be written: an access of the right size is refused with EACCES whatever the
  hardware would do, and the machine is untouched.
\<close>

theorem msr_access_denied:
  assumes "al_inv h G"
  shows "(al_map G (ucast (msr_reg ppos)) = None \<longrightarrow> msr_read h G P m copy_ok cpu 8 ppos = Inl EACCES)
    \<and> (al_map G (ucast (msr_reg ppos)) \<in> {None, Some 0} \<longrightarrow>
        msr_write h G P m copy_ok cpu 8 ppos data = (Inl EACCES, m))"
  using assms
  by (auto simp: msr_read_def msr_write_def Let_def maskexists_al_map writemask_al_map)

theorem msr_access_denied_witness:
  "msr_read sample_hash sample_table plain_port (\<lambda>_ _. 7) True 0 8 0x10 = Inl EACCES
    \<and> msr_write sample_hash sample_table plain_port (\<lambda>_ _. 7) True 0 8 0x10 (1, 1) = (Inl EACCES, \<lambda>_ _. 7)"
  using msr_access_denied [OF sample_table_inv, of "0x10" plain_port "\<lambda>_ _. 7" True 0 "(1, 1)"]
  by (simp add: sample_table_map msr_reg_def)

text \<open>
  C26: a read of the per-CPU device that returns data asked for exactly eight bytes and got
  the value of a register that is in the allowlist.
\<close>

theorem msr_read_discloses_listed:
  assumes "al_inv h G" and "port_view view P"
    and "msr_read h G P m copy_ok cpu count ppos = Inr data"
  shows "count = 8 \<and> ucast (msr_reg ppos) \<in> dom (al_map G)
    \<and> u64_of (fst data) (snd data) = view m cpu (msr_reg ppos)"
  using assms by (rule msr_read_listed)

theorem msr_read_discloses_listed_witness:
  "msr_read sample_hash sample_table plain_port (\<lambda>c r. 7) True 0 8 0x199 = Inr (7, 0)
    \<and> u64_of 7 0 = 7"
proof -
  have r: "msr_read sample_hash sample_table plain_port (\<lambda>c r. 7) True 0 8 0x199 = Inr (7, 0)"
    by (simp add: msr_read_def Let_def msr_reg_def sample_policy plain_port_def lo32_def hi32_def)
  from msr_read_discloses_listed [OF sample_table_inv plain_port_view r] r show ?thesis by simp
qed

text \<open>
  Seeking to an offset and then by a relative offset addresses the register whose
  number is the sum of the two, modulo 2 to the 32; any other origin is refused and leaves
  the position alone.
\<close>

theorem msr_seek_addresses:
  "let (r1, f1) = msr_seek file a 0; (r2, f2) = msr_seek f1 b 1; (r3, f3) = msr_seek f2 c 2
   in r1 = Inr a \<and> r2 = Inr (a + b) \<and> r3 = Inl EINVAL \<and> f3 = f2
      \<and> msr_reg (f_pos f2) = msr_reg a + msr_reg b \<and> f_minor f3 = f_minor file"
  by (simp add: msr_seek_def Let_def msr_reg_add)

end
