(* ===== verification/Msr_Smp.thy ===== *)
theory Msr_Smp
  imports Msr_Prelude Step_System
begin

text \<open>
  Batched register access, msr-smp.c: \<open>__msr_safe_batch\<close>, which every CPU of the batch runs
  over the whole array and which serves the operations addressed to it, and
  \<open>msr_safe_batch\<close>, which starts it on the CPUs and collects the first error. Each CPU has a
  bank of registers of its own. Besides the function that runs the CPUs one after the other
  the theory has the concurrent system, in which the CPUs take their turns in any order, and
  shows that every complete interleaving ends in the same registers and the same array.
\<close>

section \<open>Operations and the local hardware port\<close>

text \<open>\<open>struct msr_batch_op\<close>; \<open>err\<close> is \<open>None\<close> for 0 and an errno for its negation.\<close>

record msr_batch_op =
  op_cpu :: u16
  op_isrdmsr :: u16
  op_err :: "errno option"
  op_msr :: u32
  op_msrdata :: u64
  op_wmask :: u64

text \<open>
  \<open>rdmsr_safe\<close> and \<open>wrmsr_safe\<close> on the executing CPU, whose registers are a bank \<open>'b\<close>;
  \<open>None\<close> is a non-zero return, after a fault.
\<close>

record 'b local_port =
  rdmsr_safe :: "'b \<Rightarrow> u32 \<Rightarrow> (u32 \<times> u32) option"
  wrmsr_safe :: "'b \<Rightarrow> u32 \<Rightarrow> u32 \<Rightarrow> u32 \<Rightarrow> 'b option"

definition local_view :: "('b \<Rightarrow> u32 \<Rightarrow> u64) \<Rightarrow> 'b local_port \<Rightarrow> bool" where
  "local_view view L \<longleftrightarrow>
     (\<forall>b r lo hi. rdmsr_safe L b r = Some (lo, hi) \<longrightarrow> u64_of lo hi = view b r) \<and>
     (\<forall>b r lo hi b'. wrmsr_safe L b r lo hi = Some b' \<longrightarrow> view b' = (view b)(r := u64_of lo hi))"

abbreviation cpu_of :: "msr_batch_op \<Rightarrow> nat" where
  "cpu_of op \<equiv> unat (op_cpu op)"

section \<open>\<open>__msr_safe_batch\<close>\<close>

text \<open>The loop body for an operation of the executing CPU.\<close>

definition batch_one :: "'b local_port \<Rightarrow> 'b \<Rightarrow> msr_batch_op \<Rightarrow> 'b \<times> msr_batch_op" where
  "batch_one L b op0 =
     (let op1 = op0\<lparr>op_err := None\<rparr>
      in case rdmsr_safe L b (op_msr op1) of
           None \<Rightarrow> (b, op1\<lparr>op_err := Some EIO\<rparr>)
         | Some (lo, hi) \<Rightarrow>
             let oldmsr = u64_of lo hi
             in if op_isrdmsr op1 \<noteq> 0 then (b, op1\<lparr>op_msrdata := oldmsr\<rparr>)
                else let newmsr = (op_msrdata op1 AND op_wmask op1) OR (oldmsr AND NOT (op_wmask op1))
                     in case wrmsr_safe L b (op_msr op1) (lo32 newmsr) (hi32 newmsr) of
                          None \<Rightarrow> (b, op1\<lparr>op_err := Some EIO\<rparr>)
                        | Some b' \<Rightarrow> (b', op1))"

text \<open>The loop over \<open>oa->ops\<close>: operations of other CPUs are skipped.\<close>

fun msr_safe_batch_on :: "'b local_port \<Rightarrow> nat \<Rightarrow> 'b \<Rightarrow> msr_batch_op list \<Rightarrow> 'b \<times> msr_batch_op list"
where
  "msr_safe_batch_on L this_cpu b [] = (b, [])"
| "msr_safe_batch_on L this_cpu b (x # ops) =
     (if cpu_of x \<noteq> this_cpu
      then let (b', ops') = msr_safe_batch_on L this_cpu b ops in (b', x # ops')
      else let (b1, x1) = batch_one L b x;
               (b2, ops') = msr_safe_batch_on L this_cpu b1 ops
           in (b2, x1 # ops'))"

section \<open>\<open>msr_safe_batch\<close>\<close>

text \<open>The loop of \<open>cpumask_set_cpu\<close>.\<close>

definition cpus_to_run_on :: "msr_batch_op list \<Rightarrow> nat set" where
  "cpus_to_run_on ops = foldl (\<lambda>S x. insert (cpu_of x) S) {} ops"

text \<open>
  \<open>on_each_cpu_mask\<close> runs the function on the CPUs \<open>cs\<close>, here one after the other; which
  CPUs of the mask these are is the kernel's choice, the parameter \<open>visit\<close> below.
\<close>

fun on_each_cpu :: "'b local_port \<Rightarrow> nat list \<Rightarrow> (nat \<Rightarrow> 'b) \<Rightarrow> msr_batch_op list
    \<Rightarrow> (nat \<Rightarrow> 'b) \<times> msr_batch_op list" where
  "on_each_cpu L [] m ops = (m, ops)"
| "on_each_cpu L (c # cs) m ops =
     (let (b, ops1) = msr_safe_batch_on L c (m c) ops
      in on_each_cpu L cs (m(c := b)) ops1)"

text \<open>The last loop: the error of the first operation that has one.\<close>

fun first_err :: "msr_batch_op list \<Rightarrow> errno option" where
  "first_err [] = None"
| "first_err (x # ops) = (case op_err x of Some e \<Rightarrow> Some e | None \<Rightarrow> first_err ops)"

definition msr_safe_batch :: "'b local_port \<Rightarrow> (nat set \<Rightarrow> nat list) \<Rightarrow> (nat \<Rightarrow> 'b) \<Rightarrow> msr_batch_op list
    \<Rightarrow> errno option \<times> (nat \<Rightarrow> 'b) \<times> msr_batch_op list" where
  "msr_safe_batch L visit m ops =
     (let (m', ops') = on_each_cpu L (visit (cpus_to_run_on ops)) m ops
      in (first_err ops', m', ops'))"

text \<open>The variant for \<open>CONFIG_CPUMASK_OFFSTACK\<close>, whose mask is allocated.\<close>

definition msr_safe_batch_offstack :: "bool \<Rightarrow> 'b local_port \<Rightarrow> (nat set \<Rightarrow> nat list) \<Rightarrow> (nat \<Rightarrow> 'b)
    \<Rightarrow> msr_batch_op list \<Rightarrow> errno option \<times> (nat \<Rightarrow> 'b) \<times> msr_batch_op list" where
  "msr_safe_batch_offstack zalloc_ok L visit m ops =
     (if \<not> zalloc_ok then (Some ENOMEM, m, ops)
      else let (m', ops') = on_each_cpu L (visit (cpus_to_run_on ops)) m ops
           in (first_err ops', m', ops'))"

text \<open>
  What the kernel documents of \<open>on_each_cpu_mask\<close>: the function runs once on every CPU of the
  mask that is online.
\<close>

definition visit_ok :: "(nat \<Rightarrow> bool) \<Rightarrow> (nat set \<Rightarrow> nat list) \<Rightarrow> bool" where
  "visit_ok online visit \<longleftrightarrow>
     (\<forall>S. finite S \<longrightarrow> distinct (visit S) \<and> set (visit S) = {c \<in> S. online c})"

section \<open>One CPU\<close>

interpretation smp_upd: masked_update "\<lambda>m old new. (new AND m) OR (old AND NOT m)"
  using merge.bit_upd unfolding merge_bits_def by unfold_locales

lemma batch_one_frame [simp]:
  "op_cpu (snd (batch_one L b x)) = op_cpu x"
  "op_msr (snd (batch_one L b x)) = op_msr x"
  "op_isrdmsr (snd (batch_one L b x)) = op_isrdmsr x"
  "op_wmask (snd (batch_one L b x)) = op_wmask x"
  by (auto simp: batch_one_def Let_def split: option.splits)

lemma batch_one_view:
  assumes "local_view view L" and "batch_one L b x = (b', x')"
  shows "view b' = view b \<or> op_isrdmsr x = 0 \<and>
    view b' = (view b)(op_msr x := merge_bits (op_wmask x) (view b (op_msr x)) (op_msrdata x))"
proof (cases "rdmsr_safe L b (op_msr x)")
  case None
  with assms(2) show ?thesis by (simp add: batch_one_def Let_def)
next
  case (Some p)
  obtain lo hi where p: "p = (lo, hi)" by (cases p)
  then have v: "u64_of lo hi = view b (op_msr x)" using assms(1) Some by (simp add: local_view_def)
  show ?thesis
  proof (cases "op_isrdmsr x = 0")
    case False
    with assms(2) Some p show ?thesis by (simp add: batch_one_def Let_def)
  next
    case True
    let ?new = "merge_bits (op_wmask x) (view b (op_msr x)) (op_msrdata x)"
    show ?thesis
    proof (cases "wrmsr_safe L b (op_msr x) (lo32 ?new) (hi32 ?new)")
      case None
      with assms(2) Some p True v show ?thesis
        by (simp add: batch_one_def Let_def merge_bits_def)
    next
      case (Some b1)
      with assms(2) \<open>rdmsr_safe L b (op_msr x) = Some p\<close> p True v have "b' = b1"
        by (simp add: batch_one_def Let_def merge_bits_def)
      moreover have "view b1 = (view b)(op_msr x := u64_of (lo32 ?new) (hi32 ?new))"
        using assms(1) Some unfolding local_view_def by blast
      ultimately show ?thesis using True by simp
    qed
  qed
qed

lemma batch_on_Cons [simp]:
  "msr_safe_batch_on L c b (x # ops) =
     (if cpu_of x \<noteq> c
      then (fst (msr_safe_batch_on L c b ops), x # snd (msr_safe_batch_on L c b ops))
      else (fst (msr_safe_batch_on L c (fst (batch_one L b x)) ops),
            snd (batch_one L b x) # snd (msr_safe_batch_on L c (fst (batch_one L b x)) ops)))"
  by (simp add: Let_def case_prod_beta)

declare msr_safe_batch_on.simps(2) [simp del]

lemma length_batch_on [simp]: "length (snd (msr_safe_batch_on L c b ops)) = length ops"
  by (induction ops arbitrary: b) auto

lemma batch_on_cpus: "map op_cpu (snd (msr_safe_batch_on L c b ops)) = map op_cpu ops"
  by (induction ops arbitrary: b) auto

lemma batch_on_append:
  "msr_safe_batch_on L c b (xs @ ys) =
     (fst (msr_safe_batch_on L c (fst (msr_safe_batch_on L c b xs)) ys),
      snd (msr_safe_batch_on L c b xs) @ snd (msr_safe_batch_on L c (fst (msr_safe_batch_on L c b xs)) ys))"
  by (induction xs arbitrary: b) auto

text \<open>Operations of other CPUs are neither changed nor looked at.\<close>

lemma batch_on_others:
  "i < length ops \<Longrightarrow> cpu_of (ops ! i) \<noteq> c \<Longrightarrow> snd (msr_safe_batch_on L c b ops) ! i = ops ! i"
proof (induction ops arbitrary: b i)
  case Nil
  then show ?case by simp
next
  case (Cons x ops)
  then show ?case by (cases i) auto
qed

definition agree_on :: "nat \<Rightarrow> msr_batch_op \<Rightarrow> msr_batch_op \<Rightarrow> bool" where
  "agree_on c x y \<longleftrightarrow> op_cpu x = op_cpu y \<and> (cpu_of x = c \<longrightarrow> x = y)"

lemma agree_onD: "agree_on c x y \<Longrightarrow> cpu_of y = c \<Longrightarrow> x = y"
  unfolding agree_on_def by metis

lemma batch_on_cong:
  assumes "list_all2 (agree_on c) xs ys"
  shows "fst (msr_safe_batch_on L c b xs) = fst (msr_safe_batch_on L c b ys)
    \<and> list_all2 (agree_on c) (snd (msr_safe_batch_on L c b xs)) (snd (msr_safe_batch_on L c b ys))"
  using assms
proof (induction arbitrary: b rule: list_all2_induct)
  case Nil
  then show ?case by simp
next
  case (Cons x xs y ys)
  then show ?case by (cases "cpu_of x = c") (auto simp: agree_on_def)
qed

section \<open>All CPUs, one after the other\<close>

text \<open>
  Entry \<open>i\<close> of the array after CPU \<open>c\<close> has run alone, and the registers it leaves. Whatever
  the other CPUs do, this is what the batch computes for the operations of \<open>c\<close>.
\<close>

abbreviation bank_after :: "'b local_port \<Rightarrow> nat \<Rightarrow> 'b \<Rightarrow> msr_batch_op list \<Rightarrow> 'b" where
  "bank_after L c b ops \<equiv> fst (msr_safe_batch_on L c b ops)"

abbreviation ops_after :: "'b local_port \<Rightarrow> nat \<Rightarrow> 'b \<Rightarrow> msr_batch_op list \<Rightarrow> msr_batch_op list" where
  "ops_after L c b ops \<equiv> snd (msr_safe_batch_on L c b ops)"

lemma on_each_cpu_Cons [simp]:
  "on_each_cpu L (c # cs) m ops =
     on_each_cpu L cs (m(c := bank_after L c (m c) ops)) (ops_after L c (m c) ops)"
  by (simp add: Let_def case_prod_beta)

declare on_each_cpu.simps(2) [simp del]

lemma length_on_each_cpu [simp]: "length (snd (on_each_cpu L cs m ops)) = length ops"
  by (induction cs arbitrary: m ops) auto

lemma ops_after_cpu:
  assumes "i < length ops"
  shows "op_cpu (ops_after L c b ops ! i) = op_cpu (ops ! i)"
proof -
  have "map op_cpu (ops_after L c b ops) ! i = map op_cpu ops ! i" by (simp only: batch_on_cpus)
  with assms show ?thesis by simp
qed

lemma agree_on_step:
  assumes "c' \<noteq> c"
  shows "list_all2 (agree_on c') (ops_after L c b ops) ops"
proof (rule list_all2_all_nthI)
  show "length (ops_after L c b ops) = length ops" by simp
next
  fix i assume "i < length (ops_after L c b ops)"
  then have i: "i < length ops" by simp
  have "cpu_of (ops ! i) = c' \<Longrightarrow> ops_after L c b ops ! i = ops ! i"
    using assms i batch_on_others [of i ops c] by simp
  then show "agree_on c' (ops_after L c b ops ! i) (ops ! i)"
    by (auto simp: agree_on_def ops_after_cpu [OF i])
qed

text \<open>What another CPU leaves in the array is all the same to this one.\<close>

lemma after_other:
  assumes "c \<noteq> d"
  shows "bank_after L c b (ops_after L d b' ops) = bank_after L c b ops"
    and "i < length ops \<Longrightarrow> cpu_of (ops ! i) = c \<Longrightarrow>
      ops_after L c b (ops_after L d b' ops) ! i = ops_after L c b ops ! i"
proof -
  note cong = batch_on_cong [OF agree_on_step [OF assms], of L b L b' ops]
  show "bank_after L c b (ops_after L d b' ops) = bank_after L c b ops" by (rule conjunct1 [OF cong])
  assume i: "i < length ops" and c: "cpu_of (ops ! i) = c"
  have "agree_on c (ops_after L c b (ops_after L d b' ops) ! i) (ops_after L c b ops ! i)"
    by (rule list_all2_nthD [OF conjunct2 [OF cong]]) (simp add: i)
  then show "ops_after L c b (ops_after L d b' ops) ! i = ops_after L c b ops ! i"
    by (rule agree_onD) (simp add: ops_after_cpu [OF i] c)
qed

lemma on_each_cpu_char_all:
  assumes "distinct cs"
  shows "(\<forall>c. fst (on_each_cpu L cs m ops) c = (if c \<in> set cs then bank_after L c (m c) ops else m c))
    \<and> (\<forall>i < length ops. snd (on_each_cpu L cs m ops) ! i =
      (if cpu_of (ops ! i) \<in> set cs then ops_after L (cpu_of (ops ! i)) (m (cpu_of (ops ! i))) ops ! i
       else ops ! i))"
  using assms
proof (induction cs arbitrary: m ops)
  case Nil
  then show ?case by simp
next
  case (Cons d cs)
  let ?ops1 = "ops_after L d (m d) ops"
  define m1 where "m1 = m(d := bank_after L d (m d) ops)"
  have m1: "m1 d = bank_after L d (m d) ops" "c \<noteq> d \<Longrightarrow> m1 c = m c" for c
    by (simp_all add: m1_def)
  from Cons.prems have d: "distinct cs" "d \<notin> set cs" by simp_all
  note IH = Cons.IH [OF d(1), of m1 ?ops1]
  have "fst (on_each_cpu L cs m1 ?ops1) c
      = (if c \<in> set (d # cs) then bank_after L c (m c) ops else m c)" for c
    using IH d(2) after_other(1) [of c d] m1 by (cases "c = d") auto
  moreover have "snd (on_each_cpu L cs m1 ?ops1) ! i =
      (if cpu_of (ops ! i) \<in> set (d # cs) then ops_after L (cpu_of (ops ! i)) (m (cpu_of (ops ! i))) ops ! i
       else ops ! i)" if i: "i < length ops" for i
    using IH d(2) m1 i batch_on_others [of i ops d]
    by (cases "cpu_of (ops ! i) = d") (auto simp: ops_after_cpu [OF i] after_other(2) [OF _ i refl])
  moreover have "on_each_cpu L (d # cs) m ops = on_each_cpu L cs m1 ?ops1"
    unfolding m1_def by (rule on_each_cpu_Cons)
  ultimately show ?case by (simp only:) blast
qed

lemma on_each_cpu_char:
  assumes "distinct cs"
  shows "fst (on_each_cpu L cs m ops) c = (if c \<in> set cs then bank_after L c (m c) ops else m c)"
    and "i < length ops \<Longrightarrow> snd (on_each_cpu L cs m ops) ! i =
      (if cpu_of (ops ! i) \<in> set cs then ops_after L (cpu_of (ops ! i)) (m (cpu_of (ops ! i))) ops ! i
       else ops ! i)"
  using on_each_cpu_char_all [OF assms, of L m ops] by blast+

lemma finite_cpus_to_run_on: "finite (cpus_to_run_on ops)"
  and set_cpus_to_run_on: "cpus_to_run_on ops = cpu_of ` set ops"
proof -
  have "foldl (\<lambda>S x. insert (cpu_of x) S) S ops = S \<union> cpu_of ` set ops" for S
    by (induction ops arbitrary: S) auto
  then show "cpus_to_run_on ops = cpu_of ` set ops" by (simp add: cpus_to_run_on_def)
  then show "finite (cpus_to_run_on ops)" by simp
qed

lemma first_err_None: "first_err ops = None \<longleftrightarrow> (\<forall>x \<in> set ops. op_err x = None)"
  by (induction ops) (auto split: option.splits)

section \<open>The CPUs at work at the same time\<close>

text \<open>
  The CPUs in \<open>C\<close> run \<open>__msr_safe_batch\<close> concurrently on the shared array: each has the index
  of its next operation, and a step is one CPU taking one turn of its loop.
\<close>

record 'b smp_state =
  s_banks :: "nat \<Rightarrow> 'b"
  s_ops :: "msr_batch_op list"
  s_pc :: "nat \<Rightarrow> nat"

inductive smp_step :: "'b local_port \<Rightarrow> nat set \<Rightarrow> 'b smp_state \<Rightarrow> 'b smp_state \<Rightarrow> bool"
  for L :: "'b local_port" and C :: "nat set" where
  skip: "\<lbrakk>c \<in> C; s_pc s c < length (s_ops s); cpu_of (s_ops s ! s_pc s c) \<noteq> c\<rbrakk> \<Longrightarrow>
    smp_step L C s (s\<lparr>s_pc := (s_pc s)(c := Suc (s_pc s c))\<rparr>)"
| serve: "\<lbrakk>c \<in> C; s_pc s c < length (s_ops s); cpu_of (s_ops s ! s_pc s c) = c;
     batch_one L (s_banks s c) (s_ops s ! s_pc s c) = (b, x)\<rbrakk> \<Longrightarrow>
    smp_step L C s (s\<lparr>s_banks := (s_banks s)(c := b), s_ops := (s_ops s)[s_pc s c := x],
      s_pc := (s_pc s)(c := Suc (s_pc s c))\<rparr>)"

inductive_simps smp_step_iff: "smp_step L C s t"

definition smp_start :: "(nat \<Rightarrow> 'b) \<Rightarrow> msr_batch_op list \<Rightarrow> 'b smp_state" where
  "smp_start m ops = \<lparr>s_banks = m, s_ops = ops, s_pc = (\<lambda>_. 0)\<rparr>"

definition smp_reach :: "'b local_port \<Rightarrow> nat set \<Rightarrow> (nat \<Rightarrow> 'b) \<Rightarrow> msr_batch_op list \<Rightarrow> 'b smp_state \<Rightarrow> bool" where
  "smp_reach L C m ops s \<longleftrightarrow> (smp_step L C)\<^sup>*\<^sup>* (smp_start m ops) s"

definition smp_done :: "nat set \<Rightarrow> 'b smp_state \<Rightarrow> bool" where
  "smp_done C s \<longleftrightarrow> (\<forall>c \<in> C. length (s_ops s) \<le> s_pc s c)"

text \<open>
  The invariant of a run: every CPU is where it would be had it run alone over the prefix it
  has done, and the array is made of these pieces.
\<close>

definition array_at :: "'b local_port \<Rightarrow> (nat \<Rightarrow> 'b) \<Rightarrow> msr_batch_op list \<Rightarrow> (nat \<Rightarrow> nat) \<Rightarrow> nat \<Rightarrow> msr_batch_op"
where
  "array_at L m ops pc i = (let c = cpu_of (ops ! i) in
     if i < pc c then ops_after L c (m c) (take (pc c) ops) ! i else ops ! i)"

definition smp_inv :: "'b local_port \<Rightarrow> nat set \<Rightarrow> (nat \<Rightarrow> 'b) \<Rightarrow> msr_batch_op list \<Rightarrow> 'b smp_state \<Rightarrow> bool"
where
  "smp_inv L C m ops s \<longleftrightarrow>
     length (s_ops s) = length ops \<and>
     (\<forall>c. s_pc s c \<le> length ops \<and> (c \<notin> C \<longrightarrow> s_pc s c = 0)) \<and>
     (\<forall>c. s_banks s c = bank_after L c (m c) (take (s_pc s c) ops)) \<and>
     (\<forall>i < length ops. s_ops s ! i = array_at L m ops (s_pc s) i)"

lemma smp_inv_start: "smp_inv L C m ops (smp_start m ops)"
  by (simp add: smp_inv_def smp_start_def array_at_def)

lemma after_Suc:
  assumes "k < length ops"
  shows "bank_after L c b (take (Suc k) ops) =
      (if cpu_of (ops ! k) = c then fst (batch_one L (bank_after L c b (take k ops)) (ops ! k))
       else bank_after L c b (take k ops))"
    and "ops_after L c b (take (Suc k) ops) = ops_after L c b (take k ops) @
      [if cpu_of (ops ! k) = c then snd (batch_one L (bank_after L c b (take k ops)) (ops ! k))
       else ops ! k]"
  using assms by (simp_all add: take_Suc_conv_app_nth batch_on_append)

lemma nth_after_Suc:
  assumes "k < length ops"
  shows "i < k \<Longrightarrow> ops_after L c b (take (Suc k) ops) ! i = ops_after L c b (take k ops) ! i"
    and "ops_after L c b (take (Suc k) ops) ! k =
      (if cpu_of (ops ! k) = c then snd (batch_one L (bank_after L c b (take k ops)) (ops ! k)) else ops ! k)"
  using assms by (simp_all add: after_Suc(2) nth_append)

lemma array_at_cpu:
  assumes "i < length ops"
  shows "op_cpu (array_at L m ops pc i) = op_cpu (ops ! i)"
  using assms by (simp add: array_at_def Let_def ops_after_cpu)

text \<open>A turn of the CPU \<open>c\<close> moves its own operation from the array that is given to that which is computed.\<close>

lemma array_at_turn:
  assumes "pc c < length ops"
  shows "array_at L m ops (pc(c := Suc (pc c))) i =
    (if i = pc c \<and> cpu_of (ops ! i) = c
     then snd (batch_one L (bank_after L c (m c) (take i ops)) (ops ! i)) else array_at L m ops pc i)"
  by (auto simp: array_at_def Let_def less_Suc_eq nth_after_Suc [OF assms])

lemma smp_inv_skip:
  assumes inv: "smp_inv L C m ops s"
    and c: "c \<in> C" "s_pc s c < length (s_ops s)" "cpu_of (s_ops s ! s_pc s c) \<noteq> c"
  shows "smp_inv L C m ops (s\<lparr>s_pc := (s_pc s)(c := Suc (s_pc s c))\<rparr>)"
proof -
  have k: "s_pc s c < length ops" using inv c(2) by (simp add: smp_inv_def)
  have "s_ops s ! s_pc s c = array_at L m ops (s_pc s) (s_pc s c)" using inv k by (simp add: smp_inv_def)
  with c(3) have "cpu_of (ops ! s_pc s c) \<noteq> c" by (simp add: array_at_cpu [OF k])
  with inv k c show ?thesis
    by (auto simp: smp_inv_def after_Suc(1) [OF k] array_at_turn)
qed

lemma smp_inv_serve:
  assumes inv: "smp_inv L C m ops s"
    and c: "c \<in> C" "s_pc s c < length (s_ops s)" "cpu_of (s_ops s ! s_pc s c) = c"
    and bx: "batch_one L (s_banks s c) (s_ops s ! s_pc s c) = (b, x)"
  shows "smp_inv L C m ops (s\<lparr>s_banks := (s_banks s)(c := b), s_ops := (s_ops s)[s_pc s c := x],
    s_pc := (s_pc s)(c := Suc (s_pc s c))\<rparr>)"
proof -
  have k: "s_pc s c < length ops" using inv c(2) by (simp add: smp_inv_def)
  have own: "s_ops s ! s_pc s c = array_at L m ops (s_pc s) (s_pc s c)" using inv k by (simp add: smp_inv_def)
  with c(3) have kc: "cpu_of (ops ! s_pc s c) = c" by (simp add: array_at_cpu [OF k])
  with own have "s_ops s ! s_pc s c = ops ! s_pc s c" by (simp add: array_at_def)
  with bx inv have "batch_one L (bank_after L c (m c) (take (s_pc s c) ops)) (ops ! s_pc s c) = (b, x)"
    by (simp add: smp_inv_def)
  with inv k kc c show ?thesis
    by (auto simp: smp_inv_def after_Suc(1) [OF k] array_at_turn nth_list_update)
qed

lemma smp_inv_step:
  assumes "smp_step L C s t" and "smp_inv L C m ops s"
  shows "smp_inv L C m ops t"
  using assms(1)
proof cases
  case (skip c)
  from smp_inv_skip [OF assms(2) skip(2-4)] skip(1) show ?thesis by simp
next
  case (serve c b x)
  from smp_inv_serve [OF assms(2) serve(2-5)] serve(1) show ?thesis by simp
qed

text \<open>A complete run has one outcome.\<close>

lemma smp_done_eq:
  assumes "smp_inv L C m ops s" and "smp_done C s" and "distinct cs" and "set cs = C"
  shows "(s_banks s, s_ops s) = on_each_cpu L cs m ops"
proof -
  have len: "length (s_ops s) = length ops" using assms(1) by (simp add: smp_inv_def)
  have pc: "s_pc s c = (if c \<in> C then length ops else 0)" for c
    using assms(1,2) len by (auto simp: smp_inv_def smp_done_def intro: antisym)
  have "s_banks s = fst (on_each_cpu L cs m ops)"
  proof
    fix c
    show "s_banks s c = fst (on_each_cpu L cs m ops) c"
      using assms(1) pc [of c] on_each_cpu_char(1) [OF assms(3), of L m ops c] assms(4)
      by (simp add: smp_inv_def)
  qed
  moreover have "s_ops s = snd (on_each_cpu L cs m ops)"
  proof (rule nth_equalityI)
    show "length (s_ops s) = length (snd (on_each_cpu L cs m ops))" using len by simp
  next
    fix i assume "i < length (s_ops s)"
    then have i: "i < length ops" using len by simp
    show "s_ops s ! i = snd (on_each_cpu L cs m ops) ! i"
      using assms(1) i pc [of "cpu_of (ops ! i)"] on_each_cpu_char(2) [OF assms(3) i, of L m] assms(4)
      by (simp add: smp_inv_def array_at_def Let_def)
  qed
  ultimately show ?thesis by (simp add: prod_eq_iff)
qed

text \<open>A run is complete when no CPU can move, and each move uses up one turn.\<close>

definition turns_left :: "nat set \<Rightarrow> 'b smp_state \<Rightarrow> nat" where
  "turns_left C s = (\<Sum>c \<in> C. length (s_ops s) - s_pc s c)"

lemma smp_step_moved:
  assumes "smp_step L C s t"
  obtains c where "c \<in> C" and "s_pc s c < length (s_ops s)" and "length (s_ops t) = length (s_ops s)"
    and "s_pc t = (s_pc s)(c := Suc (s_pc s c))"
  using assms by (auto simp: smp_step_iff)

lemma smp_done_stuck: "smp_done C s \<longleftrightarrow> (\<nexists>t. smp_step L C s t)"
proof -
  have "\<exists>t. smp_step L C s t" if "c \<in> C" "s_pc s c < length (s_ops s)" for c
    using that skip [of c C s L] serve [of c C s L]
    by (cases "batch_one L (s_banks s c) (s_ops s ! s_pc s c)") blast
  then show ?thesis unfolding smp_done_def by (meson smp_step_moved linorder_not_le)
qed

lemma smp_progress: "\<not> smp_done C s \<Longrightarrow> \<exists>t. smp_step L C s t"
  using smp_done_stuck by blast

lemma smp_step_turns: "finite C \<Longrightarrow> smp_step L C s t \<Longrightarrow> turns_left C t < turns_left C s"
proof -
  assume fin: "finite C" and st: "smp_step L C s t"
  from st obtain c where c: "c \<in> C" "s_pc s c < length (s_ops s)" "length (s_ops t) = length (s_ops s)"
    "s_pc t = (s_pc s)(c := Suc (s_pc s c))" by (rule smp_step_moved)
  have "(\<Sum>d \<in> C. length (s_ops t) - s_pc t d) < (\<Sum>d \<in> C. length (s_ops s) - s_pc s d)"
    using fin c by (intro sum_strict_mono_ex1) auto
  then show ?thesis by (simp add: turns_left_def)
qed

interpretation smp: terminating_system "\<lambda>s. finite C \<and> s = smp_start m ops" "smp_step L C"
  "\<lambda>s. finite C \<and> smp_inv L C m ops s" "turns_left C" "smp_done C"
  for L :: "'b local_port" and C m ops
  by unfold_locales (auto intro: smp_inv_start smp_inv_step smp_step_turns smp_progress)

lemma smp_reach_inv: "finite C \<Longrightarrow> smp_reach L C m ops s \<Longrightarrow> smp_inv L C m ops s"
  using smp.reachable_inv unfolding smp_reach_def by blast

lemma smp_completes:
  assumes "finite C" and "smp_reach L C m ops s"
  shows "\<exists>t. smp_reach L C m ops t \<and> smp_done C t"
  using smp.completes [of C L m ops s] smp_reach_inv [OF assms] assms unfolding smp_reach_def
  by (meson rtranclp_trans)

lemma smp_reach_start: "smp_reach L C m ops (smp_start m ops)"
  by (simp add: smp_reach_def)

section \<open>What a batch can change\<close>

text \<open>
  A bit of a register changes only under the mask of a write operation for that register and
  that CPU.
\<close>

lemma batch_on_bits:
  assumes "local_view view L" and "k < 64"
    and "bit (view (bank_after L c b ops) r) k \<noteq> bit (view b r) k"
  shows "\<exists>x \<in> set ops. cpu_of x = c \<and> op_isrdmsr x = 0 \<and> op_msr x = r \<and> bit (op_wmask x) k"
  using assms(3)
proof (induction ops arbitrary: b)
  case Nil
  then show ?case by simp
next
  case (Cons x ops)
  show ?case
  proof (cases "cpu_of x = c")
    case False
    with Cons show ?thesis by auto
  next
    case True
    let ?b1 = "fst (batch_one L b x)"
    show ?thesis
    proof (cases "bit (view ?b1 r) k = bit (view b r) k")
      case same: True
      with Cons True show ?thesis by auto
    next
      case diff: False
      from batch_one_view [OF assms(1), of b x ?b1 "snd (batch_one L b x)"] diff
      have "op_isrdmsr x = 0" "op_msr x = r" "bit (op_wmask x) k"
        by (auto simp: bit_merge_bits assms(2) split: if_splits)
      with True show ?thesis by auto
    qed
  qed
qed

lemma msr_safe_batch_char:
  assumes "visit_ok online visit" and "msr_safe_batch L visit m ops = (r, m', ops')"
  shows "r = first_err ops'" and "length ops' = length ops"
    and "m' c = (if c \<in> cpu_of ` set ops \<and> online c then bank_after L c (m c) ops else m c)"
    and "i < length ops \<Longrightarrow> ops' ! i =
      (if online (cpu_of (ops ! i)) then ops_after L (cpu_of (ops ! i)) (m (cpu_of (ops ! i))) ops ! i
       else ops ! i)"
proof -
  let ?cs = "visit (cpus_to_run_on ops)"
  have cs: "distinct ?cs" "set ?cs = {c \<in> cpu_of ` set ops. online c}"
    using assms(1) finite_cpus_to_run_on unfolding visit_ok_def set_cpus_to_run_on by auto
  have o: "on_each_cpu L ?cs m ops = (m', ops')" "r = first_err ops'"
    using assms(2) by (auto simp: msr_safe_batch_def split: prod.splits)
  then show "r = first_err ops'" by simp
  show "length ops' = length ops" using length_on_each_cpu [of L ?cs m ops] o by simp
  show "m' c = (if c \<in> cpu_of ` set ops \<and> online c then bank_after L c (m c) ops else m c)"
    using on_each_cpu_char(1) [OF cs(1), of L m ops c] o cs(2) by auto
  show "ops' ! i = (if online (cpu_of (ops ! i))
      then ops_after L (cpu_of (ops ! i)) (m (cpu_of (ops ! i))) ops ! i else ops ! i)"
    if "i < length ops"
    using on_each_cpu_char(2) [OF cs(1) that, of L m] o cs(2) that by auto
qed

lemma safe_batch_bits:
  assumes "local_view view L" and "visit_ok online visit"
    and "msr_safe_batch L visit m ops = (r, m', ops')" and "k < 64"
    and "bit (view (m' c) reg) k \<noteq> bit (view (m c) reg) k"
  shows "online c \<and> (\<exists>x \<in> set ops. cpu_of x = c \<and> op_isrdmsr x = 0 \<and> op_msr x = reg \<and> bit (op_wmask x) k)"
proof -
  note m' = msr_safe_batch_char(3) [OF assms(2,3), of c]
  with assms(5) have "c \<in> cpu_of ` set ops \<and> online c" "m' c = bank_after L c (m c) ops"
    by (auto split: if_splits)
  with batch_on_bits [OF assms(1,4), of c "m c" ops reg] assms(5) show ?thesis by simp
qed

lemma batch_on_reads:
  assumes "local_view view L"
    and "\<forall>x \<in> set ops. op_isrdmsr x \<noteq> 0 \<and> (cpu_of x = c \<longrightarrow> rdmsr_safe L b (op_msr x) \<noteq> None)"
  shows "msr_safe_batch_on L c b ops = (b, map (\<lambda>x. if cpu_of x = c
      then x\<lparr>op_err := None, op_msrdata := view b (op_msr x)\<rparr> else x) ops)"
  using assms(2)
proof (induction ops)
  case Nil
  then show ?case by simp
next
  case (Cons x ops)
  have "batch_one L b x = (b, x\<lparr>op_err := None, op_msrdata := view b (op_msr x)\<rparr>)" if "cpu_of x = c"
    using Cons.prems assms(1) that by (auto simp: batch_one_def Let_def local_view_def)
  with Cons show ?case by auto
qed

lemma safe_batch_reads:
  assumes "local_view view L" and "visit_ok online visit"
    and "\<forall>x \<in> set ops. op_isrdmsr x \<noteq> 0 \<and> online (cpu_of x)
      \<and> rdmsr_safe L (m (cpu_of x)) (op_msr x) \<noteq> None"
  shows "msr_safe_batch L visit m ops = (None, m,
    map (\<lambda>x. x\<lparr>op_err := None, op_msrdata := view (m (cpu_of x)) (op_msr x)\<rparr>) ops)"
proof -
  obtain r m' ops' where b: "msr_safe_batch L visit m ops = (r, m', ops')"
    by (cases "msr_safe_batch L visit m ops")
  note ch = msr_safe_batch_char [OF assms(2) b]
  have on: "msr_safe_batch_on L c (m c) ops = (m c, map (\<lambda>x. if cpu_of x = c
      then x\<lparr>op_err := None, op_msrdata := view (m c) (op_msr x)\<rparr> else x) ops)" for c
    by (rule batch_on_reads [OF assms(1)]) (use assms(3) in blast)
  have m: "m' = m" by (rule ext) (simp add: ch(3) on)
  have ops: "ops' = map (\<lambda>x. x\<lparr>op_err := None, op_msrdata := view (m (cpu_of x)) (op_msr x)\<rparr>) ops"
    by (rule nth_equalityI) (use ch(2,4) on assms(3) in auto)
  have "r = None" unfolding ch(1) first_err_None by (simp add: ops)
  with b m ops show ?thesis by simp
qed

section \<open>Properties\<close>

text \<open>A bank of plain registers, for the witnesses, and two operations for different CPUs.\<close>

definition plain_local :: "(u32 \<Rightarrow> u64) local_port" where
  "plain_local = \<lparr>rdmsr_safe = (\<lambda>b r. Some (lo32 (b r), hi32 (b r))),
     wrmsr_safe = (\<lambda>b r lo hi. Some (b(r := u64_of lo hi)))\<rparr>"

lemma plain_local_view: "local_view (\<lambda>b. b) plain_local"
  by (auto simp: local_view_def plain_local_def)

definition sample_ops :: "msr_batch_op list" where
  "sample_ops =
     [\<lparr>op_cpu = 0, op_isrdmsr = 0, op_err = None, op_msr = 0x199, op_msrdata = 0xABCD, op_wmask = 0xFF\<rparr>,
      \<lparr>op_cpu = 1, op_isrdmsr = 1, op_err = None, op_msr = 0x10, op_msrdata = 0, op_wmask = 0\<rparr>]"

definition visit_upto :: "nat \<Rightarrow> nat set \<Rightarrow> nat list" where
  "visit_upto n S = filter (\<lambda>c. c \<in> S) [0..<n]"

lemma visit_upto_ok: "visit_ok (\<lambda>c. c < n) (visit_upto n)"
  by (auto simp: visit_ok_def visit_upto_def)

text \<open>
  C10: the result of a batch does not depend on how the CPUs interleave. Every run of the
  concurrent system that has served all operations ends with the same registers and the same
  array as running the CPUs one after the other, in any order.
\<close>

theorem batch_schedule_independent:
  assumes "smp_reach L C m ops s" and "smp_done C s" and "distinct cs" and "set cs = C"
  shows "(s_banks s, s_ops s) = on_each_cpu L cs m ops"
  using smp_done_eq [OF smp_reach_inv [OF _ assms(1)] assms(2-4)] assms(4) by blast

theorem batch_schedule_independent_witness:
  "\<exists>s. smp_reach plain_local {0, 1} (\<lambda>_ _. 0) sample_ops s \<and> smp_done {0, 1} s
    \<and> (s_banks s, s_ops s) = on_each_cpu plain_local [0, 1] (\<lambda>_ _. 0) sample_ops
    \<and> (s_banks s, s_ops s) = on_each_cpu plain_local [1, 0] (\<lambda>_ _. 0) sample_ops"
proof -
  obtain s where s: "smp_reach plain_local {0, 1} (\<lambda>_ _. 0) sample_ops s" "smp_done {0, 1} s"
    using smp_completes [OF _ smp_reach_start, of "{0, 1}" plain_local "\<lambda>_ _. 0" sample_ops] by auto
  have "(s_banks s, s_ops s) = on_each_cpu plain_local [0, 1] (\<lambda>_ _. 0) sample_ops"
    by (rule batch_schedule_independent [OF s]) auto
  moreover have "(s_banks s, s_ops s) = on_each_cpu plain_local [1, 0] (\<lambda>_ _. 0) sample_ops"
    by (rule batch_schedule_independent [OF s]) auto
  ultimately show ?thesis using s by blast
qed

text \<open>
  C24: a batch always completes: no run of the concurrent system is infinite, and from every
  state that a run has reached the CPUs can go on until all operations are served.
\<close>

theorem batch_terminates:
  assumes "finite C"
  shows "\<not> (\<exists>f. f 0 = smp_start m ops \<and> (\<forall>i. smp_step L C (f i) (f (Suc i))))
    \<and> (\<forall>s. smp_reach L C m ops s \<longrightarrow> (\<exists>t. (smp_step L C)\<^sup>*\<^sup>* s t \<and> smp_done C t))"
  using smp.no_infinite_run [of C L m ops] smp.completes [of C L m ops] smp_reach_inv [OF assms, of L m ops]
    smp_inv_start [of L C m ops] assms by metis

theorem batch_terminates_witness:
  "\<not> (\<exists>f. f 0 = smp_start (\<lambda>_ _. 0) sample_ops \<and> (\<forall>i. smp_step plain_local {0, 1} (f i) (f (Suc i))))"
  using batch_terminates [of "{0, 1}" "\<lambda>_ _. 0" sample_ops plain_local] by simp

text \<open>
  In every register of every CPU a batch changes a bit only if the batch holds a write
  operation for that register and that CPU whose mask has the bit.
\<close>

theorem batch_changes_masked_bits:
  assumes "local_view view L" and "visit_ok online visit"
    and "msr_safe_batch L visit m ops = (r, m', ops')" and "k < 64"
    and "bit (view (m' c) reg) k \<noteq> bit (view (m c) reg) k"
  shows "online c \<and> (\<exists>x \<in> set ops. cpu_of x = c \<and> op_isrdmsr x = 0 \<and> op_msr x = reg \<and> bit (op_wmask x) k)"
  by (rule safe_batch_bits [OF assms])

theorem batch_changes_masked_bits_witness:
  "\<exists>r m' ops'. msr_safe_batch plain_local (visit_upto 2) (\<lambda>_ _. 0) sample_ops = (r, m', ops')
    \<and> bit (m' 0 0x199) 0 \<and> (\<exists>x \<in> set sample_ops. cpu_of x = 0 \<and> op_msr x = 0x199 \<and> bit (op_wmask x) 0)"
proof -
  obtain r m' ops' where b: "msr_safe_batch plain_local (visit_upto 2) (\<lambda>_ _. 0) sample_ops = (r, m', ops')"
    by (cases "msr_safe_batch plain_local (visit_upto 2) (\<lambda>_ _. 0) sample_ops")
  have "m' 0 = bank_after plain_local 0 (\<lambda>_. 0) sample_ops"
    using msr_safe_batch_char(3) [OF visit_upto_ok b, of 0] by (simp add: sample_ops_def)
  moreover have "bit (bank_after plain_local 0 (\<lambda>_. 0) sample_ops 0x199) 0"
    by (simp add: sample_ops_def batch_one_def plain_local_def)
  ultimately have bit: "bit (m' 0 0x199) 0" by simp
  from batch_changes_masked_bits [OF plain_local_view visit_upto_ok b, of 0 0 "0x199"] b bit
  show ?thesis by auto
qed

text \<open>
  C25: a batch of reads on online CPUs, whose registers can all be read, returns 0, changes
  no register and stores in every operation the value its register has on its CPU.
\<close>

theorem batch_reads_values:
  assumes "local_view view L" and "visit_ok online visit"
    and "\<forall>x \<in> set ops. op_isrdmsr x \<noteq> 0 \<and> online (cpu_of x)
      \<and> rdmsr_safe L (m (cpu_of x)) (op_msr x) \<noteq> None"
  shows "msr_safe_batch L visit m ops = (None, m,
    map (\<lambda>x. x\<lparr>op_err := None, op_msrdata := view (m (cpu_of x)) (op_msr x)\<rparr>) ops)"
  using assms by (rule safe_batch_reads)

theorem batch_reads_values_witness:
  "msr_safe_batch plain_local (visit_upto 2) (\<lambda>c r. 5) [sample_ops ! 1]
    = (None, \<lambda>c r. 5, [(sample_ops ! 1)\<lparr>op_msrdata := 5\<rparr>])"
  using batch_reads_values [OF plain_local_view visit_upto_ok, of "[sample_ops ! 1]" 2 "\<lambda>c r. 5"]
  by (simp add: sample_ops_def plain_local_def)

text \<open>
  C39: operations for CPUs that have gone offline since they were checked are not executed
  and not reported: the batch returns 0 and hands the operations back unchanged, with
  whatever \<open>msrdata\<close> the user had in them.
\<close>

theorem batch_offline_silently_skipped:
  assumes "visit_ok online visit" and "\<forall>x \<in> set ops. \<not> online (cpu_of x) \<and> op_err x = None"
  shows "msr_safe_batch L visit m ops = (None, m, ops)"
proof -
  obtain r m' ops' where b: "msr_safe_batch L visit m ops = (r, m', ops')"
    by (cases "msr_safe_batch L visit m ops")
  note ch = msr_safe_batch_char [OF assms(1) b]
  have m: "m' = m" by (rule ext) (use ch(3) assms(2) in auto)
  have ops: "ops' = ops" by (rule nth_equalityI) (use ch(2,4) assms(2) in auto)
  have "r = None" unfolding ch(1) first_err_None using assms(2) by (simp add: ops)
  with b m ops show ?thesis by simp
qed

theorem batch_offline_silently_skipped_witness:
  "msr_safe_batch plain_local (visit_upto 1) (\<lambda>_ _. 5) [sample_ops ! 1] = (None, \<lambda>_ _. 5, [sample_ops ! 1])"
  by (rule batch_offline_silently_skipped [OF visit_upto_ok]) (simp add: sample_ops_def)

end
