(* ===== verification/Msr_Batch.thy ===== *)
theory Msr_Batch
  imports Msr_Entry Msr_Smp
begin

text \<open>
  The batch device /dev/cpu/msr_batch of msr_batch.c: \<open>msrbatch_apply_allowlist\<close>, which checks
  every operation of a batch against the allowlist and gives it its write mask, and
  \<open>msrbatch_ioctl\<close>, which copies a batch in, has it checked and executed and copies it out.
  Each look-up takes the allowlist's mutex by itself, so another process can replace the
  allowlist between two look-ups; the model therefore takes a schedule that says which
  allowlist the \<open>t\<close>-th look-up of the call meets. The sequential reading is a constant
  schedule. Taking one look-up as one step of that schedule is an assumption of this theory:
  the code searches under the mutex but reads the mask of the entry it found after it has
  released it, and \<open>Allowlist_Race\<close> shows what an allowlist that is replaced in between
  can do. What is proved here of a schedule that changes is proved of calls in which no
  allowlist is replaced between the two halves of one look-up.
\<close>

section \<open>The check\<close>

type_synonym al_schedule = "nat \<Rightarrow> alist"

text \<open>
  The body of the loop of \<open>msrbatch_apply_allowlist\<close> for one operation, when \<open>t\<close> look-ups have
  been made. The result is the error stored in \<open>err\<close> by this turn, the operation and the
  number of look-ups made so far. \<open>nr_cpu_ids\<close> and \<open>cpu_online\<close> are the kernel's.
\<close>

definition apply_one :: "bucket_hash \<Rightarrow> nat \<Rightarrow> (nat \<Rightarrow> bool) \<Rightarrow> al_schedule \<Rightarrow> nat \<Rightarrow> msr_batch_op
    \<Rightarrow> errno option \<times> msr_batch_op \<times> nat" where
  "apply_one h nr_cpu_ids cpu_online \<sigma> t op0 =
     (let op1 = op0\<lparr>op_err := None\<rparr>
      in if cpu_of op1 \<ge> nr_cpu_ids \<or> \<not> cpu_online (cpu_of op1)
         then (Some ENXIO, op1\<lparr>op_err := Some ENXIO\<rparr>, t)
         else if \<not> msr_allowlist_maskexists h (\<sigma> t) (ucast (op_msr op1))
         then (Some EACCES, op1\<lparr>op_err := Some EACCES\<rparr>, Suc t)
         else let op2 = op1\<lparr>op_wmask := msr_allowlist_writemask h (\<sigma> (Suc t)) (ucast (op_msr op1))\<rparr>
              in if op_wmask op2 = 0 \<and> op_isrdmsr op2 = 0
                 then (Some EROFS, op2\<lparr>op_err := Some EROFS\<rparr>, Suc (Suc t))
                 else (None, op2, Suc (Suc t)))"

text \<open>The loop; \<open>err\<close> is overwritten by every operation that fails.\<close>

fun apply_loop :: "bucket_hash \<Rightarrow> nat \<Rightarrow> (nat \<Rightarrow> bool) \<Rightarrow> al_schedule \<Rightarrow> nat \<Rightarrow> errno option
    \<Rightarrow> msr_batch_op list \<Rightarrow> errno option \<times> msr_batch_op list" where
  "apply_loop h n on \<sigma> t err [] = (err, [])"
| "apply_loop h n on \<sigma> t err (x # ops) =
     (let (e, x', t') = apply_one h n on \<sigma> t x;
          (err', ops') = apply_loop h n on \<sigma> t' (case e of Some c \<Rightarrow> Some c | None \<Rightarrow> err) ops
      in (err', x' # ops'))"

definition msrbatch_apply_allowlist :: "bucket_hash \<Rightarrow> nat \<Rightarrow> (nat \<Rightarrow> bool) \<Rightarrow> al_schedule
    \<Rightarrow> msr_batch_op list \<Rightarrow> errno option \<times> msr_batch_op list" where
  "msrbatch_apply_allowlist h nr_cpu_ids cpu_online \<sigma> ops =
     apply_loop h nr_cpu_ids cpu_online \<sigma> 0 None ops"

section \<open>The ioctl\<close>

text \<open>
  \<open>struct msr_batch_array\<close>; \<open>oa_ops\<close> is the array of operations that the user's pointer
  points to, as far as the user's memory can be read from there.
\<close>

record msr_batch_array =
  oa_numops :: u32
  oa_version :: u32
  oa_ops :: "msr_batch_op list"

text \<open>\<open>_IOWR(ty, nr, t)\<close> of the kernel for a type of \<open>sz\<close> bytes, and the request built with it.\<close>

definition IOWR :: "u32 \<Rightarrow> u32 \<Rightarrow> u32 \<Rightarrow> u32" where
  "IOWR ty nr sz = push_bit 30 3 OR push_bit 16 sz OR push_bit 8 ty OR nr"

definition X86_IOC_MSR_BATCH :: u32 where
  "X86_IOC_MSR_BATCH = IOWR (of_nat (of_char (CHR ''c''))) 0xA2 16"

definition FMODE_READ :: u32 where
  "FMODE_READ = 1"

text \<open>
  What the kernel calls of the ioctl do: whether the descriptor can be copied in, the
  allocation succeeds and the operations can be copied in, how many operations the copy to
  the user writes before it faults, and how the CPU mask is allocated (\<open>None\<close>: it is on the
  stack; \<open>Some ok\<close>: \<open>CONFIG_CPUMASK_OFFSTACK\<close>, with the outcome of the allocation).
\<close>

record ioctl_env =
  desc_copy_ok :: bool
  kmalloc_ok :: bool
  ops_copy_ok :: bool
  copied_out :: nat
  cpumask_zalloc :: "bool option"

definition run_batch :: "ioctl_env \<Rightarrow> 'b local_port \<Rightarrow> (nat set \<Rightarrow> nat list) \<Rightarrow> (nat \<Rightarrow> 'b)
    \<Rightarrow> msr_batch_op list \<Rightarrow> errno option \<times> (nat \<Rightarrow> 'b) \<times> msr_batch_op list" where
  "run_batch E L visit m ops =
     (case cpumask_zalloc E of
        None \<Rightarrow> msr_safe_batch L visit m ops
      | Some ok \<Rightarrow> msr_safe_batch_offstack ok L visit m ops)"

text \<open>
  \<open>copy_to_user(uops, koa.ops, ...)\<close> and the choice of the return value: the user's array gets
  the operations that could be written, and EFAULT is returned if nothing failed before.
\<close>

definition copyout_and_return :: "ioctl_env \<Rightarrow> errno option \<Rightarrow> msr_batch_op list \<Rightarrow> msr_batch_op list
    \<Rightarrow> errno option \<times> msr_batch_op list" where
  "copyout_and_return E err kops uops =
     (let n = min (copied_out E) (length kops)
      in (if n < length kops \<and> err = None then Some EFAULT else err, take n kops @ drop n uops))"

text \<open>The result is the return value, the registers of the CPUs and the user's array.\<close>

definition msrbatch_ioctl :: "bucket_hash \<Rightarrow> nat \<Rightarrow> (nat \<Rightarrow> bool) \<Rightarrow> al_schedule \<Rightarrow> 'b local_port
    \<Rightarrow> (nat set \<Rightarrow> nat list) \<Rightarrow> ioctl_env \<Rightarrow> u32 \<Rightarrow> u32 \<Rightarrow> msr_batch_array \<Rightarrow> (nat \<Rightarrow> 'b)
    \<Rightarrow> errno option \<times> (nat \<Rightarrow> 'b) \<times> msr_batch_op list" where
  "msrbatch_ioctl h nr_cpu_ids cpu_online \<sigma> L visit E f_mode ioc koa m =
     (let uops = oa_ops koa; numops = unat (oa_numops koa)
      in if ioc \<noteq> X86_IOC_MSR_BATCH then (Some ENOTTY, m, uops)
         else if f_mode AND FMODE_READ = 0 then (Some EBADF, m, uops)
         else if \<not> desc_copy_ok E then (Some EFAULT, m, uops)
         else if numops = 0 then (Some EINVAL, m, uops)
         else if \<not> kmalloc_ok E then (Some E2BIG, m, uops)
         else if \<not> ops_copy_ok E \<or> length uops < numops then (Some EFAULT, m, uops)
         else case msrbatch_apply_allowlist h nr_cpu_ids cpu_online \<sigma> (take numops uops) of
                (Some err, kops) \<Rightarrow>
                  let (r, uops') = copyout_and_return E (Some err) kops uops in (r, m, uops')
              | (None, kops) \<Rightarrow>
                  let (err, m', kops') = run_batch E L visit m kops;
                      (r, uops') = copyout_and_return E err kops' uops
                  in (r, m', uops'))"

lemma ioctl_number: "X86_IOC_MSR_BATCH = 0xC01063A2"
  by (simp add: X86_IOC_MSR_BATCH_def IOWR_def)

section \<open>What the check decides\<close>

text \<open>
  The specification: what an access policy says of one operation, what the operation looks
  like after the check, and the error the whole check reports, that of the last failure.
\<close>

definition check_op :: "(u64 \<rightharpoonup> u64) \<Rightarrow> nat \<Rightarrow> (nat \<Rightarrow> bool) \<Rightarrow> msr_batch_op \<Rightarrow> errno option" where
  "check_op policy n on x =
     (if n \<le> cpu_of x \<or> \<not> on (cpu_of x) then Some ENXIO
      else case policy (ucast (op_msr x)) of
             None \<Rightarrow> Some EACCES
           | Some w \<Rightarrow> if w = 0 \<and> op_isrdmsr x = 0 then Some EROFS else None)"

definition annotate_op :: "(u64 \<rightharpoonup> u64) \<Rightarrow> nat \<Rightarrow> (nat \<Rightarrow> bool) \<Rightarrow> msr_batch_op \<Rightarrow> msr_batch_op" where
  "annotate_op policy n on x =
     (let y = x\<lparr>op_err := check_op policy n on x\<rparr>
      in if n \<le> cpu_of x \<or> \<not> on (cpu_of x) then y
         else case policy (ucast (op_msr x)) of None \<Rightarrow> y | Some w \<Rightarrow> y\<lparr>op_wmask := w\<rparr>)"

definition last_err :: "errno option list \<Rightarrow> errno option" where
  "last_err es = (if \<forall>e \<in> set es. e = None then None else last (filter (\<lambda>e. e \<noteq> None) es))"

lemma last_err_Nil [simp]: "last_err [] = None"
  by (simp add: last_err_def)

lemma last_err_Cons:
  "last_err (e # es) = (case last_err es of None \<Rightarrow> e | Some c \<Rightarrow> Some c)"
proof (cases "\<forall>e \<in> set es. e = None")
  case True
  then show ?thesis by (cases e) (auto simp: last_err_def)
next
  case False
  then have ne: "filter (\<lambda>e. e \<noteq> None) es \<noteq> []" by (auto simp: filter_empty_conv)
  have "last (filter (\<lambda>e. e \<noteq> None) es) \<noteq> None" using last_in_set [OF ne] by auto
  with False ne show ?thesis by (auto simp: last_err_def)
qed

lemma last_err_None: "last_err es = None \<longleftrightarrow> (\<forall>e \<in> set es. e = None)"
  by (induction es) (auto simp: last_err_Cons split: option.splits)

lemma apply_loop_Cons [simp]:
  "apply_loop h n on \<sigma> t err (x # ops) =
     (let p = apply_one h n on \<sigma> t x;
          q = apply_loop h n on \<sigma> (snd (snd p)) (case fst p of Some c \<Rightarrow> Some c | None \<Rightarrow> err) ops
      in (fst q, fst (snd p) # snd q))"
  by (simp add: Let_def case_prod_beta)

declare apply_loop.simps(2) [simp del]

lemma apply_one_constant:
  assumes "al_inv h G"
  shows "fst (apply_one h n on (\<lambda>_. G) t x) = check_op (al_map G) n on x"
    and "fst (snd (apply_one h n on (\<lambda>_. G) t x)) = annotate_op (al_map G) n on x"
  by (auto simp: apply_one_def Let_def check_op_def annotate_op_def
      al.readable_policy [OF assms] al.writemask_policy [OF assms] domIff
      split: option.splits)

lemma apply_loop_constant:
  assumes "al_inv h G"
  shows "apply_loop h n on (\<lambda>_. G) t err ops =
    (case last_err (map (check_op (al_map G) n on) ops) of None \<Rightarrow> err | Some c \<Rightarrow> Some c,
     map (annotate_op (al_map G) n on) ops)"
proof (induction ops arbitrary: t err)
  case Nil
  then show ?case by simp
next
  case (Cons x ops)
  then show ?case
    by (simp add: Let_def apply_one_constant [OF assms] last_err_Cons split: option.splits)
qed

lemma apply_constant:
  assumes "al_inv h G"
  shows "msrbatch_apply_allowlist h n on (\<lambda>_. G) ops =
    (last_err (map (check_op (al_map G) n on) ops), map (annotate_op (al_map G) n on) ops)"
  unfolding msrbatch_apply_allowlist_def apply_loop_constant [OF assms]
  by (simp split: option.splits)

text \<open>
  Under any schedule: a batch that passes the check consists of the user's operations, each
  with the mask of some allowlist that was loaded during the check.
\<close>

definition passed_op :: "bucket_hash \<Rightarrow> nat \<Rightarrow> (nat \<Rightarrow> bool) \<Rightarrow> al_schedule \<Rightarrow> msr_batch_op \<Rightarrow> msr_batch_op \<Rightarrow> bool"
where
  "passed_op h n on \<sigma> x y \<longleftrightarrow> cpu_of x < n \<and> on (cpu_of x) \<and>
     (\<exists>t. msr_allowlist_maskexists h (\<sigma> t) (ucast (op_msr x)) \<and>
        y = x\<lparr>op_err := None, op_wmask := msr_allowlist_writemask h (\<sigma> (Suc t)) (ucast (op_msr x))\<rparr>) \<and>
     (op_wmask y = 0 \<longrightarrow> op_isrdmsr y \<noteq> 0)"

lemma apply_one_passed:
  assumes "fst (apply_one h n on \<sigma> t x) = None"
  shows "passed_op h n on \<sigma> x (fst (snd (apply_one h n on \<sigma> t x)))"
  using assms by (auto simp: apply_one_def Let_def passed_op_def split: if_splits)

lemma apply_loop_err: "fst (apply_loop h n on \<sigma> t (Some e) ops) \<noteq> None"
  by (induction ops arbitrary: t e) (auto simp: Let_def split: option.splits)

lemma apply_loop_None:
  assumes "apply_loop h n on \<sigma> t None (x # ops) = (None, kops)"
  shows "fst (apply_one h n on \<sigma> t x) = None"
proof (rule ccontr)
  assume "fst (apply_one h n on \<sigma> t x) \<noteq> None"
  then obtain e where "fst (apply_one h n on \<sigma> t x) = Some e" by auto
  with assms apply_loop_err [of h n on \<sigma> _ e ops] show False by (simp add: Let_def prod_eq_iff)
qed

lemma apply_loop_passed:
  assumes "apply_loop h n on \<sigma> t None ops = (None, ops')"
  shows "list_all2 (passed_op h n on \<sigma>) ops ops'"
  using assms
proof (induction ops arbitrary: t ops')
  case Nil
  then show ?case by simp
next
  case (Cons x ops)
  with Cons apply_loop_None [OF Cons.prems] apply_one_passed [of h n on \<sigma> t x] show ?case
    by (auto simp: Let_def prod_eq_iff)
qed

lemma apply_passed:
  "msrbatch_apply_allowlist h n on \<sigma> ops = (None, ops') \<Longrightarrow> list_all2 (passed_op h n on \<sigma>) ops ops'"
  unfolding msrbatch_apply_allowlist_def by (rule apply_loop_passed)

lemma apply_passed_mem:
  assumes "msrbatch_apply_allowlist h n on \<sigma> ops = (None, ops')" and "y \<in> set ops'"
  shows "\<exists>x \<in> set ops. passed_op h n on \<sigma> x y"
  using apply_passed [OF assms(1)] assms(2) by (induction rule: list_all2_induct) auto

section \<open>What a batch returns\<close>

definition io_err :: "msr_batch_op \<Rightarrow> bool" where
  "io_err x \<longleftrightarrow> op_err x = None \<or> op_err x = Some EIO"

lemma batch_one_io: "io_err (snd (batch_one L b x))"
  by (auto simp: io_err_def batch_one_def Let_def split: option.splits)

lemma batch_on_io:
  "\<forall>x \<in> set ops. io_err x \<Longrightarrow> \<forall>x \<in> set (ops_after L c b ops). io_err x"
  by (induction ops arbitrary: b) (auto simp: batch_one_io)

lemma on_each_cpu_io:
  "\<forall>x \<in> set ops. io_err x \<Longrightarrow> \<forall>x \<in> set (snd (on_each_cpu L cs m ops)). io_err x"
proof (induction cs arbitrary: m ops)
  case Nil
  then show ?case by simp
next
  case (Cons c cs)
  show ?case unfolding on_each_cpu_Cons by (rule Cons.IH [OF batch_on_io [OF Cons.prems]])
qed

lemma first_err_io: "\<forall>x \<in> set ops. io_err x \<Longrightarrow> first_err ops = None \<or> first_err ops = Some EIO"
  by (induction ops) (auto simp: io_err_def split: option.splits)

lemma passed_op_err: "passed_op h n on \<sigma> x y \<Longrightarrow> io_err y"
  by (auto simp: passed_op_def io_err_def)

lemma passed_io: "list_all2 (passed_op h n on \<sigma>) ops ops' \<Longrightarrow> \<forall>x \<in> set ops'. io_err x"
  by (induction rule: list_all2_induct) (auto dest: passed_op_err)

text \<open>The fields \<open>err\<close> and \<open>wmask\<close> are outputs only.\<close>

lemma apply_one_ignores:
  assumes "fst (apply_one h n on \<sigma> t x) = None"
  shows "apply_one h n on \<sigma> t (x\<lparr>op_err := e, op_wmask := w\<rparr>) = apply_one h n on \<sigma> t x"
  using assms by (cases x) (auto simp: apply_one_def Let_def split: if_splits)

definition inputs_of :: "msr_batch_op \<Rightarrow> msr_batch_op" where
  "inputs_of x = x\<lparr>op_err := None, op_wmask := 0\<rparr>"

lemma inputs_of_eq:
  "inputs_of y = inputs_of x \<Longrightarrow> y = x\<lparr>op_err := op_err y, op_wmask := op_wmask y\<rparr>"
  by (cases x, cases y) (simp add: inputs_of_def)

lemma apply_loop_ignores:
  assumes "apply_loop h n on \<sigma> t None xs = (None, kops)" and "map inputs_of ys = map inputs_of xs"
  shows "apply_loop h n on \<sigma> t None ys = (None, kops)"
  using assms
proof (induction xs arbitrary: t kops ys)
  case Nil
  then show ?case by simp
next
  case (Cons x xs)
  note none = apply_loop_None [OF Cons.prems(1)]
  obtain y zs where ys: "ys = y # zs" "inputs_of y = inputs_of x" "map inputs_of zs = map inputs_of xs"
    using Cons.prems(2) by (cases ys) auto
  have y: "apply_one h n on \<sigma> t y = apply_one h n on \<sigma> t x"
    using apply_one_ignores [OF none, where e = "op_err y" and w = "op_wmask y"] inputs_of_eq [OF ys(2)] by simp
  obtain ks where ks: "apply_loop h n on \<sigma> (snd (snd (apply_one h n on \<sigma> t x))) None xs = (None, ks)"
    "kops = fst (snd (apply_one h n on \<sigma> t x)) # ks"
    using Cons.prems(1) none by (auto simp: Let_def prod_eq_iff)
  from Cons.IH [OF ks(1) ys(3)] ks(2) none show ?case
    by (simp add: Let_def ys(1) y)
qed

text \<open>Either way of allocating the mask runs the same batch, or nothing.\<close>

lemma run_batch_cases:
  assumes "run_batch E L visit m ops = (r, m', ops')"
  shows "r = Some ENOMEM \<and> m' = m \<and> ops' = ops \<or> msr_safe_batch L visit m ops = (r, m', ops')"
  using assms
  by (auto simp: run_batch_def msr_safe_batch_offstack_def msr_safe_batch_def split: option.splits if_splits)

lemma safe_batch_length: "msr_safe_batch L visit m ops = (r, m', ops') \<Longrightarrow> length ops' = length ops"
  by (simp add: msr_safe_batch_def split: prod.splits) (metis length_on_each_cpu snd_conv)

lemma run_batch_length: "run_batch E L visit m ops = (r, m', ops') \<Longrightarrow> length ops' = length ops"
  using run_batch_cases safe_batch_length by blast

lemma run_batch_err:
  assumes "run_batch E L visit m ops = (r, m', ops')" and "\<forall>x \<in> set ops. io_err x"
  shows "r \<in> {None, Some EIO, Some ENOMEM} \<and> (r = Some ENOMEM \<longrightarrow> m' = m)"
proof -
  have "first_err (snd (on_each_cpu L cs m ops)) \<in> {None, Some EIO}" for cs
    using first_err_io [OF on_each_cpu_io [OF assms(2)], of L cs m] by simp
  then have "msr_safe_batch L visit m ops = (r, m', ops') \<Longrightarrow> r \<in> {None, Some EIO}"
    by (auto simp: msr_safe_batch_def split: prod.splits) (metis snd_conv)+
  with run_batch_cases [OF assms(1)] show ?thesis by auto
qed

section \<open>The course of an ioctl\<close>

text \<open>The ioctl past its gates: the conditions under which the batch gets checked at all.\<close>

definition admitted :: "ioctl_env \<Rightarrow> u32 \<Rightarrow> u32 \<Rightarrow> msr_batch_array \<Rightarrow> bool" where
  "admitted E f_mode ioc koa \<longleftrightarrow> ioc = X86_IOC_MSR_BATCH \<and> f_mode AND FMODE_READ \<noteq> 0
     \<and> desc_copy_ok E \<and> unat (oa_numops koa) \<noteq> 0 \<and> kmalloc_ok E \<and> ops_copy_ok E
     \<and> unat (oa_numops koa) \<le> length (oa_ops koa)"

abbreviation batch_ops :: "msr_batch_array \<Rightarrow> msr_batch_op list" where
  "batch_ops koa \<equiv> take (unat (oa_numops koa)) (oa_ops koa)"

lemma not_admitted:
  "\<not> admitted E f_mode ioc koa \<Longrightarrow>
     \<exists>e \<in> {ENOTTY, EBADF, EFAULT, EINVAL, E2BIG}.
       msrbatch_ioctl h n on \<sigma> L visit E f_mode ioc koa m = (Some e, m, oa_ops koa)"
  by (auto simp: admitted_def msrbatch_ioctl_def Let_def)

lemma admitted_ioctl:
  assumes "admitted E f_mode ioc koa"
    and "msrbatch_apply_allowlist h n on \<sigma> (batch_ops koa) = (r, kops)"
  shows "msrbatch_ioctl h n on \<sigma> L visit E f_mode ioc koa m =
    (case r of
       Some err \<Rightarrow> (fst (copyout_and_return E (Some err) kops (oa_ops koa)), m,
                    snd (copyout_and_return E (Some err) kops (oa_ops koa)))
     | None \<Rightarrow> (let q = run_batch E L visit m kops; c = copyout_and_return E (fst q) (snd (snd q)) (oa_ops koa)
               in (fst c, fst (snd q), snd c)))"
  using assms
  by (auto simp: admitted_def msrbatch_ioctl_def Let_def not_less case_prod_beta split: option.splits)

text \<open>Registers can change only through a batch that has passed the check.\<close>

lemma ioctl_executes:
  assumes "msrbatch_ioctl h n on \<sigma> L visit E f_mode ioc koa m = (r, m', uops')" and "m' \<noteq> m"
  obtains kops err kops' where "msrbatch_apply_allowlist h n on \<sigma> (batch_ops koa) = (None, kops)"
    and "run_batch E L visit m kops = (err, m', kops')"
    and "r = fst (copyout_and_return E err kops' (oa_ops koa))"
proof -
  have adm: "admitted E f_mode ioc koa"
  proof (rule ccontr)
    assume "\<not> admitted E f_mode ioc koa"
    from not_admitted [OF this, of h n on \<sigma> L visit m] assms show False by auto
  qed
  obtain q kops where a: "msrbatch_apply_allowlist h n on \<sigma> (batch_ops koa) = (q, kops)"
    by fastforce
  note i = admitted_ioctl [OF adm a, of L visit m]
  show thesis
  proof (cases q)
    case None
    obtain err m1 kops' where b: "run_batch E L visit m kops = (err, m1, kops')"
      by (cases "run_batch E L visit m kops")
    from i assms(1) None b have "m1 = m'" "r = fst (copyout_and_return E err kops' (oa_ops koa))"
      by (auto simp: Let_def)
    with that a b None show thesis by blast
  next
    case (Some e)
    with i assms show thesis by auto
  qed
qed

lemma copyout_all:
  "length kops \<le> copied_out E \<Longrightarrow>
     copyout_and_return E err kops uops = (err, kops @ drop (length kops) uops)"
  by (simp add: copyout_and_return_def Let_def)

lemma copyout_err:
  "fst (copyout_and_return E err kops uops) = err
    \<or> err = None \<and> copied_out E < length kops \<and> fst (copyout_and_return E err kops uops) = Some EFAULT"
  by (auto simp: copyout_and_return_def Let_def)

lemma apply_one_err: "fst (apply_one h n on \<sigma> t x) \<in> {None, Some ENXIO, Some EACCES, Some EROFS}"
  by (simp add: apply_one_def Let_def)

lemma apply_loop_errs:
  "err \<in> {None, Some ENXIO, Some EACCES, Some EROFS} \<Longrightarrow>
     fst (apply_loop h n on \<sigma> t err ops) \<in> {None, Some ENXIO, Some EACCES, Some EROFS}"
proof (induction ops arbitrary: t err)
  case Nil
  then show ?case by simp
next
  case (Cons x ops)
  have "(case fst (apply_one h n on \<sigma> t x) of Some c \<Rightarrow> Some c | None \<Rightarrow> err)
      \<in> {None, Some ENXIO, Some EACCES, Some EROFS}"
    using Cons.prems apply_one_err [of h n on \<sigma> t x] by (auto split: option.splits)
  from Cons.IH [OF this] show ?case by (simp add: Let_def)
qed

lemma apply_errs:
  "msrbatch_apply_allowlist h n on \<sigma> ops = (r, kops) \<Longrightarrow> r \<in> {None, Some ENXIO, Some EACCES, Some EROFS}"
  using apply_loop_errs [of None h n on \<sigma> 0 ops] by (simp add: msrbatch_apply_allowlist_def)

lemma apply_length: "length (snd (apply_loop h n on \<sigma> t err ops)) = length ops"
  by (induction ops arbitrary: t err) (simp_all add: Let_def)

lemma ioctl_result:
  assumes "msrbatch_ioctl h n on \<sigma> L visit E f_mode ioc koa m = (r, m', uops')"
  shows "(r \<in> {Some ENOTTY, Some EBADF, Some EFAULT, Some EINVAL, Some E2BIG, Some ENXIO, Some EACCES,
            Some EROFS, Some ENOMEM} \<and> m' = m)
    \<or> r \<in> {None, Some EIO} \<or> (r = Some EFAULT \<and> copied_out E < unat (oa_numops koa))"
proof (cases "admitted E f_mode ioc koa")
  case False
  from not_admitted [OF this, of h n on \<sigma> L visit m] assms show ?thesis by auto
next
  case adm: True
  obtain q kops where a: "msrbatch_apply_allowlist h n on \<sigma> (batch_ops koa) = (q, kops)" by fastforce
  note i = admitted_ioctl [OF adm a, of L visit m]
  show ?thesis
  proof (cases q)
    case (Some e)
    with i assms copyout_err [of E "Some e" kops "oa_ops koa"] apply_errs [OF a] show ?thesis by auto
  next
    case None
    obtain err m1 kops' where b: "run_batch E L visit m kops = (err, m1, kops')"
      by (cases "run_batch E L visit m kops")
    have "length kops = unat (oa_numops koa)"
      using apply_length [of h n on \<sigma> 0 None "batch_ops koa"] a adm
      by (simp add: msrbatch_apply_allowlist_def admitted_def)
    then have len: "length kops' = unat (oa_numops koa)" using run_batch_length [OF b] by simp
    have e: "err \<in> {None, Some EIO, Some ENOMEM} \<and> (err = Some ENOMEM \<longrightarrow> m1 = m)"
      using run_batch_err [OF b passed_io [OF apply_passed]] a None by blast
    from i assms None b have "m1 = m'" "r = fst (copyout_and_return E err kops' (oa_ops koa))"
      by (auto simp: Let_def)
    with e len copyout_err [of E err kops' "oa_ops koa"] show ?thesis by auto
  qed
qed

lemma length_copyout:
  "length kops \<le> length uops \<Longrightarrow> length (snd (copyout_and_return E err kops uops)) = length uops"
  by (auto simp: copyout_and_return_def Let_def)

lemma ioctl_length:
  assumes "msrbatch_ioctl h n on \<sigma> L visit E f_mode ioc koa m = (r, m', uops')"
  shows "length uops' = length (oa_ops koa)"
proof (cases "admitted E f_mode ioc koa")
  case False
  from not_admitted [OF this, of h n on \<sigma> L visit m] assms show ?thesis by auto
next
  case True
  obtain q kops where a: "msrbatch_apply_allowlist h n on \<sigma> (batch_ops koa) = (q, kops)" by fastforce
  then have "length kops = length (batch_ops koa)"
    using apply_length [of h n on \<sigma> 0 None "batch_ops koa"] by (simp add: msrbatch_apply_allowlist_def)
  then have "length kops \<le> length (oa_ops koa)" by simp
  moreover have "length (snd (snd (run_batch E L visit m kops))) = length kops"
    by (metis prod.collapse run_batch_length)
  ultimately show ?thesis
    using admitted_ioctl [OF True a, of L visit m] assms length_copyout
    by (auto simp: Let_def split: option.splits)
qed

text \<open>
  An admitted batch whose operations the allowlist allows, in every environment: \<open>checked_ops\<close> is
  what the check makes of it.
\<close>

definition checked_ops :: "(u64 \<rightharpoonup> u64) \<Rightarrow> msr_batch_op list \<Rightarrow> msr_batch_op list" where
  "checked_ops policy = map (\<lambda>x. x\<lparr>op_err := None, op_wmask := the (policy (ucast (op_msr x)))\<rparr>)"

lemma length_checked_ops [simp]: "length (checked_ops policy ops) = length ops"
  by (simp add: checked_ops_def)

lemma annotate_allowed:
  assumes "\<forall>x \<in> set ops. check_op policy n on x = None"
  shows "map (annotate_op policy n on) ops = checked_ops policy ops"
  unfolding checked_ops_def using assms
  by (intro map_cong refl) (auto simp: annotate_op_def check_op_def Let_def split: if_splits option.splits)

lemma run_batch_eq:
  "run_batch E L visit m ops =
     (if cpumask_zalloc E = Some False then (Some ENOMEM, m, ops) else msr_safe_batch L visit m ops)"
  by (auto simp: run_batch_def msr_safe_batch_offstack_def msr_safe_batch_def split: option.splits)

lemma allowed_outcome:
  assumes "al_inv h G" and "admitted E f_mode ioc koa"
    and "\<forall>x \<in> set (batch_ops koa). check_op (al_map G) n on x = None"
    and "run_batch E L visit m (checked_ops (al_map G) (batch_ops koa)) = (r, m', ops')"
  shows "msrbatch_ioctl h n on (\<lambda>_. G) L visit E f_mode ioc koa m =
    (if copied_out E < unat (oa_numops koa) \<and> r = None then Some EFAULT else r, m',
     take (copied_out E) ops' @ drop (min (copied_out E) (unat (oa_numops koa))) (oa_ops koa))"
proof -
  have none: "last_err (map (check_op (al_map G) n on) (batch_ops koa)) = None"
    using assms(3) by (simp add: last_err_None)
  have "length (batch_ops koa) = unat (oa_numops koa)" using assms(2) by (simp add: admitted_def)
  then have len: "length ops' = unat (oa_numops koa)" using run_batch_length [OF assms(4)] by simp
  have "take (min (copied_out E) (length ops')) ops' = take (copied_out E) ops'" by (simp add: min_def)
  then have "copyout_and_return E r ops' (oa_ops koa) =
      (if copied_out E < unat (oa_numops koa) \<and> r = None then Some EFAULT else r,
       take (copied_out E) ops' @ drop (min (copied_out E) (unat (oa_numops koa))) (oa_ops koa))"
    unfolding copyout_and_return_def Let_def len by (auto simp: min_less_iff_disj)
  with admitted_ioctl [OF assms(2) apply_constant [OF assms(1)], of n on L visit m] assms(4)
  show ?thesis by (simp add: none annotate_allowed [OF assms(3)] Let_def)
qed

lemma allowed_ioctl:
  assumes "al_inv h G" and "admitted E f_mode ioc koa"
    and "unat (oa_numops koa) \<le> copied_out E" and "cpumask_zalloc E = None"
    and "\<forall>x \<in> set (batch_ops koa). check_op (al_map G) n on x = None"
    and "msr_safe_batch L visit m
      (map (\<lambda>x. x\<lparr>op_err := None, op_wmask := the (al_map G (ucast (op_msr x)))\<rparr>) (batch_ops koa)) = (r, m', ops')"
  shows "msrbatch_ioctl h n on (\<lambda>_. G) L visit E f_mode ioc koa m =
    (r, m', ops' @ drop (unat (oa_numops koa)) (oa_ops koa))"
proof -
  have "run_batch E L visit m (checked_ops (al_map G) (batch_ops koa)) = (r, m', ops')"
    using assms(4,6) by (simp add: run_batch_eq checked_ops_def)
  note out = allowed_outcome [OF assms(1,2,5) this]
  have "length ops' = unat (oa_numops koa)"
    using safe_batch_length [OF assms(6)] assms(2) by (simp add: admitted_def)
  with assms(3) out show ?thesis by simp
qed

text \<open>A bit changes only where an allowlist that was loaded meanwhile allows it.\<close>

lemma ioctl_bits:
  assumes "\<forall>t. al_inv h (\<sigma> t)" and "local_view view L" and "visit_ok online visit"
    and "msrbatch_ioctl h n on \<sigma> L visit E f_mode ioc koa m = (r, m', uops')"
    and "k < 64" and "bit (view (m' c) reg) k \<noteq> bit (view (m c) reg) k"
  shows "online c \<and> (\<exists>t w. al_map (\<sigma> t) (ucast reg) = Some w \<and> bit w k)"
proof -
  from assms(6) have "m' \<noteq> m" by auto
  with assms(4) obtain kops err kops' where
    a: "msrbatch_apply_allowlist h n on \<sigma> (batch_ops koa) = (None, kops)"
    and b: "run_batch E L visit m kops = (err, m', kops')"
    by (rule ioctl_executes)
  from run_batch_cases [OF b] \<open>m' \<noteq> m\<close> have "msr_safe_batch L visit m kops = (err, m', kops')" by blast
  from safe_batch_bits [OF assms(2,3) this assms(5,6)] obtain y
    where y: "online c" "y \<in> set kops" "op_msr y = reg" "bit (op_wmask y) k" by blast
  obtain x where "passed_op h n on \<sigma> x y"
    using apply_passed_mem [OF a y(2)] by blast
  then obtain t where "op_wmask y = msr_allowlist_writemask h (\<sigma> t) (ucast reg)"
    using y(3) by (auto simp: passed_op_def)
  with y(4) writemask_al_map [of h "\<sigma> t" "ucast reg"] assms(1)
  have "\<exists>w. al_map (\<sigma> t) (ucast reg) = Some w \<and> bit w k" by (auto split: option.splits)
  with y(1) show ?thesis by blast
qed

section \<open>Properties\<close>

text \<open>An environment in which every kernel call succeeds, and a batch for the sample table.\<close>

definition ioctl_ok :: ioctl_env where
  "ioctl_ok = \<lparr>desc_copy_ok = True, kmalloc_ok = True, ops_copy_ok = True, copied_out = 8,
     cpumask_zalloc = None\<rparr>"

definition sample_write :: msr_batch_op where
  "sample_write = \<lparr>op_cpu = 0, op_isrdmsr = 0, op_err = None, op_msr = 0x199, op_msrdata = 0xABCD,
     op_wmask = 0xFFFF\<rparr>"

definition wider_table :: alist where
  "wider_table = \<lparr>al_array = Some [\<lparr>e_wmask = 0xFFFF, e_msr = 0x199\<rparr>], al_numentries = 1,
     al_hash = (\<lambda>b. if b = 0x19 then [0] else [])\<rparr>"

definition sample_oa :: "msr_batch_op list \<Rightarrow> msr_batch_array" where
  "sample_oa ops = \<lparr>oa_numops = of_nat (length ops), oa_version = 0x010800, oa_ops = ops\<rparr>"

text \<open>
  C2: whatever a program passes to the batch ioctl, and however often the allowlist is
  replaced between its look-ups, a bit of a register changes only if some allowlist loaded
  during the call lists the register with a mask that has the bit; and only on a CPU that is
  online. A look-up, the search and the read of the mask it finds, is one step here, so the
  claim is one of the calls in which no allowlist is replaced between the two. The code
  releases the mutex between them; there the claim fails, as \<open>Allowlist_Race\<close> proves.
\<close>

theorem ioctl_respects_allowlist:
  assumes "\<forall>t. al_inv h (\<sigma> t)" and "local_view view L" and "visit_ok online visit"
    and "msrbatch_ioctl h n on \<sigma> L visit E f_mode ioc koa m = (r, m', uops')"
    and "k < 64" and "bit (view (m' c) reg) k \<noteq> bit (view (m c) reg) k"
  shows "online c \<and> (\<exists>t w. al_map (\<sigma> t) (ucast reg) = Some w \<and> bit w k)"
  using assms by (rule ioctl_bits)

theorem ioctl_respects_allowlist_witness:
  "\<exists>r m' uops'. msrbatch_ioctl sample_hash 2 (\<lambda>_. True) (\<lambda>_. sample_table) plain_local (visit_upto 2)
      ioctl_ok FMODE_READ X86_IOC_MSR_BATCH (sample_oa [sample_write]) (\<lambda>_ _. 0) = (r, m', uops')
    \<and> r = None \<and> m' 0 0x199 = 0xCD \<and> \<not> bit (m' 0 0x199 :: u64) 8"
proof -
  let ?io = "msrbatch_ioctl sample_hash 2 (\<lambda>_. True) (\<lambda>_. sample_table) plain_local (visit_upto 2)
      ioctl_ok FMODE_READ X86_IOC_MSR_BATCH (sample_oa [sample_write]) (\<lambda>_ _. 0)"
  obtain r m' uops' where io: "?io = (r, m', uops')" by (cases ?io)
  have c: "cpus_to_run_on [x] = {cpu_of x}" "visit_upto 2 {0} = [0]" for x
    by (simp_all add: cpus_to_run_on_def visit_upto_def upt_rec)
  have "fst ?io = None \<and> fst (snd ?io) 0 0x199 = 0xCD"
    by (simp add: msrbatch_ioctl_def Let_def sample_oa_def sample_write_def ioctl_ok_def FMODE_READ_def
        msrbatch_apply_allowlist_def apply_one_def sample_policy run_batch_def msr_safe_batch_def c
        batch_one_def plain_local_def copyout_and_return_def)
  with io have rm: "r = None" "m' 0 0x199 = 0xCD" by simp_all
  have "\<not> bit (m' 0 0x199) 8"
    using ioctl_respects_allowlist [OF _ plain_local_view visit_upto_ok io, of 8 0 "0x199"] sample_table_inv
    by (auto simp: sample_table_map)
  with io rm show ?thesis by blast
qed



text \<open>
  C20: what the ioctl does with a batch that gets past its gates and that the allowlist, which is
  not replaced during the call, allows in full. If the CPU mask is allocated from the heap and
  the allocation fails, nothing is executed and the error is ENOMEM; otherwise the batch is
  executed with the allowlist's masks in place of the user's, and the error is that of
  \<open>msr_safe_batch\<close>. The user's array gets the operations up to where the copy faults, and a
  copy that is cut short turns success, and success only, into EFAULT: the registers are then
  as after the batch.
\<close>

theorem ioctl_executes_allowed:
  assumes "al_inv h G" and "admitted E f_mode ioc koa"
    and "\<forall>x \<in> set (batch_ops koa). check_op (al_map G) n on x = None"
    and "(err, m', ops') =
      (if cpumask_zalloc E = Some False then (Some ENOMEM, m, checked_ops (al_map G) (batch_ops koa))
       else msr_safe_batch L visit m (checked_ops (al_map G) (batch_ops koa)))"
  shows "msrbatch_ioctl h n on (\<lambda>_. G) L visit E f_mode ioc koa m =
    (if copied_out E < unat (oa_numops koa) \<and> err = None then Some EFAULT else err, m',
     take (copied_out E) ops' @ drop (min (copied_out E) (unat (oa_numops koa))) (oa_ops koa))"
  by (rule allowed_outcome [OF assms(1-3)]) (simp add: run_batch_eq assms(4))

theorem ioctl_executes_allowed_witness:
  "(\<exists>ops'. msrbatch_ioctl sample_hash 2 (\<lambda>_. True) (\<lambda>_. sample_table) plain_local (visit_upto 2)
      ioctl_ok FMODE_READ X86_IOC_MSR_BATCH (sample_oa [sample_write]) (\<lambda>_ _. 5)
    = (None, \<lambda>c r. if c = 0 \<and> r = 0x199 then 0xCD else 5, ops') \<and> map op_wmask ops' = [0xFF])
   \<and> msrbatch_ioctl sample_hash 2 (\<lambda>_. True) (\<lambda>_. sample_table) plain_local (visit_upto 2)
      (ioctl_ok\<lparr>copied_out := 0\<rparr>) FMODE_READ X86_IOC_MSR_BATCH (sample_oa [sample_write]) (\<lambda>_ _. 5)
    = (Some EFAULT, \<lambda>c r. if c = 0 \<and> r = 0x199 then 0xCD else 5, [sample_write])
   \<and> fst (msrbatch_ioctl sample_hash 2 (\<lambda>_. True) (\<lambda>_. sample_table) plain_local (visit_upto 2)
      (ioctl_ok\<lparr>cpumask_zalloc := Some False\<rparr>) FMODE_READ X86_IOC_MSR_BATCH (sample_oa [sample_write]) (\<lambda>_ _. 5))
    = Some ENOMEM"
proof -
  let ?after = "\<lambda>c r. if c = 0 \<and> r = 0x199 then 0xCD else 5 :: u64"
  have c: "cpus_to_run_on [x] = {cpu_of x}" "visit_upto 2 {0} = [0]" for x
    by (simp_all add: cpus_to_run_on_def visit_upto_def upt_rec)
  have adm: "admitted (ioctl_ok\<lparr>copied_out := k, cpumask_zalloc := z\<rparr>) FMODE_READ X86_IOC_MSR_BATCH (sample_oa [sample_write])" for k z
    by (simp add: admitted_def ioctl_ok_def FMODE_READ_def sample_oa_def)
  have ops: "batch_ops (sample_oa [sample_write]) = [sample_write]" by (simp add: sample_oa_def)
  have all: "\<forall>x \<in> set (batch_ops (sample_oa [sample_write])). check_op (al_map sample_table) 2 (\<lambda>_. True) x = None"
    unfolding ops by (simp add: check_op_def sample_write_def sample_table_map)
  have kops: "checked_ops (al_map sample_table) [sample_write] = [sample_write\<lparr>op_wmask := 0xFF\<rparr>]"
    by (simp add: checked_ops_def sample_write_def sample_table_map)
  have run: "msr_safe_batch plain_local (visit_upto 2) (\<lambda>_ _. 5) [sample_write\<lparr>op_wmask := 0xFF\<rparr>]
      = (None, ?after, [sample_write\<lparr>op_wmask := 0xFF\<rparr>])"
    by (simp add: msr_safe_batch_def sample_write_def c batch_one_def plain_local_def fun_eq_iff)
  note io = ioctl_executes_allowed [where L = plain_local and visit = "visit_upto 2" and m = "\<lambda>_ _. 5",
      OF sample_table_inv _ all, unfolded ops kops run]
  have full: "msrbatch_ioctl sample_hash 2 (\<lambda>_. True) (\<lambda>_. sample_table) plain_local (visit_upto 2)
      ioctl_ok FMODE_READ X86_IOC_MSR_BATCH (sample_oa [sample_write]) (\<lambda>_ _. 5)
      = (None, ?after, [sample_write\<lparr>op_wmask := 0xFF\<rparr>])"
    using io [OF adm [of None 8], where err = None] by (simp add: sample_oa_def ioctl_ok_def)
  have cut: "msrbatch_ioctl sample_hash 2 (\<lambda>_. True) (\<lambda>_. sample_table) plain_local (visit_upto 2)
      (ioctl_ok\<lparr>copied_out := 0\<rparr>) FMODE_READ X86_IOC_MSR_BATCH (sample_oa [sample_write]) (\<lambda>_ _. 5)
      = (Some EFAULT, ?after, [sample_write])"
    using io [OF adm [of None 0], where err = None] by (simp add: sample_oa_def ioctl_ok_def)
  have "fst (msrbatch_ioctl sample_hash 2 (\<lambda>_. True) (\<lambda>_. sample_table) plain_local (visit_upto 2)
      (ioctl_ok\<lparr>cpumask_zalloc := Some False\<rparr>) FMODE_READ X86_IOC_MSR_BATCH (sample_oa [sample_write]) (\<lambda>_ _. 5))
      = Some ENOMEM"
    using io [OF adm [of "Some False" 8], where err = "Some ENOMEM"] by (simp add: sample_oa_def ioctl_ok_def)
  with full cut show ?thesis by (simp add: sample_write_def)
qed

text \<open>
  C28: what a batch does is independent of the masks and the error fields that the program
  passes in: with any other values there, a batch that passes the check is the same batch
  after it.
\<close>

theorem user_mask_ignored:
  assumes "msrbatch_apply_allowlist h n on \<sigma> xs = (None, kops)"
    and "map inputs_of ys = map inputs_of xs"
  shows "msrbatch_apply_allowlist h n on \<sigma> ys = (None, kops)"
  using apply_loop_ignores assms unfolding msrbatch_apply_allowlist_def by blast

theorem user_mask_ignored_witness:
  "msrbatch_apply_allowlist sample_hash 2 (\<lambda>_. True) (\<lambda>_. sample_table) [sample_write\<lparr>op_wmask := 7\<rparr>]
    = (None, [sample_write\<lparr>op_wmask := 0xFF\<rparr>])"
proof -
  have "msrbatch_apply_allowlist sample_hash 2 (\<lambda>_. True) (\<lambda>_. sample_table) [sample_write]
      = (None, [sample_write\<lparr>op_wmask := 0xFF\<rparr>])"
    by (simp add: msrbatch_apply_allowlist_def apply_one_def Let_def sample_policy sample_write_def)
  from user_mask_ignored [OF this, of "[sample_write\<lparr>op_wmask := 7\<rparr>]"] show ?thesis
    by (simp add: sample_write_def inputs_of_def)
qed

text \<open>
  C29: the return values of the ioctl. It returns no other error than the ones listed here,
  and registers have changed only if it returns success, EIO (one of the operations faulted)
  or EFAULT; after an EFAULT only if the copy to the user was cut short.
\<close>

theorem ioctl_return_values:
  "let (r, m', uops') = msrbatch_ioctl h n on \<sigma> L visit E f_mode ioc koa m
   in r \<in> {None, Some ENOTTY, Some EBADF, Some EFAULT, Some EINVAL, Some E2BIG, Some ENXIO, Some EACCES,
           Some EROFS, Some EIO, Some ENOMEM}
      \<and> (m' = m \<or> r = None \<or> r = Some EIO \<or> r = Some EFAULT \<and> copied_out E < unat (oa_numops koa))"
proof -
  obtain r m' uops' where io: "msrbatch_ioctl h n on \<sigma> L visit E f_mode ioc koa m = (r, m', uops')"
    by (cases "msrbatch_ioctl h n on \<sigma> L visit E f_mode ioc koa m")
  note res = ioctl_result [OF io]
  from res show ?thesis unfolding io by auto
qed

text \<open>
  A batch is not checked against one allowlist. When the allowlist is replaced while the
  ioctl checks a batch, two writes to the same register in it can pass with the masks of two
  different allowlists.
\<close>

theorem batch_mixes_allowlists:
  "\<exists>\<sigma> ops kops. (\<forall>t. al_inv sample_hash (\<sigma> t))
    \<and> msrbatch_apply_allowlist sample_hash 1 (\<lambda>_. True) \<sigma> ops = (None, kops)
    \<and> map op_msr kops = [0x199, 0x199] \<and> map op_wmask kops = [0xFF, 0xFFFF]"
proof -
  let ?\<sigma> = "\<lambda>t :: nat. if t < 2 then sample_table else wider_table"
  have inv: "al_inv sample_hash wider_table"
    by (simp add: al_inv_def tab_inv_def wider_table_def sample_hash_def) auto
  have "al_map wider_table = [0x199 \<mapsto> 0xFFFF]" by (simp add: al_map_def wider_table_def entry_pairs_def)
  then have pol: "msr_allowlist_maskexists sample_hash wider_table 0x199"
    "msr_allowlist_writemask sample_hash wider_table 0x199 = 0xFFFF"
    by (simp_all add: maskexists_al_map [OF inv] writemask_al_map [OF inv])
  have "msrbatch_apply_allowlist sample_hash 1 (\<lambda>_. True) ?\<sigma> [sample_write, sample_write]
      = (None, [sample_write\<lparr>op_wmask := 0xFF\<rparr>, sample_write\<lparr>op_wmask := 0xFFFF\<rparr>])"
    by (simp add: msrbatch_apply_allowlist_def apply_one_def Let_def sample_policy sample_write_def pol)
  moreover have "\<forall>t. al_inv sample_hash (?\<sigma> t)" using inv sample_table_inv by simp
  moreover have "map op_msr [sample_write\<lparr>op_wmask := 0xFF\<rparr>, sample_write\<lparr>op_wmask := 0xFFFF\<rparr>] = [0x199, 0x199]"
    "map op_wmask [sample_write\<lparr>op_wmask := 0xFF\<rparr>, sample_write\<lparr>op_wmask := 0xFFFF\<rparr>] = [0xFF, 0xFFFF]"
    by (simp_all add: sample_write_def)
  ultimately show ?thesis
    by - (rule exI [of _ ?\<sigma>], rule exI [of _ "[sample_write, sample_write]"],
        rule exI [of _ "[sample_write\<lparr>op_wmask := 0xFF\<rparr>, sample_write\<lparr>op_wmask := 0xFFFF\<rparr>]"],
        (intro conjI; assumption))
qed

end
