(* ===== verification/Msr_System.thy ===== *)
theory Msr_System
  imports Msr_Batch Allowlist_Dev
begin

text \<open>
  The module as a concurrent system: an administrator replaces the allowlist, CPUs go offline
  and come back, and any number of processes are inside \<open>msr_write\<close> or \<open>msrbatch_ioctl\<close> at the
  same time. A step is what happens between two points at which another process can get in:
  one look-up in the allowlist (under the mutex), one access to a register, one turn of the
  loop of \<open>__msr_safe_batch\<close> on one CPU, one write to the allowlist device. The registers
  change only as some allowlist allows that was loaded before; and an execution of the
  two functions, with allowlists loaded in between, is a run of the system. The code reads the
  mask that a look-up has found after it has released the mutex; that no allowlist is replaced
  between the two is an assumption of this theory (see \<open>Allowlist_Race\<close>).
\<close>

section \<open>The system\<close>

text \<open>
  Where a process is. In \<open>msr_write\<close>: it has the mask and is about to read the register, or it
  has, besides the data of its caller, the value that it is about to write. In \<open>msrbatch_ioctl\<close>:
  it is between two operations of the check, with the error so far, the operations checked and
  the others; or between the two look-ups for one operation; or it waits for the CPUs that
  execute the batch.
\<close>

datatype call =
    Idle
  | W_Read nat u32 u64 "u32 \<times> u32"
  | W_Store nat u32 "u32 \<times> u32" "u32 \<times> u32"
  | B_Check "errno option" "msr_batch_op list" "msr_batch_op list"
  | B_Mask "errno option" "msr_batch_op list" msr_batch_op "msr_batch_op list"
  | B_Run "nat set" "msr_batch_op list" "nat \<Rightarrow> nat"

text \<open>
  The allowlist, all allowlists loaded so far (for the statements only), the CPUs online,
  their registers, and the processes.
\<close>

record 'b msr_system =
  sys_al :: alist
  sys_seen :: "alist set"
  sys_online :: "nat set"
  sys_banks :: "nat \<Rightarrow> 'b"
  sys_calls :: "nat \<Rightarrow> call"

definition set_call :: "nat \<Rightarrow> call \<Rightarrow> 'b msr_system \<Rightarrow> 'b msr_system" where
  "set_call p c s = s\<lparr>sys_calls := (sys_calls s)(p := c)\<rparr>"

definition batch_state :: "'b msr_system \<Rightarrow> msr_batch_op list \<Rightarrow> (nat \<Rightarrow> nat) \<Rightarrow> 'b smp_state" where
  "batch_state s ops pc = \<lparr>s_banks = sys_banks s, s_ops = ops, s_pc = pc\<rparr>"

text \<open>
  The steps of a process \<open>p\<close> in \<open>msr_write\<close>: the look-up, with the early returns when the mask
  is 0 or the data cannot be copied in, the read of the register unless the mask is full, and
  the write; an access returns with an error when the CPU is offline or the register faults.
\<close>

inductive write_step :: "bucket_hash \<Rightarrow> 'b local_port \<Rightarrow> nat \<Rightarrow> 'b msr_system \<Rightarrow> 'b msr_system \<Rightarrow> bool"
  for h :: bucket_hash and L :: "'b local_port" and p :: nat where
  w_denied: "\<lbrakk>sys_calls s p = Idle; msr_allowlist_writemask h (sys_al s) (ucast (reg :: u32)) = 0\<rbrakk> \<Longrightarrow>
    write_step h L p s (set_call p Idle s)"
| w_fault: "\<lbrakk>sys_calls s p = Idle; msr_allowlist_writemask h (sys_al s) (ucast (reg :: u32)) \<noteq> 0\<rbrakk> \<Longrightarrow>
    write_step h L p s (set_call p Idle s)"
| w_lookup: "\<lbrakk>sys_calls s p = Idle; wmask = msr_allowlist_writemask h (sys_al s) (ucast reg); wmask \<noteq> 0\<rbrakk> \<Longrightarrow>
    write_step h L p s
      (set_call p (if wmask \<noteq> 0xffffffffffffffff then W_Read cpu reg wmask data else W_Store cpu reg data data) s)"
| w_read: "\<lbrakk>sys_calls s p = W_Read cpu reg wmask data; cpu \<in> sys_online s;
     rdmsr_safe L (sys_banks s cpu) reg = Some cur\<rbrakk> \<Longrightarrow>
    write_step h L p s (set_call p (W_Store cpu reg data (write_merge wmask cur data)) s)"
| w_read_fails: "\<lbrakk>sys_calls s p = W_Read cpu reg wmask data;
     cpu \<notin> sys_online s \<or> rdmsr_safe L (sys_banks s cpu) reg = None\<rbrakk> \<Longrightarrow>
    write_step h L p s (set_call p Idle s)"
| w_store: "\<lbrakk>sys_calls s p = W_Store cpu reg data (lo, hi); cpu \<in> sys_online s;
     wrmsr_safe L (sys_banks s cpu) reg lo hi = Some b\<rbrakk> \<Longrightarrow>
    write_step h L p s (set_call p Idle (s\<lparr>sys_banks := (sys_banks s)(cpu := b)\<rparr>))"
| w_store_fails: "\<lbrakk>sys_calls s p = W_Store cpu reg data (lo, hi);
     cpu \<notin> sys_online s \<or> wrmsr_safe L (sys_banks s cpu) reg lo hi = None\<rbrakk> \<Longrightarrow>
    write_step h L p s (set_call p Idle s)"

text \<open>
  The steps of \<open>p\<close> in \<open>msrbatch_ioctl\<close> from the check on. An operation that is refused leaves
  its error in the operation and in \<open>err\<close>, and the loop goes on; behind the last one the call
  returns if there was an error, or if there is no memory for the mask of CPUs; or it starts
  the batch on the CPUs that are online and returns when all of them are done.
\<close>

inductive batch_step :: "bucket_hash \<Rightarrow> nat \<Rightarrow> 'b local_port \<Rightarrow> nat \<Rightarrow> 'b msr_system \<Rightarrow> 'b msr_system \<Rightarrow> bool"
  for h :: bucket_hash and n :: nat and L :: "'b local_port" and p :: nat where
  b_start: "\<lbrakk>sys_calls s p = Idle; ops \<noteq> []\<rbrakk> \<Longrightarrow> batch_step h n L p s (set_call p (B_Check None [] ops) s)"
| b_offline: "\<lbrakk>sys_calls s p = B_Check err ys (x # xs); n \<le> cpu_of x \<or> cpu_of x \<notin> sys_online s\<rbrakk> \<Longrightarrow>
    batch_step h n L p s (set_call p (B_Check (Some ENXIO) (ys @ [x\<lparr>op_err := Some ENXIO\<rparr>]) xs) s)"
| b_unlisted: "\<lbrakk>sys_calls s p = B_Check err ys (x # xs); cpu_of x < n; cpu_of x \<in> sys_online s;
     \<not> msr_allowlist_maskexists h (sys_al s) (ucast (op_msr x))\<rbrakk> \<Longrightarrow>
    batch_step h n L p s (set_call p (B_Check (Some EACCES) (ys @ [x\<lparr>op_err := Some EACCES\<rparr>]) xs) s)"
| b_exists: "\<lbrakk>sys_calls s p = B_Check err ys (x # xs); cpu_of x < n; cpu_of x \<in> sys_online s;
     msr_allowlist_maskexists h (sys_al s) (ucast (op_msr x))\<rbrakk> \<Longrightarrow>
    batch_step h n L p s (set_call p (B_Mask err ys x xs) s)"
| b_readonly: "\<lbrakk>sys_calls s p = B_Mask err ys x xs;
     y = x\<lparr>op_err := Some EROFS, op_wmask := msr_allowlist_writemask h (sys_al s) (ucast (op_msr x))\<rparr>;
     op_wmask y = 0; op_isrdmsr y = 0\<rbrakk> \<Longrightarrow>
    batch_step h n L p s (set_call p (B_Check (Some EROFS) (ys @ [y]) xs) s)"
| b_mask: "\<lbrakk>sys_calls s p = B_Mask err ys x xs;
     y = x\<lparr>op_err := None, op_wmask := msr_allowlist_writemask h (sys_al s) (ucast (op_msr x))\<rparr>;
     op_wmask y = 0 \<longrightarrow> op_isrdmsr y \<noteq> 0\<rbrakk> \<Longrightarrow>
    batch_step h n L p s (set_call p (B_Check err (ys @ [y]) xs) s)"
| b_refused: "sys_calls s p = B_Check (Some e) ys [] \<Longrightarrow> batch_step h n L p s (set_call p Idle s)"
| b_nomem: "sys_calls s p = B_Check None ys [] \<Longrightarrow> batch_step h n L p s (set_call p Idle s)"
| b_go: "sys_calls s p = B_Check None ys [] \<Longrightarrow>
    batch_step h n L p s (set_call p (B_Run {c \<in> cpu_of ` set ys. c \<in> sys_online s} ys (\<lambda>_. 0)) s)"
| b_serve: "\<lbrakk>sys_calls s p = B_Run C ops pc; smp_step L C (batch_state s ops pc) t\<rbrakk> \<Longrightarrow>
    batch_step h n L p s (set_call p (B_Run C (s_ops t) (s_pc t)) (s\<lparr>sys_banks := s_banks t\<rparr>))"
| b_return: "\<lbrakk>sys_calls s p = B_Run C ops pc; smp_done C (batch_state s ops pc)\<rbrakk> \<Longrightarrow>
    batch_step h n L p s (set_call p Idle s)"

definition call_step :: "bucket_hash \<Rightarrow> nat \<Rightarrow> 'b local_port \<Rightarrow> nat \<Rightarrow> 'b msr_system \<Rightarrow> 'b msr_system \<Rightarrow> bool" where
  "call_step h n L p s t \<longleftrightarrow> write_step h L p s t \<or> batch_step h n L p s t"

text \<open>A step of the system: an allowlist is written, CPUs come or go, or a process moves.\<close>

inductive sys_step :: "klib \<Rightarrow> bucket_hash \<Rightarrow> nat \<Rightarrow> 'b local_port \<Rightarrow> 'b msr_system \<Rightarrow> 'b msr_system \<Rightarrow> bool"
  for K :: klib and h :: bucket_hash and n :: nat and L :: "'b local_port" where
  load: "write_allowlist K h env ubuf (sys_al s) = Some (r, G') \<Longrightarrow>
    sys_step K h n L s (s\<lparr>sys_al := G', sys_seen := insert G' (sys_seen s)\<rparr>)"
| hotplug: "sys_step K h n L s (s\<lparr>sys_online := S\<rparr>)"
| call: "call_step h n L p s t \<Longrightarrow> sys_step K h n L s t"

lemma sys_stepI:
  "write_step h L p s t \<Longrightarrow> sys_step K h n L s t" "batch_step h n L p s t \<Longrightarrow> sys_step K h n L s t"
  by (auto simp: call_step_def intro!: sys_step.call [of h n L p])

text \<open>The module has just been loaded: no allowlist, nobody inside.\<close>

definition sys_start :: "(nat \<Rightarrow> 'b) \<Rightarrow> nat set \<Rightarrow> 'b msr_system" where
  "sys_start m S = \<lparr>sys_al = al_initial, sys_seen = {al_initial}, sys_online = S, sys_banks = m,
     sys_calls = (\<lambda>_. Idle)\<rparr>"

abbreviation sys_run :: "klib \<Rightarrow> bucket_hash \<Rightarrow> nat \<Rightarrow> 'b local_port \<Rightarrow> 'b msr_system \<Rightarrow> 'b msr_system \<Rightarrow> bool" where
  "sys_run K h n L \<equiv> (sys_step K h n L)\<^sup>*\<^sup>*"

definition sys_reach :: "klib \<Rightarrow> bucket_hash \<Rightarrow> nat \<Rightarrow> 'b local_port \<Rightarrow> (nat \<Rightarrow> 'b) \<Rightarrow> 'b msr_system \<Rightarrow> bool" where
  "sys_reach K h n L m s \<longleftrightarrow> (\<exists>S. sys_run K h n L (sys_start m S) s)"

section \<open>The invariant\<close>

text \<open>Some allowlist of the set lets the bit \<open>k\<close> of the register be written.\<close>

definition may_change :: "alist set \<Rightarrow> u32 \<Rightarrow> nat \<Rightarrow> bool" where
  "may_change seen reg k \<longleftrightarrow> (\<exists>G \<in> seen. \<exists>w. al_map G (ucast reg) = Some w \<and> bit w k)"

text \<open>A 64-bit value agrees with another one on all bits that nothing lets change.\<close>

definition kept :: "alist set \<Rightarrow> u32 \<Rightarrow> u64 \<Rightarrow> u64 \<Rightarrow> bool" where
  "kept seen reg v w \<longleftrightarrow> (\<forall>k < 64. may_change seen reg k \<or> bit w k = bit v k)"

definition op_ok :: "alist set \<Rightarrow> msr_batch_op \<Rightarrow> bool" where
  "op_ok seen y \<longleftrightarrow> op_isrdmsr y \<noteq> 0 \<or> (\<exists>G \<in> seen. al_map G (ucast (op_msr y)) = Some (op_wmask y))"

fun call_ok :: "('b \<Rightarrow> u32 \<Rightarrow> u64) \<Rightarrow> (nat \<Rightarrow> 'b) \<Rightarrow> alist set \<Rightarrow> call \<Rightarrow> bool" where
  "call_ok view m seen Idle = True"
| "call_ok view m seen (W_Read c reg w d) = (\<exists>G \<in> seen. al_map G (ucast reg) = Some w)"
| "call_ok view m seen (W_Store c reg u d) = kept seen reg (view (m c) reg) (u64_of (fst d) (snd d))"
| "call_ok view m seen (B_Check err ys xs) = (err = None \<longrightarrow> (\<forall>y \<in> set ys. op_ok seen y))"
| "call_ok view m seen (B_Mask err ys x xs) = (err = None \<longrightarrow> (\<forall>y \<in> set ys. op_ok seen y))"
| "call_ok view m seen (B_Run C ops pc) = (\<forall>y \<in> set ops. op_ok seen y)"

definition sys_inv :: "bucket_hash \<Rightarrow> ('b \<Rightarrow> u32 \<Rightarrow> u64) \<Rightarrow> (nat \<Rightarrow> 'b) \<Rightarrow> 'b msr_system \<Rightarrow> bool" where
  "sys_inv h view m s \<longleftrightarrow>
     sys_al s \<in> sys_seen s \<and> (\<forall>G \<in> sys_seen s. al_inv h G) \<and>
     (\<forall>c reg. kept (sys_seen s) reg (view (m c) reg) (view (sys_banks s c) reg)) \<and>
     (\<forall>p. call_ok view m (sys_seen s) (sys_calls s p))"

lemma may_change_mono: "may_change seen reg k \<Longrightarrow> seen \<subseteq> seen' \<Longrightarrow> may_change seen' reg k"
  by (auto simp: may_change_def)

lemma kept_mono: "kept seen reg v w \<Longrightarrow> seen \<subseteq> seen' \<Longrightarrow> kept seen' reg v w"
  using may_change_mono unfolding kept_def by blast

lemma kept_refl [simp]: "kept seen reg v v"
  by (simp add: kept_def)

lemma op_ok_mono: "op_ok seen y \<Longrightarrow> seen \<subseteq> seen' \<Longrightarrow> op_ok seen' y"
  by (auto simp: op_ok_def)

lemma call_ok_mono: "call_ok view m seen c \<Longrightarrow> seen \<subseteq> seen' \<Longrightarrow> call_ok view m seen' c"
  by (cases c) (auto intro: kept_mono op_ok_mono)

text \<open>A merge with a mask that was in the allowlist once keeps what must be kept.\<close>

lemma kept_merge:
  assumes "kept seen reg v w" and "G \<in> seen" and "al_map G (ucast reg) = Some msk"
  shows "kept seen reg v (merge_bits msk w d)"
  using assms by (auto simp: kept_def bit_merge_bits may_change_def)

lemma kept_full:
  assumes "G \<in> seen" and "al_map G (ucast reg) = Some 0xffffffffffffffff"
  shows "kept seen reg v w"
proof -
  have "bit (0xffffffffffffffff :: u64) k" if "k < 64" for k
    using that unfolding all_ones by (simp add: bit_simps)
  then have "may_change seen reg k" if "k < 64" for k
    using assms that unfolding may_change_def by blast
  then show ?thesis by (simp add: kept_def)
qed

lemma kept_write:
  assumes "local_view view L" and "wrmsr_safe L b r lo hi = Some b'"
    and "\<And>reg. kept seen reg (v reg) (view b reg)" and "kept seen r (v r) (u64_of lo hi)"
  shows "kept seen reg (v reg) (view b' reg)"
  using assms by (auto simp: local_view_def)

text \<open>One turn of a CPU on an operation whose mask was in the allowlist.\<close>

lemma kept_batch_one:
  assumes "local_view view L" and "batch_one L b x = (b', x')" and "op_ok seen x"
    and "\<And>reg. kept seen reg (v reg) (view b reg)"
  shows "kept seen reg (v reg) (view b' reg)"
  using assms(3,4) batch_one_view [OF assms(1,2)] by (auto simp: op_ok_def assms(4) intro: kept_merge [OF assms(4)])

text \<open>The parts of the invariant that the steps touch.\<close>

lemma sys_invD:
  assumes "sys_inv h view m s"
  shows "sys_al s \<in> sys_seen s" and "al_inv h (sys_al s)"
    and "kept (sys_seen s) reg (view (m c) reg) (view (sys_banks s c) reg)"
    and "call_ok view m (sys_seen s) (sys_calls s p)"
  using assms by (simp_all add: sys_inv_def)

lemma inv_set_call:
  assumes "sys_inv h view m s" and "call_ok view m (sys_seen s) c"
  shows "sys_inv h view m (set_call p c s)"
  using assms by (simp add: sys_inv_def set_call_def)

lemma inv_next:
  assumes "sys_inv h view m s"
    and "call_ok view m (sys_seen s) (sys_calls s p) \<Longrightarrow> call_ok view m (sys_seen s) c"
  shows "sys_inv h view m (set_call p c s)"
  using assms sys_invD(4) [OF assms(1), of p] by (intro inv_set_call)

lemma inv_banks:
  assumes "sys_inv h view m s"
    and "\<And>c reg. kept (sys_seen s) reg (view (m c) reg) (view (b c) reg)"
  shows "sys_inv h view m (s\<lparr>sys_banks := b\<rparr>)"
  using assms by (simp add: sys_inv_def)

lemma inv_load:
  assumes "sys_inv h view m s" and "al_inv h G'"
  shows "sys_inv h view m (s\<lparr>sys_al := G', sys_seen := insert G' (sys_seen s)\<rparr>)"
  using assms unfolding sys_inv_def
  by (auto intro: kept_mono [OF _ subset_insertI] call_ok_mono [OF _ subset_insertI])

lemma inv_bank:
  assumes "sys_inv h view m s"
    and "\<And>reg. kept (sys_seen s) reg (view (m cpu) reg) (view b reg)"
  shows "sys_inv h view m (s\<lparr>sys_banks := (sys_banks s)(cpu := b)\<rparr>)"
  using assms by (intro inv_banks) (auto dest: sys_invD(3))

text \<open>The look-up of a mask, for a process that will write with it.\<close>

lemma looked_up:
  assumes "sys_inv h view m s" and "msr_allowlist_writemask h (sys_al s) (ucast reg) \<noteq> 0"
  shows "\<exists>G \<in> sys_seen s. al_map G (ucast reg) = Some (msr_allowlist_writemask h (sys_al s) (ucast reg))"
  using sys_invD(1,2) [OF assms(1)] al.readable_mask [OF _ al.writable_readable, OF _ _ assms(2)] by blast

text \<open>One turn of the loop of a batch.\<close>

lemma smp_step_kept:
  assumes "smp_step L C u t" and "local_view view L" and "\<forall>y \<in> set (s_ops u). op_ok seen y"
    and "\<And>c reg. kept seen reg (view (m c) reg) (view (s_banks u c) reg)"
  shows "(\<forall>y \<in> set (s_ops t). op_ok seen y)
    \<and> (\<forall>c reg. kept seen reg (view (m c) reg) (view (s_banks t c) reg))"
  using assms(1)
proof cases
  case (skip c)
  with assms(3,4) show ?thesis by simp
next
  case (serve c b x)
  have mem: "s_ops u ! s_pc u c \<in> set (s_ops u)" using serve(3) by simp
  with assms(3) have ok: "op_ok seen (s_ops u ! s_pc u c)" by blast
  have "op_ok seen x" using ok batch_one_frame [of L "s_banks u c" "s_ops u ! s_pc u c"] serve(5)
    by (simp add: op_ok_def)
  with assms(3) have "\<forall>y \<in> set (s_ops t). op_ok seen y"
    using serve(1) set_update_subset_insert [of "s_ops u" "s_pc u c" x] by auto
  moreover have "kept seen reg (view (m c) reg) (view b reg)" for reg
    by (rule kept_batch_one [OF assms(2) serve(5) ok assms(4)])
  ultimately show ?thesis using serve(1) assms(4) by simp
qed

text \<open>The steps of \<open>msr_write\<close> and of the loop of a batch, each with what it has looked up before.\<close>

lemma inv_w_lookup:
  assumes "sys_inv h view m s" and "msr_allowlist_writemask h (sys_al s) (ucast reg) \<noteq> 0"
    and "wmask = msr_allowlist_writemask h (sys_al s) (ucast reg)"
  shows "sys_inv h view m
    (set_call p (if wmask \<noteq> 0xffffffffffffffff then W_Read cpu reg wmask data else W_Store cpu reg data data) s)"
  using looked_up [OF assms(1,2)] assms(3) by (intro inv_set_call [OF assms(1)]) (auto intro: kept_full)

lemma inv_w_read:
  assumes "sys_inv h view m s" and "sys_calls s p = W_Read cpu reg wmask data" and "local_view view L"
    and "rdmsr_safe L (sys_banks s cpu) reg = Some cur"
  shows "sys_inv h view m (set_call p (W_Store cpu reg data (write_merge wmask cur data)) s)"
proof (rule inv_set_call [OF assms(1)])
  have cur: "u64_of (fst cur) (snd cur) = view (sys_banks s cpu) reg"
    using assms(3,4) unfolding local_view_def by (metis prod.collapse)
  from sys_invD(4) [OF assms(1), of p] assms(2)
  obtain G where "G \<in> sys_seen s" "al_map G (ucast reg) = Some wmask" by auto
  from kept_merge [OF sys_invD(3) [OF assms(1)] this] cur
  show "call_ok view m (sys_seen s) (W_Store cpu reg data (write_merge wmask cur data))"
    by (simp add: write_merge_bits)
qed

lemma inv_w_store:
  assumes "sys_inv h view m s" and "sys_calls s p = W_Store cpu reg data (lo, hi)" and "local_view view L"
    and "wrmsr_safe L (sys_banks s cpu) reg lo hi = Some b"
  shows "sys_inv h view m (set_call p Idle (s\<lparr>sys_banks := (sys_banks s)(cpu := b)\<rparr>))"
proof -
  have "kept (sys_seen s) reg (view (m cpu) reg) (u64_of lo hi)"
    using sys_invD(4) [OF assms(1), of p] assms(2) by simp
  from kept_write [OF assms(3,4) sys_invD(3) [OF assms(1)] this]
  show ?thesis by (intro inv_set_call inv_bank [OF assms(1)]) simp_all
qed

lemma inv_b_mask:
  assumes "sys_inv h view m s" and "sys_calls s p = B_Mask err ys x xs"
    and "y = x\<lparr>op_err := None, op_wmask := msr_allowlist_writemask h (sys_al s) (ucast (op_msr x))\<rparr>"
    and "op_wmask y = 0 \<longrightarrow> op_isrdmsr y \<noteq> 0"
  shows "sys_inv h view m (set_call p (B_Check err (ys @ [y]) xs) s)"
proof (rule inv_set_call [OF assms(1)])
  have "op_ok (sys_seen s) y"
    using looked_up [OF assms(1), of "op_msr x"] assms(3,4) by (auto simp: op_ok_def)
  with sys_invD(4) [OF assms(1), of p] assms(2)
  show "call_ok view m (sys_seen s) (B_Check err (ys @ [y]) xs)" by auto
qed

lemma inv_b_serve:
  assumes "sys_inv h view m s" and "sys_calls s p = B_Run C ops pc" and "local_view view L"
    and "smp_step L C (batch_state s ops pc) u"
  shows "sys_inv h view m (set_call p (B_Run C (s_ops u) (s_pc u)) (s\<lparr>sys_banks := s_banks u\<rparr>))"
proof -
  have ops: "\<forall>y \<in> set (s_ops (batch_state s ops pc)). op_ok (sys_seen s) y"
    using sys_invD(4) [OF assms(1), of p] assms(2) by (simp add: batch_state_def)
  have banks: "kept (sys_seen s) reg (view (m c) reg) (view (s_banks (batch_state s ops pc) c) reg)" for c reg
    using sys_invD(3) [OF assms(1)] by (simp add: batch_state_def)
  from smp_step_kept [OF assms(4,3) ops banks] show ?thesis
    by (intro inv_set_call inv_banks [OF assms(1)]) simp_all
qed

lemma sys_inv_write:
  assumes "write_step h L p s t" and "sys_inv h view m s" and "local_view view L"
  shows "sys_inv h view m t"
  using assms(1)
proof cases
  case w_lookup
  then show ?thesis using inv_w_lookup [OF assms(2)] by blast
next
  case w_read
  then show ?thesis using inv_w_read [OF assms(2) _ assms(3)] by blast
next
  case w_store
  then show ?thesis using inv_w_store [OF assms(2) _ assms(3)] by blast
qed (auto intro!: inv_next [OF assms(2)])

lemma sys_inv_batch:
  assumes "batch_step h n L p s t" and "sys_inv h view m s" and "local_view view L"
  shows "sys_inv h view m t"
  using assms(1)
proof cases
  case b_mask
  then show ?thesis using inv_b_mask [OF assms(2)] by blast
next
  case b_serve
  then show ?thesis using inv_b_serve [OF assms(2) _ assms(3)] by blast
qed (auto intro!: inv_next [OF assms(2)])

lemma sys_inv_step:
  assumes "sys_step K h n L s t" and "sys_inv h view m s" and "klib_ok K" and "local_view view L"
  shows "sys_inv h view m t"
  using assms(1)
proof cases
  case (load env ubuf r G')
  from write_refines [OF assms(3) sys_invD(2) [OF assms(2)], of env ubuf] load(2) have "al_inv h G'" by auto
  with inv_load [OF assms(2)] load(1) show ?thesis by simp
next
  case (hotplug S)
  with assms(2) show ?thesis by (simp add: sys_inv_def)
next
  case (call p)
  with sys_inv_write [OF _ assms(2,4)] sys_inv_batch [OF _ assms(2,4)] show ?thesis
    unfolding call_step_def by blast
qed

lemma sys_inv_start: "sys_inv h view m (sys_start m S)"
  by (simp add: sys_inv_def sys_start_def al_inv_initial)

interpretation sys: step_system "\<lambda>s. klib_ok K \<and> local_view view L \<and> (\<exists>S. s = sys_start m S)"
  "sys_step K h n L" "\<lambda>s. klib_ok K \<and> local_view view L \<and> sys_inv h view m s"
  for K h n m and L :: "'b local_port" and view
  by unfold_locales (auto intro: sys_inv_start sys_inv_step)

lemma sys_reach_inv:
  assumes "sys_reach K h n L m s" and "klib_ok K" and "local_view view L"
  shows "sys_inv h view m s"
  using sys.reachable_inv [where K = K and view = view and L = L and m = m and h = h and n = n and t = s] assms
  unfolding sys_reach_def by blast

section \<open>Executions of the two functions are runs\<close>

text \<open>
  \<open>rdmsr_safe_on_cpu\<close> and \<open>wrmsr_safe_on_cpu\<close> as the kernel documents them: the access is made
  on the CPU, if it is online.
\<close>

definition port_of :: "'b local_port \<Rightarrow> nat set \<Rightarrow> (nat \<Rightarrow> 'b) cpu_port" where
  "port_of L S =
     \<lparr>rdmsr_safe_on_cpu = (\<lambda>m c r. if c \<notin> S then Inl ENXIO
        else case rdmsr_safe L (m c) r of None \<Rightarrow> Inl EIO | Some d \<Rightarrow> Inr d),
      wrmsr_safe_on_cpu = (\<lambda>m c r lo hi. if c \<notin> S then Inl ENXIO
        else case wrmsr_safe L (m c) r lo hi of None \<Rightarrow> Inl EIO | Some b \<Rightarrow> Inr (m(c := b)))\<rparr>"

lemma port_of_view: "local_view view L \<Longrightarrow> port_view (\<lambda>m c. view (m c)) (port_of L S)"
  by (auto simp: port_view_def port_of_def local_view_def split: if_splits option.splits)

lemma set_call_same [simp]:
  "sys_al (set_call p c s) = sys_al s" "sys_online (set_call p c s) = sys_online s"
  "sys_banks (set_call p c s) = sys_banks s" "sys_calls (set_call p c s) p = c"
  "set_call p c (set_call p d s) = set_call p c s"
  "batch_state (set_call p c s) ops pc = batch_state s ops pc"
  "(set_call p c s)\<lparr>sys_banks := b\<rparr> = set_call p c (s\<lparr>sys_banks := b\<rparr>)"
  by (simp_all add: set_call_def batch_state_def)

lemma set_call_Idle: "sys_calls s p = Idle \<Longrightarrow> set_call p Idle (s\<lparr>sys_banks := b\<rparr>) = s\<lparr>sys_banks := b\<rparr>"
  by (simp add: set_call_def fun_upd_idem)

lemma set_call_al [simp]:
  "set_call p c (s\<lparr>sys_al := G, sys_seen := A\<rparr>) = (set_call p c s)\<lparr>sys_al := G, sys_seen := A\<rparr>"
  by (simp add: set_call_def)

lemma al_seen_same: "sys_al s = G \<Longrightarrow> s\<lparr>sys_al := G, sys_seen := sys_seen s\<rparr> = s"
  by auto

lemma run_step: "sys_step K h n L s t \<Longrightarrow> sys_run K h n L t u \<Longrightarrow> sys_run K h n L s u"
  by (rule converse_rtranclp_into_rtranclp)

text \<open>\<open>msr_write\<close> makes one look-up, so it sees one allowlist.\<close>

lemma store_runs:
  assumes "sys_calls s p = Idle" and "cpu \<in> sys_online s"
    and "wrmsr_safe L (sys_banks s cpu) reg (fst d) (snd d) = Some b"
  shows "sys_run K h n L (set_call p (W_Store cpu reg u d) s) (s\<lparr>sys_banks := (sys_banks s)(cpu := b)\<rparr>)"
  using sys_stepI(1) [OF w_store [of "set_call p (W_Store cpu reg u d) s" p cpu reg u "fst d" "snd d" L b h], of K n] assms
  by (auto simp: set_call_Idle)

lemma write_runs:
  assumes "sys_calls s p = Idle"
    and "msr_write h (sys_al s) (port_of L (sys_online s)) (sys_banks s) copy_ok cpu count ppos data = (Inr k, m')"
  shows "sys_run K h n L s (s\<lparr>sys_banks := m'\<rparr>)"
proof -
  define reg where "reg = msr_reg ppos"
  define wmask where "wmask = msr_allowlist_writemask h (sys_al s) (ucast reg)"
  note unf = msr_write_def Let_def reg_def [symmetric] wmask_def [symmetric] port_of_def
  have w: "wmask \<noteq> 0" using assms(2) by (auto simp: unf split: if_splits)
  note lk = sys_stepI(1) [OF w_lookup [OF assms(1) wmask_def w, of L cpu data], of K n]
  show ?thesis
  proof (cases "wmask = 0xffffffffffffffff")
    case True
    with assms(2) obtain b where "cpu \<in> sys_online s" "wrmsr_safe L (sys_banks s cpu) reg (fst data) (snd data) = Some b"
      "m' = (sys_banks s)(cpu := b)"
      by (auto simp: unf split: if_splits option.splits prod.splits)
    note st = store_runs [OF assms(1) this(1,2), of K h n] and m' = this(3)
    from lk True have "sys_step K h n L s (set_call p (W_Store cpu reg data data) s)" by simp
    from run_step [OF this st] show ?thesis unfolding m' .
  next
    case False
    with assms(2) obtain cur b where c: "cpu \<in> sys_online s" "rdmsr_safe L (sys_banks s cpu) reg = Some cur"
      "wrmsr_safe L (sys_banks s cpu) reg (fst (write_merge wmask cur data)) (snd (write_merge wmask cur data)) = Some b"
      "m' = (sys_banks s)(cpu := b)"
      by (auto simp: unf split: if_splits option.splits prod.splits)
    have "sys_step K h n L (set_call p (W_Read cpu reg wmask data) s)
        (set_call p (W_Store cpu reg data (write_merge wmask cur data)) s)"
      using sys_stepI(1) [OF w_read [of "set_call p (W_Read cpu reg wmask data) s" p cpu reg wmask data L cur h], of K n]
        c(1,2) by simp
    note rest = run_step [OF this store_runs [OF assms(1) c(1,3)]]
    from lk False have "sys_step K h n L s (set_call p (W_Read cpu reg wmask data) s)" by simp
    from run_step [OF this rest] show ?thesis unfolding c(4) .
  qed
qed

text \<open>The allowlists that writes to the allowlist device can make of another one.\<close>

definition al_loads :: "klib \<Rightarrow> bucket_hash \<Rightarrow> alist \<Rightarrow> alist \<Rightarrow> bool" where
  "al_loads K h = (\<lambda>G G'. \<exists>env ubuf r. write_allowlist K h env ubuf G = Some (r, G'))\<^sup>*\<^sup>*"

lemma loads_run:
  assumes "al_loads K h (sys_al s) G"
  shows "\<exists>A. sys_run K h n L s (s\<lparr>sys_al := G, sys_seen := A\<rparr>)"
  using assms unfolding al_loads_def
proof (induction rule: rtranclp_induct)
  case base
  have "sys_run K h n L s (s\<lparr>sys_al := sys_al s, sys_seen := sys_seen s\<rparr>)" by simp
  then show ?case by blast
next
  case (step G G')
  from step(3) obtain A where A: "sys_run K h n L s (s\<lparr>sys_al := G, sys_seen := A\<rparr>)" by blast
  from step(2) obtain env ubuf r where w: "write_allowlist K h env ubuf G = Some (r, G')" by blast
  from load [of K h env ubuf "s\<lparr>sys_al := G, sys_seen := A\<rparr>" r G' n L] w
  have "sys_step K h n L (s\<lparr>sys_al := G, sys_seen := A\<rparr>) (s\<lparr>sys_al := G', sys_seen := insert G' A\<rparr>)" by simp
  with A show ?case by (blast intro: rtranclp.rtrancl_into_rtrancl)
qed

lemma step_loads:
  assumes "batch_step h n L p s (set_call p c s)" and "al_loads K h (sys_al s) G"
  shows "\<exists>A. sys_run K h n L s ((set_call p c s)\<lparr>sys_al := G, sys_seen := A\<rparr>)"
proof -
  have "al_loads K h (sys_al (set_call p c s)) G" using assms(2) by simp
  from loads_run [OF this] obtain A where
    "sys_run K h n L (set_call p c s) ((set_call p c s)\<lparr>sys_al := G, sys_seen := A\<rparr>)" by blast
  from run_step [OF sys_stepI(2) [OF assms(1)] this] show ?thesis by blast
qed

text \<open>One turn of the loop of the check, and the loop, under a schedule of such allowlists.\<close>

lemma mask_runs:
  assumes "sys_al s = \<sigma> (Suc t)" and "sys_calls s p = B_Mask err ys x xs"
    and "\<forall>t. al_loads K h (\<sigma> t) (\<sigma> (Suc t))"
    and "cpu_of x < n" and "cpu_of x \<in> sys_online s" and "msr_allowlist_maskexists h (\<sigma> t) (ucast (op_msr x))"
    and "apply_one h n (\<lambda>c. c \<in> sys_online s) \<sigma> t x = (e, x', t')"
  shows "\<exists>A. sys_run K h n L s ((set_call p (B_Check (case e of Some c \<Rightarrow> Some c | None \<Rightarrow> err) (ys @ [x']) xs) s)
    \<lparr>sys_al := \<sigma> t', sys_seen := A\<rparr>)"
proof -
  have ld: "al_loads K h (sys_al s) (\<sigma> (Suc (Suc t)))" using assms(1,3) by simp
  show ?thesis
  proof (cases "msr_allowlist_writemask h (\<sigma> (Suc t)) (ucast (op_msr x)) = 0 \<and> op_isrdmsr x = 0")
    case True
    then have "e = Some EROFS" "t' = Suc (Suc t)"
      "x' = x\<lparr>op_err := Some EROFS, op_wmask := msr_allowlist_writemask h (sys_al s) (ucast (op_msr x))\<rparr>"
      using assms(1,4-7) by (auto simp: apply_one_def Let_def)
    with step_loads [OF b_readonly [OF assms(2), of x'] ld] True assms(1) show ?thesis by simp
  next
    case False
    then have "e = None" "t' = Suc (Suc t)"
      "x' = x\<lparr>op_err := None, op_wmask := msr_allowlist_writemask h (sys_al s) (ucast (op_msr x))\<rparr>"
      using assms(1,4-7) by (auto simp: apply_one_def Let_def split: if_splits)
    with step_loads [OF b_mask [OF assms(2), of x'] ld] False assms(1) show ?thesis by simp
  qed
qed

lemma check_one_runs:
  assumes "sys_al s = \<sigma> t" and "sys_calls s p = B_Check err ys (x # xs)"
    and "\<forall>t. al_loads K h (\<sigma> t) (\<sigma> (Suc t))"
    and "apply_one h n (\<lambda>c. c \<in> sys_online s) \<sigma> t x = (e, x', t')"
  shows "\<exists>A. sys_run K h n L s ((set_call p (B_Check (case e of Some c \<Rightarrow> Some c | None \<Rightarrow> err) (ys @ [x']) xs) s)
    \<lparr>sys_al := \<sigma> t', sys_seen := A\<rparr>)"
proof -
  let ?rn = "ucast (op_msr x) :: u64"
  consider (off) "n \<le> cpu_of x \<or> cpu_of x \<notin> sys_online s"
    | (unlisted) "cpu_of x < n" "cpu_of x \<in> sys_online s" "\<not> msr_allowlist_maskexists h (\<sigma> t) ?rn"
    | (listed) "cpu_of x < n" "cpu_of x \<in> sys_online s" "msr_allowlist_maskexists h (\<sigma> t) ?rn" by linarith
  then show ?thesis
  proof cases
    case off
    then have e: "e = Some ENXIO" "x' = x\<lparr>op_err := Some ENXIO\<rparr>" "t' = t"
      using assms(4) by (auto simp: apply_one_def Let_def)
    have "al_loads K h (sys_al s) (\<sigma> t)" using assms(1) by (simp add: al_loads_def)
    with step_loads [OF b_offline [OF assms(2) off]] e show ?thesis by simp
  next
    case unlisted
    then have e: "e = Some EACCES" "x' = x\<lparr>op_err := Some EACCES\<rparr>" "t' = Suc t"
      using assms(4) by (auto simp: apply_one_def Let_def)
    with step_loads [OF b_unlisted [OF assms(2) unlisted(1,2)]] unlisted(3) assms(1,3) show ?thesis by simp
  next
    case listed
    then have ex: "msr_allowlist_maskexists h (sys_al s) ?rn" using assms(1) by simp
    have "al_loads K h (sys_al s) (\<sigma> (Suc t))" using assms(1,3) by simp
    from step_loads [OF b_exists [OF assms(2) listed(1,2) ex] this, of L] obtain A
      where 1: "sys_run K h n L s ((set_call p (B_Mask err ys x xs) s)\<lparr>sys_al := \<sigma> (Suc t), sys_seen := A\<rparr>)" by blast
    let ?s = "(set_call p (B_Mask err ys x xs) s)\<lparr>sys_al := \<sigma> (Suc t), sys_seen := A\<rparr>"
    have "\<exists>A. sys_run K h n L ?s ((set_call p (B_Check (case e of Some c \<Rightarrow> Some c | None \<Rightarrow> err) (ys @ [x']) xs) ?s)
        \<lparr>sys_al := \<sigma> t', sys_seen := A\<rparr>)"
      by (rule mask_runs [OF _ _ assms(3)]) (use listed assms(4) in simp_all)
    then obtain B where "sys_run K h n L ?s ((set_call p (B_Check (case e of Some c \<Rightarrow> Some c | None \<Rightarrow> err)
        (ys @ [x']) xs) s)\<lparr>sys_al := \<sigma> t', sys_seen := B\<rparr>)" by auto
    from rtranclp_trans [OF 1 this] show ?thesis by blast
  qed
qed

lemma check_runs:
  assumes "sys_al s = \<sigma> t" and "sys_calls s p = B_Check err ys xs" and "\<forall>t. al_loads K h (\<sigma> t) (\<sigma> (Suc t))"
    and "apply_loop h n (\<lambda>c. c \<in> sys_online s) \<sigma> t err xs = (err', zs)"
  shows "\<exists>k A. sys_run K h n L s ((set_call p (B_Check err' (ys @ zs) []) s)\<lparr>sys_al := \<sigma> k, sys_seen := A\<rparr>)"
  using assms(1,2,4)
proof (induction xs arbitrary: s t err ys zs)
  case Nil
  then have "(set_call p (B_Check err' (ys @ zs) []) s)\<lparr>sys_al := \<sigma> t, sys_seen := sys_seen s\<rparr> = s"
    by (simp add: set_call_def fun_upd_idem)
  then have "sys_run K h n L s ((set_call p (B_Check err' (ys @ zs) []) s)\<lparr>sys_al := \<sigma> t, sys_seen := sys_seen s\<rparr>)"
    by simp
  then show ?case by blast
next
  case (Cons x xs)
  obtain e x' t' where o: "apply_one h n (\<lambda>c. c \<in> sys_online s) \<sigma> t x = (e, x', t')"
    by (cases "apply_one h n (\<lambda>c. c \<in> sys_online s) \<sigma> t x")
  let ?err = "case e of Some c \<Rightarrow> Some c | None \<Rightarrow> err"
  obtain ws where w: "apply_loop h n (\<lambda>c. c \<in> sys_online s) \<sigma> t' ?err xs = (err', ws)" "zs = x' # ws"
    using Cons.prems(3) by (auto simp: o Let_def prod_eq_iff)
  obtain A where 1: "sys_run K h n L s ((set_call p (B_Check ?err (ys @ [x']) xs) s)\<lparr>sys_al := \<sigma> t', sys_seen := A\<rparr>)"
    using check_one_runs [OF Cons.prems(1,2) assms(3) o] by blast
  let ?s = "(set_call p (B_Check ?err (ys @ [x']) xs) s)\<lparr>sys_al := \<sigma> t', sys_seen := A\<rparr>"
  have "\<exists>k A. sys_run K h n L ?s ((set_call p (B_Check err' ((ys @ [x']) @ ws) []) ?s)\<lparr>sys_al := \<sigma> k, sys_seen := A\<rparr>)"
    by (rule Cons.IH) (use w(1) in simp_all)
  then obtain k B where "sys_run K h n L ?s ((set_call p (B_Check err' (ys @ zs) []) s)\<lparr>sys_al := \<sigma> k, sys_seen := B\<rparr>)"
    using w(2) by auto
  from rtranclp_trans [OF 1 this] show ?case by blast
qed

lemma smp_runs:
  assumes "(smp_step L C)\<^sup>*\<^sup>* (smp_start (sys_banks s) ops) u"
  shows "sys_run K h n L (set_call p (B_Run C ops (\<lambda>_. 0)) s)
    (set_call p (B_Run C (s_ops u) (s_pc u)) (s\<lparr>sys_banks := s_banks u\<rparr>))"
  using assms
proof (induction rule: rtranclp_induct)
  case base
  then show ?case by (simp add: smp_start_def)
next
  case (step u v)
  let ?s = "set_call p (B_Run C (s_ops u) (s_pc u)) (s\<lparr>sys_banks := s_banks u\<rparr>)"
  have "batch_state ?s (s_ops u) (s_pc u) = u" by (simp add: batch_state_def)
  with sys_stepI(2) [OF b_serve [of ?s p C "s_ops u" "s_pc u" L v h n], of K] step(2)
  have "sys_step K h n L ?s (set_call p (B_Run C (s_ops v) (s_pc v)) (s\<lparr>sys_banks := s_banks v\<rparr>))" by simp
  with step(3) show ?case by (rule rtranclp.rtrancl_into_rtrancl)
qed

lemma batch_runs:
  assumes "sys_calls s p = B_Check None ops []" and "visit_ok (\<lambda>c. c \<in> sys_online s) visit"
    and "msr_safe_batch L visit (sys_banks s) ops = (r, m', ops')"
  shows "sys_run K h n L s (set_call p Idle (s\<lparr>sys_banks := m'\<rparr>))"
proof -
  let ?C = "{c \<in> cpu_of ` set ops. c \<in> sys_online s}" and ?cs = "visit (cpus_to_run_on ops)"
  have cs: "distinct ?cs" "set ?cs = ?C"
    using assms(2) finite_cpus_to_run_on unfolding visit_ok_def set_cpus_to_run_on by auto
  obtain u where u: "smp_reach L ?C (sys_banks s) ops u" "smp_done ?C u"
    using smp_completes [OF _ smp_reach_start, of ?C L "sys_banks s" ops] by (auto simp: finite_Collect_conjI)
  have "finite ?C" by simp
  from smp_done_eq [OF smp_reach_inv [OF this u(1)] u(2) cs] assms(3) have m': "s_banks u = m'"
    by (auto simp: msr_safe_batch_def split: prod.splits)
  have 1: "sys_step K h n L s (set_call p (B_Run ?C ops (\<lambda>_. 0)) s)" by (rule sys_stepI(2) [OF b_go [OF assms(1)]])
  note 2 = smp_runs [OF u(1) [unfolded smp_reach_def], of K h n p]
  let ?s = "set_call p (B_Run ?C (s_ops u) (s_pc u)) (s\<lparr>sys_banks := s_banks u\<rparr>)"
  have "batch_state ?s (s_ops u) (s_pc u) = u" by (simp add: batch_state_def)
  with u(2) have "smp_done ?C (batch_state ?s (s_ops u) (s_pc u))" by simp
  from sys_stepI(2) [OF b_return [OF _ this, of p h n L], of K]
  have 3: "sys_step K h n L ?s (set_call p Idle (s\<lparr>sys_banks := m'\<rparr>))" by (simp add: m')
  from run_step [OF 1 rtranclp.rtrancl_into_rtrancl [OF 2 3]] show ?thesis .
qed

text \<open>What comes behind the check: the error exit, the batch, or the failed allocation.\<close>

lemma checked_runs:
  assumes "sys_calls s p = B_Check r kops []" and "visit_ok (\<lambda>c. c \<in> sys_online s) visit"
    and "m1 = (if r = None then fst (snd (run_batch E L visit (sys_banks s) kops)) else sys_banks s)"
  shows "sys_run K h n L s (set_call p Idle (s\<lparr>sys_banks := m1\<rparr>))"
proof (cases r)
  case (Some err)
  with sys_stepI(2) [OF b_refused, of s p err kops K h n L] assms(1,3) show ?thesis by auto
next
  case None
  obtain e m' kops' where b: "run_batch E L visit (sys_banks s) kops = (e, m', kops')"
    by (cases "run_batch E L visit (sys_banks s) kops")
  from run_batch_cases [OF b] show ?thesis
  proof (elim disjE conjE)
    assume "m' = sys_banks s"
    with sys_stepI(2) [OF b_nomem, of s p kops K h n L] assms(1,3) None b show ?thesis by auto
  next
    assume "msr_safe_batch L visit (sys_banks s) kops = (e, m', kops')"
    from batch_runs [OF _ assms(2) this] assms(1,3) None b show ?thesis by simp
  qed
qed

lemma ioctl_runs:
  assumes "sys_calls s p = Idle" and "visit_ok (\<lambda>c. c \<in> sys_online s) visit"
    and "sys_al s = \<sigma> 0" and "\<forall>t. al_loads K h (\<sigma> t) (\<sigma> (Suc t))"
  shows "\<exists>k A. sys_run K h n L s (s\<lparr>sys_al := \<sigma> k, sys_seen := A, sys_banks := fst (snd
    (msrbatch_ioctl h n (\<lambda>c. c \<in> sys_online s) \<sigma> L visit E f_mode ioc koa (sys_banks s)))\<rparr>)"
proof (cases "admitted E f_mode ioc koa")
  case False
  from not_admitted [OF this, of h n "\<lambda>c. c \<in> sys_online s" \<sigma> L visit "sys_banks s"]
  have "sys_run K h n L s (s\<lparr>sys_al := \<sigma> 0, sys_seen := sys_seen s, sys_banks := fst (snd
    (msrbatch_ioctl h n (\<lambda>c. c \<in> sys_online s) \<sigma> L visit E f_mode ioc koa (sys_banks s)))\<rparr>)"
    by (auto simp: assms(3) [symmetric])
  then show ?thesis by blast
next
  case True
  obtain r kops where a: "msrbatch_apply_allowlist h n (\<lambda>c. c \<in> sys_online s) \<sigma> (batch_ops koa) = (r, kops)"
    by fastforce
  have ne: "batch_ops koa \<noteq> []" using True by (auto simp: admitted_def)
  let ?s = "set_call p (B_Check None [] (batch_ops koa)) s"
  have 1: "sys_step K h n L s ?s" by (rule sys_stepI(2) [OF b_start [OF assms(1) ne]])
  have "\<exists>k A. sys_run K h n L ?s ((set_call p (B_Check r ([] @ kops) []) ?s)\<lparr>sys_al := \<sigma> k, sys_seen := A\<rparr>)"
    by (rule check_runs [where \<sigma> = \<sigma> and t = 0]) (use assms(3,4) a in \<open>simp_all add: msrbatch_apply_allowlist_def\<close>)
  then obtain k A where 2: "sys_run K h n L ?s ((set_call p (B_Check r kops []) s)\<lparr>sys_al := \<sigma> k, sys_seen := A\<rparr>)" by auto
  let ?t = "(set_call p (B_Check r kops []) s)\<lparr>sys_al := \<sigma> k, sys_seen := A\<rparr>"
  define m1 where "m1 = fst (snd (msrbatch_ioctl h n (\<lambda>c. c \<in> sys_online s) \<sigma> L visit E f_mode ioc koa (sys_banks s)))"
  have m: "m1 = (if r = None then fst (snd (run_batch E L visit (sys_banks ?t) kops)) else sys_banks ?t)"
    by (simp add: m1_def admitted_ioctl [OF True a] Let_def split: option.split)
  have 3: "sys_run K h n L ?t (set_call p Idle (?t\<lparr>sys_banks := m1\<rparr>))"
    by (rule checked_runs [OF _ _ m]) (use assms(2) in simp_all)
  have "set_call p Idle (?t\<lparr>sys_banks := m1\<rparr>) = s\<lparr>sys_al := \<sigma> k, sys_seen := A, sys_banks := m1\<rparr>"
    using assms(1) by (simp add: set_call_def fun_upd_idem)
  with run_step [OF 1 rtranclp_trans [OF 2 3]] show ?thesis unfolding m1_def [symmetric] by auto
qed

lemma sys_reach_run: "sys_run K h n L s t \<Longrightarrow> sys_reach K h n L m s \<Longrightarrow> sys_reach K h n L m t"
  unfolding sys_reach_def by (meson rtranclp_trans)

section \<open>Properties\<close>

text \<open>
  C1: the guarantee of the module as a whole. In every run of the system, with the allowlist
  replaced, CPUs going on and offline and any number of single and batch accesses interleaved
  down to the single look-up and the single register access, a bit of a register of a CPU
  differs from what it was when the module was loaded only if some allowlist loaded since then
  lists the register with a mask that has the bit. A look-up of the allowlist, search and read
  of the mask together, is one step here; the window that the code leaves between the two is
  the subject of \<open>Allowlist_Race\<close>.
\<close>

theorem registers_change_as_allowed:
  assumes "sys_reach K h n L m s" and "klib_ok K" and "local_view view L"
    and "k < 64" and "bit (view (sys_banks s c) reg) k \<noteq> bit (view (m c) reg) k"
  shows "\<exists>G \<in> sys_seen s. al_inv h G \<and> (\<exists>w. al_map G (ucast reg) = Some w \<and> bit w k)"
proof -
  note inv = sys_reach_inv [OF assms(1-3)]
  from sys_invD(3) [OF inv, of reg c] assms(4,5) have "may_change (sys_seen s) reg k"
    by (auto simp: kept_def)
  with inv show ?thesis unfolding may_change_def sys_inv_def by blast
qed

text \<open>Runs for the witnesses: the sample allowlist is loaded and a register written.\<close>

lemma sample_load:
  assumes "al_inv h G0"
  obtains r G where "write_allowlist linux_klib h all_ok sample_text G0 = Some (r, G)" and "al_inv h G"
    and "msr_allowlist_writemask h G 0x199 = 0xFFFF"
proof -
  obtain r G where w: "write_allowlist linux_klib h all_ok sample_text G0 = Some (r, G)"
    "al_inv h G" "(r, al_map G) = write_spec linux_klib all_ok sample_text (al_map G0)"
    using write_refines [OF linux_klib_ok assms, of all_ok sample_text] by auto
  have "al_map G 0x199 = Some 0xFFFF"
    using w(3) by (simp add: write_spec_def all_ok_def sample_parse sample_entries_def sample_length entry_pairs_def)
  then have "msr_allowlist_writemask h G 0x199 = 0xFFFF" using al.writemask_policy [OF w(2), of "0x199"] by simp
  with that w show ?thesis by blast
qed

lemma sample_run:
  "\<exists>s. sys_reach linux_klib ucast 2 plain_local (\<lambda>_ _. 0) s \<and> bit (sys_banks s 0 0x199) 0"
proof -
  obtain r G where w: "write_allowlist linux_klib ucast all_ok sample_text al_initial = Some (r, G)"
    and m: "msr_allowlist_writemask ucast G 0x199 = 0xFFFF"
    by (rule sample_load [OF al_inv_initial, of ucast])
  let ?s = "sys_start (\<lambda>_ _. 0) {0} :: (u32 \<Rightarrow> u64) msr_system"
  let ?t = "?s\<lparr>sys_al := G, sys_seen := insert G (sys_seen ?s)\<rparr>"
  have t: "sys_reach linux_klib ucast 2 plain_local (\<lambda>_ _. 0) ?t"
    unfolding sys_reach_def
    by (intro exI [of _ "{0}"] r_into_rtranclp sys_step.load [of linux_klib ucast all_ok sample_text _ r G])
      (simp add: sys_start_def w)
  let ?w = "msr_write ucast (sys_al ?t) (port_of plain_local (sys_online ?t)) (sys_banks ?t) True 0 8 0x199 (1, 0)"
  have e: "fst ?w = Inr 8" "bit (snd ?w 0 0x199) 0"
    by (simp_all add: msr_write_def Let_def msr_reg_def m port_of_def plain_local_def sys_start_def write_merge_def
        Let_def lo32_def hi32_def u64_of_def)
  then have "?w = (Inr 8, snd ?w)" by (metis prod.collapse)
  from write_runs [OF _ this, of 0 linux_klib 2] have "sys_run linux_klib ucast 2 plain_local ?t (?t\<lparr>sys_banks := snd ?w\<rparr>)"
    by (simp add: sys_start_def)
  from sys_reach_run [OF this t] e(2) show ?thesis by (intro exI) (auto intro: conjI)
qed

theorem registers_change_as_allowed_witness:
  "\<exists>s. sys_reach linux_klib ucast 2 plain_local (\<lambda>_ _. 0) s
    \<and> bit (sys_banks s 0 0x199) 0 \<and> (\<exists>G \<in> sys_seen s. \<exists>w. al_map G 0x199 = Some w \<and> bit w 0)"
proof -
  obtain s where s: "sys_reach linux_klib ucast 2 plain_local (\<lambda>_ _. 0) s" "bit (sys_banks s 0 0x199) 0"
    using sample_run by blast
  from registers_change_as_allowed [OF s(1) linux_klib_ok plain_local_view, of 0 0 "0x199"] s show ?thesis by auto
qed

text \<open>
  C12: the system has the executions of the two functions. \<open>msr_write\<close>, called with the allowlist
  and the CPUs of a state of the system, and \<open>msrbatch_ioctl\<close>, called on that state while
  allowlists are loaded between its look-ups by any writes to the allowlist device, leave the
  registers as some run of the system does that ends with the process outside and all else as
  it was, but for the allowlist, which is the last one loaded so far. This covers executions that return an error; the CPUs
  online stay the same during the call.
\<close>

theorem calls_are_runs:
  assumes "sys_calls s p = Idle" and "visit_ok (\<lambda>c. c \<in> sys_online s) visit"
    and "sys_al s = \<sigma> 0" and "\<forall>t. al_loads K h (\<sigma> t) (\<sigma> (Suc t))"
  shows "sys_run K h n L s (s\<lparr>sys_banks :=
      snd (msr_write h (sys_al s) (port_of L (sys_online s)) (sys_banks s) copy_ok cpu count ppos data)\<rparr>)
    \<and> (\<exists>k A. sys_run K h n L s (s\<lparr>sys_al := \<sigma> k, sys_seen := A, sys_banks := fst (snd
        (msrbatch_ioctl h n (\<lambda>c. c \<in> sys_online s) \<sigma> L visit E f_mode ioc koa (sys_banks s)))\<rparr>))"
proof
  let ?w = "msr_write h (sys_al s) (port_of L (sys_online s)) (sys_banks s) copy_ok cpu count ppos data"
  show "sys_run K h n L s (s\<lparr>sys_banks := snd ?w\<rparr>)"
  proof (cases "fst ?w")
    case (Inl e)
    then have "snd ?w = sys_banks s" using msr_write_err by (metis prod.collapse)
    then show ?thesis by simp
  next
    case (Inr k)
    then have "?w = (Inr k, snd ?w)" by (metis prod.collapse)
    from write_runs [OF assms(1) this] show ?thesis .
  qed
qed (rule ioctl_runs [OF assms])

text \<open>
  A write of 0x11 to a register with the mask 0xFF, and a batch that writes 0xABCD to it while
  an allowlist with the mask 0xFFFF is loaded between the two look-ups.
\<close>

theorem calls_are_runs_witness:
  "\<exists>s t u. sys_calls s 0 = Idle \<and> sys_banks s 0 0x199 = 0
    \<and> sys_run linux_klib sample_hash 2 plain_local s t \<and> sys_banks t 0 0x199 = 0x11
    \<and> sys_run linux_klib sample_hash 2 plain_local s u \<and> sys_banks u 0 0x199 = 0xABCD"
proof -
  obtain r G where w: "write_allowlist linux_klib sample_hash all_ok sample_text sample_table = Some (r, G)"
    and m: "msr_allowlist_writemask sample_hash G 0x199 = 0xFFFF"
    by (rule sample_load [OF sample_table_inv])
  define s where "s = (sys_start (\<lambda>_ _. 0) {..<2} :: (u32 \<Rightarrow> u64) msr_system)\<lparr>sys_al := sample_table\<rparr>"
  define \<sigma> where "\<sigma> = (\<lambda>t :: nat. if t = 0 then sample_table else G)"
  have "\<forall>t. al_loads linux_klib sample_hash (\<sigma> t) (\<sigma> (Suc t))"
    using w by (auto simp: al_loads_def \<sigma>_def)
  note runs = calls_are_runs [OF _ _ _ this, of s 0 "visit_upto 2" 2 plain_local True 0 8 "0x199" "(0x11, 0)"
      ioctl_ok FMODE_READ X86_IOC_MSR_BATCH "sample_oa [sample_write]"]
  have s: "sys_calls s 0 = Idle" "sys_banks s = (\<lambda>_ _. 0)" "sys_al s = \<sigma> 0" "sys_online s = {..<2}"
    by (simp_all add: s_def sys_start_def \<sigma>_def)
  have 1: "snd (msr_write sample_hash (sys_al s) (port_of plain_local (sys_online s)) (sys_banks s) True 0 8 0x199
      (0x11, 0)) 0 0x199 = 0x11"
    by (simp add: s \<sigma>_def msr_write_def Let_def msr_reg_def sample_policy port_of_def plain_local_def write_merge_def
        lo32_def hi32_def u64_of_def)
  have c: "cpus_to_run_on [x] = {cpu_of x}" "visit_upto 2 {0} = [0]" for x
    by (simp_all add: cpus_to_run_on_def visit_upto_def upt_rec)
  have 2: "fst (snd (msrbatch_ioctl sample_hash 2 (\<lambda>c. c \<in> sys_online s) \<sigma> plain_local (visit_upto 2) ioctl_ok
      FMODE_READ X86_IOC_MSR_BATCH (sample_oa [sample_write]) (sys_banks s))) 0 0x199 = 0xABCD"
    by (simp add: s \<sigma>_def msrbatch_ioctl_def Let_def sample_oa_def sample_write_def ioctl_ok_def FMODE_READ_def
        msrbatch_apply_allowlist_def apply_one_def sample_policy m run_batch_def msr_safe_batch_def c
        batch_one_def plain_local_def copyout_and_return_def)
  have v: "visit_ok (\<lambda>c. c \<in> sys_online s) (visit_upto 2)" using visit_upto_ok [of 2] by (simp add: s)
  from runs [OF s(1) v s(3)] obtain k A where
    r: "sys_run linux_klib sample_hash 2 plain_local s (s\<lparr>sys_banks := snd (msr_write sample_hash (sys_al s)
      (port_of plain_local (sys_online s)) (sys_banks s) True 0 8 0x199 (0x11, 0))\<rparr>)"
    "sys_run linux_klib sample_hash 2 plain_local s (s\<lparr>sys_al := \<sigma> k, sys_seen := A, sys_banks := fst (snd
      (msrbatch_ioctl sample_hash 2 (\<lambda>c. c \<in> sys_online s) \<sigma> plain_local (visit_upto 2) ioctl_ok
      FMODE_READ X86_IOC_MSR_BATCH (sample_oa [sample_write]) (sys_banks s)))\<rparr>)" by blast
  show ?thesis
    by (rule exI [of _ s], rule exI, rule exI, intro conjI, rule s(1), simp add: s(2), rule r(1), simp add: 1,
        rule r(2), simp add: 2)
qed

end
