(* ===== verification/Msr_Atomic.thy ===== *)
theory Msr_Atomic
  imports Msr_System
begin

text \<open>
  Concurrent writers. \<open>msr_write\<close> reads a register, merges the bits of its caller and writes
  the register, in two accesses between which other processes can write it too. As long as
  the allowlist is not replaced no write is lost: the whole system implements one in which
  every write is a single masked update. When it is replaced in between, a write can be lost.
\<close>

section \<open>Writes that happen at once\<close>

text \<open>The specification: a register that the allowlist \<open>A\<close> lists gets new bits inside its mask.\<close>

definition masked_write :: "(u64 \<rightharpoonup> u64) \<Rightarrow> (nat \<Rightarrow> u32 \<Rightarrow> u64) \<Rightarrow> (nat \<Rightarrow> u32 \<Rightarrow> u64) \<Rightarrow> bool" where
  "masked_write A f f' \<longleftrightarrow> (\<exists>c reg w d. A (ucast reg) = Some w \<and>
     f' = f(c := (f c)(reg := merge_bits w (f c reg) d)))"

text \<open>The system while the allowlist stays \<open>G\<close>, and what its registers show.\<close>

definition steady_step :: "klib \<Rightarrow> bucket_hash \<Rightarrow> nat \<Rightarrow> 'b local_port \<Rightarrow> alist \<Rightarrow> 'b msr_system \<Rightarrow> 'b msr_system \<Rightarrow> bool"
where
  "steady_step K h n L G s t \<longleftrightarrow> sys_step K h n L s t \<and> sys_al t = G"

definition shown :: "('b \<Rightarrow> u32 \<Rightarrow> u64) \<Rightarrow> 'b msr_system \<Rightarrow> nat \<Rightarrow> u32 \<Rightarrow> u64" where
  "shown view s = (\<lambda>c. view (sys_banks s c))"

lemma shown_other [simp]:
  "shown view (set_call p c s) = shown view s"
  "shown view (s\<lparr>sys_al := G, sys_seen := X\<rparr>) = shown view s"
  "shown view (s\<lparr>sys_online := S\<rparr>) = shown view s"
  by (simp_all add: shown_def)

lemma shown_banks: "shown view (s\<lparr>sys_banks := (sys_banks s)(c := b)\<rparr>) = (shown view s)(c := view b)"
  by (simp add: shown_def fun_eq_iff)

lemma masked_writeI:
  "A (ucast reg) = Some w \<Longrightarrow> masked_write A f (f(c := (f c)(reg := merge_bits w (f c reg) d)))"
  unfolding masked_write_def by blast

section \<open>The invariant\<close>

text \<open>
  The masks that the processes carry are those of the allowlist; and the value that a process
  is about to write is the masked update of what the register is now, not only of what it was
  when the process read it.
\<close>

definition op_steady :: "(u64 \<rightharpoonup> u64) \<Rightarrow> msr_batch_op \<Rightarrow> bool" where
  "op_steady A y \<longleftrightarrow> op_isrdmsr y \<noteq> 0 \<or> A (ucast (op_msr y)) = Some (op_wmask y)"

fun call_steady :: "(u64 \<rightharpoonup> u64) \<Rightarrow> (nat \<Rightarrow> u32 \<Rightarrow> u64) \<Rightarrow> call \<Rightarrow> bool" where
  "call_steady A f Idle = True"
| "call_steady A f (W_Read c reg w data) = (A (ucast reg) = Some w)"
| "call_steady A f (W_Store c reg data d) = (\<exists>w. A (ucast reg) = Some w \<and>
     u64_of (fst d) (snd d) = merge_bits w (f c reg) (u64_of (fst data) (snd data)))"
| "call_steady A f (B_Check err ys xs) = (err = None \<longrightarrow> (\<forall>y \<in> set ys. op_steady A y))"
| "call_steady A f (B_Mask err ys x xs) = (err = None \<longrightarrow> (\<forall>y \<in> set ys. op_steady A y))"
| "call_steady A f (B_Run C ops pc) = (\<forall>y \<in> set ops. op_steady A y)"

definition steady :: "bucket_hash \<Rightarrow> ('b \<Rightarrow> u32 \<Rightarrow> u64) \<Rightarrow> alist \<Rightarrow> 'b msr_system \<Rightarrow> bool" where
  "steady h view G s \<longleftrightarrow> sys_al s = G \<and> al_inv h G \<and>
     (\<forall>p. call_steady (al_map G) (shown view s) (sys_calls s p))"

lemma steadyD:
  assumes "steady h view G s"
  shows "sys_al s = G" and "al_inv h G" and "call_steady (al_map G) (shown view s) (sys_calls s p)"
  using assms by (simp_all add: steady_def)

text \<open>A masked update of a register keeps the values that others are about to write up to date.\<close>

lemma call_steady_write:
  assumes "call_steady A f c" and "masked_write A f f'"
  shows "call_steady A f' c"
proof (cases c)
  case (W_Store cpu reg data d)
  with assms show ?thesis by (auto simp: masked_write_def merge.upd_twice)
qed (use assms(1) in simp_all)

lemma steady_next:
  assumes "steady h view G s"
    and "call_steady (al_map G) (shown view s) (sys_calls s p) \<Longrightarrow> call_steady (al_map G) (shown view s) c"
  shows "steady h view G (set_call p c s)"
  using assms by (auto simp: steady_def) (simp add: set_call_def)

text \<open>What a step does to the registers, and that it keeps the invariant.\<close>

definition good_step :: "bucket_hash \<Rightarrow> ('b \<Rightarrow> u32 \<Rightarrow> u64) \<Rightarrow> alist \<Rightarrow> 'b msr_system \<Rightarrow> 'b msr_system \<Rightarrow> bool" where
  "good_step h view G s t \<longleftrightarrow> steady h view G t \<and>
     (shown view t = shown view s \<or> masked_write (al_map G) (shown view s) (shown view t))"

lemma good_next:
  assumes "steady h view G s"
    and "call_steady (al_map G) (shown view s) (sys_calls s p) \<Longrightarrow> call_steady (al_map G) (shown view s) c"
  shows "good_step h view G s (set_call p c s)"
  using steady_next [OF assms] by (simp add: good_step_def)

lemma good_write:
  assumes "steady h view G s" and "shown view s' = shown view s \<or> masked_write (al_map G) (shown view s) (shown view s')"
    and "sys_al s' = sys_al s" and "sys_calls s' = sys_calls s"
    and "call_steady (al_map G) (shown view s') c"
  shows "good_step h view G s (set_call p c s')"
proof -
  have "call_steady (al_map G) (shown view s') (sys_calls s' q)" for q
    using assms(2) call_steady_write [OF steadyD(3) [OF assms(1)]] steadyD(3) [OF assms(1), of q] assms(4) by auto
  then have "steady h view G s'" using steadyD(1,2) [OF assms(1)] assms(3) by (simp add: steady_def)
  from steady_next [OF this] assms(2,5) show ?thesis by (auto simp: good_step_def)
qed

text \<open>The look-up and the two accesses of \<open>msr_write\<close>.\<close>

lemma good_lookup:
  assumes "steady h view G s" and "msr_allowlist_writemask h (sys_al s) (ucast reg) \<noteq> 0"
    and "w = msr_allowlist_writemask h (sys_al s) (ucast reg)"
  shows "good_step h view G s
    (set_call p (if w \<noteq> 0xffffffffffffffff then W_Read cpu reg w data else W_Store cpu reg data data) s)"
proof (rule good_next [OF assms(1)])
  have A: "al_map G (ucast reg) = Some w"
    using al.readable_mask [OF _ al.writable_readable, OF _ _ assms(2)] steadyD(1,2) [OF assms(1)] assms(3) by simp
  have "merge_bits w old new = new" if "w = 0xffffffffffffffff" for old new
    unfolding that all_ones by (rule merge.upd_full)
  with A show "call_steady (al_map G) (shown view s)
      (if w \<noteq> 0xffffffffffffffff then W_Read cpu reg w data else W_Store cpu reg data data)" by simp
qed

lemma good_read:
  assumes "steady h view G s" and "sys_calls s p = W_Read cpu reg w data" and "local_view view L"
    and "rdmsr_safe L (sys_banks s cpu) reg = Some cur"
  shows "good_step h view G s (set_call p (W_Store cpu reg data (write_merge w cur data)) s)"
proof (rule good_next [OF assms(1)])
  have "u64_of (fst cur) (snd cur) = shown view s cpu reg"
    using assms(3,4) unfolding local_view_def shown_def by (metis prod.collapse)
  with steadyD(3) [OF assms(1), of p] assms(2)
  show "call_steady (al_map G) (shown view s) (W_Store cpu reg data (write_merge w cur data))"
    by (simp add: write_merge_bits)
qed

text \<open>The write is the masked update with the data of the caller, on the register as it is now.\<close>

lemma store_is_update:
  assumes "steady h view G s" and "sys_calls s p = W_Store cpu reg data d" and "local_view view L"
    and "wrmsr_safe L (sys_banks s cpu) reg (fst d) (snd d) = Some b"
  shows "\<exists>w. al_map G (ucast reg) = Some w \<and> view b = (view (sys_banks s cpu))(reg :=
    merge_bits w (view (sys_banks s cpu) reg) (u64_of (fst data) (snd data)))"
proof -
  have "view b = (view (sys_banks s cpu))(reg := u64_of (fst d) (snd d))"
    using assms(3,4) unfolding local_view_def by blast
  with steadyD(3) [OF assms(1), of p] assms(2) show ?thesis by (auto simp: shown_def)
qed

lemma good_store:
  assumes "steady h view G s" and "sys_calls s p = W_Store cpu reg data (lo, hi)" and "local_view view L"
    and "wrmsr_safe L (sys_banks s cpu) reg lo hi = Some b"
  shows "good_step h view G s (set_call p Idle (s\<lparr>sys_banks := (sys_banks s)(cpu := b)\<rparr>))"
proof (rule good_write [OF assms(1)])
  from store_is_update [OF assms(1-3), of b] assms(4) obtain w where w: "al_map G (ucast reg) = Some w"
    "view b = (shown view s cpu)(reg := merge_bits w (shown view s cpu reg) (u64_of (fst data) (snd data)))"
    by (auto simp: shown_def)
  show "shown view (s\<lparr>sys_banks := (sys_banks s)(cpu := b)\<rparr>) = shown view s
      \<or> masked_write (al_map G) (shown view s) (shown view (s\<lparr>sys_banks := (sys_banks s)(cpu := b)\<rparr>))"
    unfolding shown_banks w(2) using w(1) by (intro disjI2 masked_writeI)
qed simp_all

text \<open>The check of a batch, and one turn of a CPU in its loop.\<close>

lemma good_mask:
  assumes "steady h view G s" and "sys_calls s p = B_Mask err ys x xs"
    and "y = x\<lparr>op_err := None, op_wmask := msr_allowlist_writemask h (sys_al s) (ucast (op_msr x))\<rparr>"
    and "op_wmask y = 0 \<longrightarrow> op_isrdmsr y \<noteq> 0"
  shows "good_step h view G s (set_call p (B_Check err (ys @ [y]) xs) s)"
proof (rule good_next [OF assms(1)])
  have "op_steady (al_map G) y"
    using al.readable_mask [OF _ al.writable_readable] steadyD(1,2) [OF assms(1)] assms(3,4)
    by (auto simp: op_steady_def)
  with steadyD(3) [OF assms(1), of p] assms(2)
  show "call_steady (al_map G) (shown view s) (B_Check err (ys @ [y]) xs)" by auto
qed

lemma turn_is_update:
  assumes "smp_step L C u v" and "local_view view L" and "\<forall>y \<in> set (s_ops u). op_steady A y"
  shows "(\<forall>y \<in> set (s_ops v). op_steady A y) \<and>
    ((\<lambda>c. view (s_banks v c)) = (\<lambda>c. view (s_banks u c)) \<or>
     masked_write A (\<lambda>c. view (s_banks u c)) (\<lambda>c. view (s_banks v c)))"
  using assms(1)
proof cases
  case (skip c)
  with assms(3) show ?thesis by simp
next
  case (serve c b x)
  let ?x = "s_ops u ! s_pc u c"
  have mem: "?x \<in> set (s_ops u)" using serve(3) by simp
  with assms(3) have ok: "op_steady A ?x" by blast
  have "op_steady A x" using ok batch_one_frame [of L "s_banks u c" ?x] serve(5) by (simp add: op_steady_def)
  then have "\<forall>y \<in> set (s_ops v). op_steady A y"
    using serve(1) assms(3) set_update_subset_insert [of "s_ops u" "s_pc u c" x] by auto
  moreover have "(\<lambda>d. view (s_banks v d)) = (\<lambda>d. view (s_banks u d))(c := view b)"
    using serve(1) by (simp add: fun_eq_iff)
  moreover have "(\<lambda>d. view (s_banks u d))(c := view b) = (\<lambda>d. view (s_banks u d)) \<or>
      masked_write A (\<lambda>d. view (s_banks u d)) ((\<lambda>d. view (s_banks u d))(c := view b))"
    using batch_one_view [OF assms(2) serve(5)]
  proof (elim disjE conjE)
    assume "op_isrdmsr ?x = 0" "view b = (view (s_banks u c))(op_msr ?x :=
      merge_bits (op_wmask ?x) (view (s_banks u c) (op_msr ?x)) (op_msrdata ?x))"
    with ok masked_writeI [of A "op_msr ?x" "op_wmask ?x" "\<lambda>d. view (s_banks u d)" c] show ?thesis
      by (simp add: op_steady_def)
  qed auto
  ultimately show ?thesis by simp
qed

lemma good_serve:
  assumes "steady h view G s" and "sys_calls s p = B_Run C ops pc" and "local_view view L"
    and "smp_step L C (batch_state s ops pc) u"
  shows "good_step h view G s (set_call p (B_Run C (s_ops u) (s_pc u)) (s\<lparr>sys_banks := s_banks u\<rparr>))"
proof -
  have "\<forall>y \<in> set (s_ops (batch_state s ops pc)). op_steady (al_map G) y"
    using steadyD(3) [OF assms(1), of p] assms(2) by (simp add: batch_state_def)
  from turn_is_update [OF assms(4,3) this] show ?thesis
    by (intro good_write [OF assms(1)]) (simp_all add: shown_def batch_state_def)
qed

lemma write_good:
  assumes "write_step h L p s t" and "steady h view G s" and "local_view view L"
  shows "good_step h view G s t"
  using assms(1)
proof cases
  case w_lookup
  then show ?thesis using good_lookup [OF assms(2)] by blast
next
  case w_read
  then show ?thesis using good_read [OF assms(2) _ assms(3)] by blast
next
  case w_store
  then show ?thesis using good_store [OF assms(2) _ assms(3)] by blast
qed (auto intro!: good_next [OF assms(2)])

lemma batch_good:
  assumes "batch_step h n L p s t" and "steady h view G s" and "local_view view L"
  shows "good_step h view G s t"
  using assms(1)
proof cases
  case b_mask
  then show ?thesis using good_mask [OF assms(2)] by blast
next
  case b_serve
  then show ?thesis using good_serve [OF assms(2) _ assms(3)] by blast
qed (auto intro!: good_next [OF assms(2)])

lemma steady_good:
  assumes "sys_step K h n L s t" and "sys_al t = G" and "steady h view G s" and "local_view view L"
  shows "good_step h view G s t"
  using assms(1)
proof cases
  case load
  with assms(2,3) show ?thesis by (simp add: good_step_def steady_def)
next
  case hotplug
  with assms(3) show ?thesis by (simp add: good_step_def steady_def)
next
  case (call p)
  with write_good [OF _ assms(3,4)] batch_good [OF _ assms(3,4)] show ?thesis unfolding call_step_def by blast
qed

interpretation atomic: simulation "\<lambda>s. local_view view L \<and> steady h view G s" "steady_step K h n L G"
  "\<lambda>s. local_view view L \<and> steady h view G s" "shown view" "masked_write (al_map G)"
  for K h n G and L :: "'b local_port" and view
proof (unfold_locales, goal_cases)
  case (2 s t)
  with steady_good [of K h n L s t G view] show ?case by (simp add: steady_step_def good_step_def)
next
  case (3 s t)
  with steady_good [of K h n L s t G view] show ?case by (simp add: steady_step_def good_step_def)
qed

lemma steady_start: "al_inv h G \<Longrightarrow> sys_al s = G \<Longrightarrow> \<forall>p. sys_calls s p = Idle \<Longrightarrow> steady h view G s"
  by (simp add: steady_def)

section \<open>Two writers\<close>

text \<open>The two halves of \<open>msr_write\<close> for a register with a partial mask.\<close>

lemma read_half:
  assumes "sys_calls s p = Idle" and "w = msr_allowlist_writemask h (sys_al s) (ucast reg)"
    and "w \<noteq> 0" and "w \<noteq> 0xffffffffffffffff" and "cpu \<in> sys_online s"
    and "rdmsr_safe L (sys_banks s cpu) reg = Some cur"
  shows "(steady_step K h n L (sys_al s))\<^sup>*\<^sup>* s (set_call p (W_Store cpu reg data (write_merge w cur data)) s)"
proof -
  let ?t = "set_call p (W_Read cpu reg w data) s"
  have "steady_step K h n L (sys_al s) s ?t"
    using sys_stepI(1) [OF w_lookup [OF assms(1-3), of L cpu data], of K n] assms(4) by (simp add: steady_step_def)
  moreover have "steady_step K h n L (sys_al s) ?t (set_call p (W_Store cpu reg data (write_merge w cur data)) s)"
    using sys_stepI(1) [OF w_read [of ?t p cpu reg w data L cur h], of K n] assms(5,6) by (simp add: steady_step_def)
  ultimately show ?thesis by (rule converse_rtranclp_into_rtranclp [OF _ r_into_rtranclp])
qed

lemma store_half:
  assumes "sys_calls s p = W_Store cpu reg data d" and "cpu \<in> sys_online s"
    and "wrmsr_safe L (sys_banks s cpu) reg (fst d) (snd d) = Some b"
  shows "steady_step K h n L (sys_al s) s (set_call p Idle (s\<lparr>sys_banks := (sys_banks s)(cpu := b)\<rparr>))"
  using sys_stepI(1) [OF w_store [of s p cpu reg data "fst d" "snd d" L b h], of K n] assms by (simp add: steady_step_def)

lemma steady_run_sys: "(steady_step K h n L G)\<^sup>*\<^sup>* s t \<Longrightarrow> sys_run K h n L s t"
  by (induction rule: rtranclp_induct) (auto simp: steady_step_def intro: rtranclp.rtrancl_into_rtrancl)

text \<open>
  Process 0 reads register 0x199 of CPU 0, which is 0x1234, to write 0x11; before it does,
  process 1 writes 0x22. The mask is 0xFF.
\<close>

definition two_writers :: "(u32 \<Rightarrow> u64) msr_system" where
  "two_writers = (sys_start (\<lambda>_ _. 0x1234) {0})\<lparr>sys_al := sample_table\<rparr>"

lemma two_writers_run:
  "\<exists>t. (steady_step K sample_hash n plain_local sample_table)\<^sup>*\<^sup>* two_writers t
    \<and> sys_calls t 0 = W_Store 0 0x199 (0x11, 0) (0x1211, 0) \<and> sys_banks t 0 0x199 = 0x1222"
proof -
  let ?R = "steady_step K sample_hash n plain_local sample_table"
  define t1 where "t1 = set_call 0 (W_Store 0 0x199 (0x11, 0) (0x1211, 0)) two_writers"
  define t2 where "t2 = set_call 1 (W_Store 0 0x199 (0x22, 0) (0x1222, 0)) t1"
  define b :: "u32 \<Rightarrow> u64" where "b = (\<lambda>_. 0x1234)(0x199 := 0x1222)"
  define t3 where "t3 = set_call 1 Idle (t2\<lparr>sys_banks := (sys_banks t2)(0 := b)\<rparr>)"
  note unf = two_writers_def sys_start_def plain_local_def sample_policy write_merge_def Let_def
    lo32_def hi32_def u64_of_def set_call_def
  have 1: "?R\<^sup>*\<^sup>* two_writers t1"
    using read_half [of two_writers 0 "0xFF" sample_hash "0x199" 0 plain_local "(0x1234, 0)" K n "(0x11, 0)"]
    by (simp add: unf t1_def)
  have 2: "?R\<^sup>*\<^sup>* t1 t2"
    using read_half [of t1 1 "0xFF" sample_hash "0x199" 0 plain_local "(0x1234, 0)" K n "(0x22, 0)"]
    by (simp add: unf t1_def t2_def)
  have 3: "?R t2 t3"
    using store_half [of t2 1 0 "0x199" "(0x22, 0)" "(0x1222, 0)" plain_local b K sample_hash n]
    by (simp add: unf t1_def t2_def t3_def b_def)
  from 1 2 have "?R\<^sup>*\<^sup>* two_writers t2" by (rule rtranclp_trans)
  from this 3 have "?R\<^sup>*\<^sup>* two_writers t3" by (rule rtranclp.rtrancl_into_rtrancl)
  moreover have "sys_calls t3 0 = W_Store 0 0x199 (0x11, 0) (0x1211, 0)" "sys_banks t3 0 0x199 = 0x1222"
    by (simp_all add: t3_def t2_def t1_def b_def set_call_def)
  ultimately show ?thesis by blast
qed

text \<open>Two allowlists that give register 0x199 different masks.\<close>

definition low_text :: string where
  "low_text = ''0x199 0xFF'' @ [LF]"

definition high_text :: string where
  "high_text = ''0x199 0xFF00'' @ [LF]"

lemma mask_texts:
  "spec_parse linux_klib (takeWhile (\<lambda>c. c \<noteq> NUL) low_text) = Inr [\<lparr>e_wmask = 0xFF, e_msr = 0x199\<rparr>]"
  "spec_parse linux_klib (takeWhile (\<lambda>c. c \<noteq> NUL) high_text) = Inr [\<lparr>e_wmask = 0xFF00, e_msr = 0x199\<rparr>]"
  "2 < length low_text" "length low_text < MAX_WLIST_BSIZE" "2 < length high_text" "length high_text < MAX_WLIST_BSIZE"
  by (simp_all add: low_text_def high_text_def klib_eval MAX_WLIST_BSIZE_def)

lemma load_mask:
  assumes "2 < length text" and "length text < MAX_WLIST_BSIZE"
    and "spec_parse linux_klib (takeWhile (\<lambda>c. c \<noteq> NUL) text) = Inr [\<lparr>e_wmask = w, e_msr = r\<rparr>]"
  shows "\<exists>G. sys_step linux_klib ucast n L s (s\<lparr>sys_al := G, sys_seen := insert G (sys_seen s)\<rparr>)
    \<and> al_map G r = Some w \<and> msr_allowlist_writemask ucast G r = w"
proof -
  have ok: "kzalloc_ok all_ok" "copy_in_ok all_ok" "kcalloc_ok all_ok" by (simp_all add: all_ok_def)
  obtain G where G: "write_allowlist linux_klib ucast all_ok text (sys_al s) = Some (Inr (length text), G)"
    "al_inv ucast G" "al_array G = Some [\<lparr>e_wmask = w, e_msr = r\<rparr>]"
    using write_success [OF linux_klib_ok assms(1,2) ok assms(3), of ucast "sys_al s"] by auto
  from G(3) have m: "al_map G r = Some w" by (simp add: al_map_def entry_pairs_def)
  with writemask_al_map [OF G(2)] sys_step.load [OF G(1)] show ?thesis by (intro exI [of _ G]) simp
qed

section \<open>Properties\<close>

text \<open>
  C4: concurrent writes are not lost while the allowlist stays the same. However the
  accesses of the processes and of the CPUs interleave, the registers are those after some
  sequence of single masked updates; and a process inside \<open>msr_write\<close> that writes its
  register makes the update with its mask and the data of its caller on the register as it
  is at that moment, whoever has written it since the process read it.
\<close>

theorem concurrent_writes_atomic:
  assumes "al_inv h G" and "sys_al s = G" and "\<forall>p. sys_calls s p = Idle" and "local_view view L"
    and "(steady_step K h n L G)\<^sup>*\<^sup>* s t"
  shows "(masked_write (al_map G))\<^sup>*\<^sup>* (\<lambda>c. view (sys_banks s c)) (\<lambda>c. view (sys_banks t c))
    \<and> (\<forall>p cpu reg data d b. sys_calls t p = W_Store cpu reg data d \<longrightarrow>
         wrmsr_safe L (sys_banks t cpu) reg (fst d) (snd d) = Some b \<longrightarrow>
         (\<exists>w. al_map G (ucast reg) = Some w \<and> view b = (view (sys_banks t cpu))(reg :=
            merge_bits w (view (sys_banks t cpu) reg) (u64_of (fst data) (snd data)))))"
proof -
  have s: "local_view view L \<and> steady h view G s" using steady_start [OF assms(1-3)] assms(4) by simp
  from atomic.run_simulates [OF assms(5) s]
  have "(masked_write (al_map G))\<^sup>*\<^sup>* (\<lambda>c. view (sys_banks s c)) (\<lambda>c. view (sys_banks t c))"
    by (simp add: shown_def)
  moreover have "steady h view G t" using atomic.run_inv [OF assms(5) s] by simp
  ultimately show ?thesis using store_is_update [OF _ _ assms(4)] by blast
qed

theorem concurrent_writes_atomic_witness:
  "\<exists>t. (steady_step linux_klib sample_hash 2 plain_local sample_table)\<^sup>*\<^sup>* two_writers t
    \<and> sys_calls t 0 = W_Store 0 0x199 (0x11, 0) (0x1211, 0) \<and> sys_banks t 0 0x199 = 0x1222
    \<and> (\<exists>b. wrmsr_safe plain_local (sys_banks t 0) 0x199 0x1211 0 = Some b \<and> b 0x199 = merge_bits 0xFF 0x1222 0x11)"
proof -
  obtain t where t: "(steady_step linux_klib sample_hash 2 plain_local sample_table)\<^sup>*\<^sup>* two_writers t"
    "sys_calls t 0 = W_Store 0 0x199 (0x11, 0) (0x1211, 0)" "sys_banks t 0 0x199 = 0x1222"
    using two_writers_run by blast
  obtain b where b: "wrmsr_safe plain_local (sys_banks t 0) 0x199 0x1211 0 = Some b" by (simp add: plain_local_def)
  have idle: "sys_al two_writers = sample_table" "\<forall>p. sys_calls two_writers p = Idle"
    by (simp_all add: two_writers_def sys_start_def)
  have "wrmsr_safe plain_local (sys_banks t 0) 0x199 (fst (0x1211, 0)) (snd (0x1211, 0)) = Some b" using b by simp
  with concurrent_writes_atomic [OF sample_table_inv idle plain_local_view t(1), THEN conjunct2, rule_format, OF t(2)]
  have "\<exists>w. al_map sample_table 0x199 = Some w \<and> b = (sys_banks t 0)(0x199 :=
      merge_bits w (sys_banks t 0 0x199) (u64_of 0x11 0))" by simp
  then have "b 0x199 = merge_bits 0xFF 0x1222 0x11"
    using t(3) by (simp add: sample_table_map u64_of_def)
  with t b show ?thesis by blast
qed

text \<open>
  C35: a write can be lost if the allowlist is replaced in between. Process 0 has read
  register 0x199 under the mask 0xFF and is about to write it; since then an allowlist with
  the mask 0xFF00 was loaded, and process 1 has written 0xFF00 and returned. The write of
  process 0 sets the register back to what it was outside 0xFF: the bits that process 1 has
  written, which the mask of process 0 does not contain, are gone.
\<close>

theorem stale_mask_loses_write:
  "\<exists>s t. sys_reach linux_klib ucast 2 plain_local (\<lambda>_ _. 0) s
    \<and> sys_calls s 0 = W_Store 0 0x199 (1, 0) (1, 0) \<and> sys_calls s 1 = Idle
    \<and> al_map (sys_al s) 0x199 = Some 0xFF00 \<and> sys_banks s 0 0x199 = 0xFF00
    \<and> sys_step linux_klib ucast 2 plain_local s t \<and> sys_calls t 0 = Idle \<and> sys_banks t 0 0x199 = 1"
proof -
  let ?run = "sys_run linux_klib ucast 2 plain_local"
  define s0 where "s0 = (sys_start (\<lambda>_ _. 0) {0} :: (u32 \<Rightarrow> u64) msr_system)"
  obtain G1 where G1: "sys_step linux_klib ucast 2 plain_local s0 (s0\<lparr>sys_al := G1, sys_seen := insert G1 (sys_seen s0)\<rparr>)"
    "msr_allowlist_writemask ucast G1 0x199 = 0xFF"
    using load_mask [OF mask_texts(3,4,1)] by blast
  define s1 where "s1 = s0\<lparr>sys_al := G1, sys_seen := insert G1 (sys_seen s0)\<rparr>"
  define s2 where "s2 = set_call 0 (W_Store 0 0x199 (1, 0) (1, 0)) s1"
  obtain G2 where G2: "sys_step linux_klib ucast 2 plain_local s2 (s2\<lparr>sys_al := G2, sys_seen := insert G2 (sys_seen s2)\<rparr>)"
    "al_map G2 0x199 = Some 0xFF00" "msr_allowlist_writemask ucast G2 0x199 = 0xFF00"
    using load_mask [OF mask_texts(5,6,2)] by blast
  define s3 where "s3 = s2\<lparr>sys_al := G2, sys_seen := insert G2 (sys_seen s2)\<rparr>"
  define s4 where "s4 = set_call 1 (W_Store 0 0x199 (0xFF00, 0) (0xFF00, 0)) s3"
  define b :: "u32 \<Rightarrow> u64" where "b = (\<lambda>_. 0)(0x199 := 0xFF00)"
  define s5 where "s5 = set_call 1 Idle (s4\<lparr>sys_banks := (sys_banks s4)(0 := b)\<rparr>)"
  define t where "t = set_call 0 Idle (s5\<lparr>sys_banks := (sys_banks s5)(0 := b(0x199 := 1))\<rparr>)"
  note unf = s0_def sys_start_def plain_local_def write_merge_def Let_def lo32_def hi32_def u64_of_def set_call_def
  have "?run s0 s1" using G1(1) unfolding s1_def by (rule r_into_rtranclp)
  also have "?run s1 s2" by (rule steady_run_sys [where G = G1])
    (use read_half [of s1 0 "0xFF" ucast "0x199" 0 plain_local "(0, 0)" linux_klib 2 "(1, 0)"] G1(2) in
      \<open>simp add: unf s1_def s2_def\<close>)
  also have "?run s2 s3" using G2(1) unfolding s3_def by (rule r_into_rtranclp)
  also have "?run s3 s4" by (rule steady_run_sys [where G = G2])
    (use read_half [of s3 1 "0xFF00" ucast "0x199" 0 plain_local "(0, 0)" linux_klib 2 "(0xFF00, 0)"] G2(3) in
      \<open>simp add: unf s1_def s2_def s3_def s4_def\<close>)
  also have "?run s4 s5"
    using store_half [of s4 1 0 "0x199" "(0xFF00, 0)" "(0xFF00, 0)" plain_local b linux_klib ucast 2]
    by (intro r_into_rtranclp) (simp add: steady_step_def unf s1_def s2_def s3_def s4_def s5_def b_def)
  finally have "sys_reach linux_klib ucast 2 plain_local (\<lambda>_ _. 0) s5" unfolding sys_reach_def s0_def by blast
  moreover have "sys_step linux_klib ucast 2 plain_local s5 t"
    using store_half [of s5 0 0 "0x199" "(1, 0)" "(1, 0)" plain_local "b(0x199 := 1)" linux_klib ucast 2]
    by (simp add: steady_step_def unf s1_def s2_def s3_def s4_def s5_def t_def b_def)
  moreover have "sys_calls s5 0 = W_Store 0 0x199 (1, 0) (1, 0)" "sys_calls s5 1 = Idle" "sys_al s5 = G2"
    "sys_banks s5 0 0x199 = 0xFF00" "sys_calls t 0 = Idle" "sys_banks t 0 0x199 = 1"
    by (simp_all add: t_def s5_def s4_def s3_def s2_def b_def set_call_def)
  ultimately show ?thesis using G2(2) by blast
qed

end
