(* ===== verification/Msr_Progress.thy ===== *)
theory Msr_Progress
  imports Msr_System
begin

text \<open>
  Every call returns. In the concurrent system of \<open>Msr_System\<close> each step of a call uses up turns
  of it, the steps of the others do not touch them, and a call that has not returned always
  has a step: neither another process, nor a new allowlist, nor a CPU that goes offline can
  keep it waiting, and it does not wait for itself.
\<close>

section \<open>The turns of a call\<close>

text \<open>
  What is left of a call: two look-ups for each operation that is not checked yet, the start of
  the batch, the turns of the CPUs on it, and the return. Before the batch starts the number
  of CPUs is bounded by that of the operations.
\<close>

fun call_turns :: "call \<Rightarrow> nat" where
  "call_turns Idle = 0"
| "call_turns (W_Read c rn w d) = 2"
| "call_turns (W_Store c rn u d) = 1"
| "call_turns (B_Check err ys xs) = 2 * length xs + 2 + (length ys + length xs) * (length ys + length xs)"
| "call_turns (B_Mask err ys x xs) = 2 * length xs + 3 + Suc (length ys + length xs) * Suc (length ys + length xs)"
| "call_turns (B_Run C ops pc) = Suc (\<Sum>c \<in> C. length ops - pc c)"

definition finite_runs :: "'b msr_system \<Rightarrow> bool" where
  "finite_runs s \<longleftrightarrow> (\<forall>p C ops pc. sys_calls s p = B_Run C ops pc \<longrightarrow> finite C)"

lemma sys_calls_set: "sys_calls (set_call p c s) q = (if q = p then c else sys_calls s q)"
  by (simp add: set_call_def)

lemma finite_runs_upd [simp]:
  "finite_runs (s\<lparr>sys_banks := b\<rparr>) = finite_runs s" "finite_runs (s\<lparr>sys_online := S\<rparr>) = finite_runs s"
  "finite_runs (s\<lparr>sys_al := G, sys_seen := A\<rparr>) = finite_runs s"
  by (simp_all add: finite_runs_def)

lemma finite_runs_step: "sys_step K h n L s t \<Longrightarrow> finite_runs s \<Longrightarrow> finite_runs t"
proof (induction rule: sys_step.induct)
  case (call p s t)
  then show ?case unfolding call_step_def
    by (elim disjE write_step.cases batch_step.cases) (auto simp: finite_runs_def sys_calls_set split: if_splits)
qed simp_all

lemma finite_runs_start: "finite_runs (sys_start m S)"
  by (simp add: finite_runs_def sys_start_def)

text \<open>The turns of a batch that starts now.\<close>

lemma run_turns_start: "call_turns (B_Run {c \<in> cpu_of ` set ys. c \<in> S} ys (\<lambda>_. 0)) < call_turns (B_Check err ys [])"
proof -
  have "card {c \<in> cpu_of ` set ys. c \<in> S} \<le> length ys"
    by (rule order_trans [OF card_mono [of "cpu_of ` set ys"]]) (auto intro: order_trans [OF card_image_le] card_length)
  then have "card {c \<in> cpu_of ` set ys. c \<in> S} * length ys \<le> length ys * length ys" by (rule mult_le_mono1)
  then show ?thesis by (simp add: less_Suc_eq_le)
qed

lemma run_turns_serve:
  assumes "finite C" and "smp_step L C (batch_state s ops pc) t"
  shows "call_turns (B_Run C (s_ops t) (s_pc t)) < call_turns (B_Run C ops pc)"
  using smp_step_turns [OF assms] by (simp add: turns_left_def batch_state_def)

lemma write_step_turns:
  assumes "write_step h L p s t" and "sys_calls s p \<noteq> Idle"
  shows "call_turns (sys_calls t p) < call_turns (sys_calls s p)"
  using assms by (cases rule: write_step.cases) auto

lemma batch_step_turns:
  assumes "batch_step h n L p s t" and "finite_runs s" and "sys_calls s p \<noteq> Idle"
  shows "call_turns (sys_calls t p) < call_turns (sys_calls s p)"
  using assms(1)
proof cases
  case (b_serve C ops pc u)
  with assms(2) run_turns_serve [of C L s ops pc u] show ?thesis by (auto simp: finite_runs_def)
next
  case (b_go ys)
  with run_turns_start [of ys "sys_online s" None] show ?thesis by simp
qed (use assms(3) in simp_all)

text \<open>A step of another process leaves the call alone.\<close>

lemma call_step_other: "call_step h n L q s t \<Longrightarrow> q \<noteq> p \<Longrightarrow> sys_calls t p = sys_calls s p"
  unfolding call_step_def by (elim disjE write_step.cases batch_step.cases) (simp_all add: sys_calls_set)

lemma not_moved:
  assumes "sys_step K h n L s t" and "\<not> call_step h n L p s t"
  shows "sys_calls t p = sys_calls s p"
  using assms(1)
proof cases
  case (call q)
  with assms(2) show ?thesis using call_step_other by metis
qed simp_all

text \<open>A call that has not returned has a step, whatever the others have done.\<close>

lemma write_has_step:
  "sys_calls s p = W_Read cpu rn w d \<Longrightarrow> \<exists>t. write_step h L p s t"
  "sys_calls s p = W_Store cpu rn d e \<Longrightarrow> \<exists>t. write_step h L p s t"
proof -
  assume c: "sys_calls s p = W_Read cpu rn w d"
  show "\<exists>t. write_step h L p s t"
    using w_read [OF c] w_read_fails [OF c] by (cases "rdmsr_safe L (sys_banks s cpu) rn") blast+
next
  assume c: "sys_calls s p = W_Store cpu rn d e"
  then have "sys_calls s p = W_Store cpu rn d (fst e, snd e)" by simp
  from w_store [OF this] w_store_fails [OF this] show "\<exists>t. write_step h L p s t"
    by (cases "wrmsr_safe L (sys_banks s cpu) rn (fst e) (snd e)") blast+
qed

lemma check_has_step: "sys_calls s p = B_Check err ys xs \<Longrightarrow> \<exists>t. batch_step h n L p s t"
  by (cases err; cases xs) (blast intro: batch_step.intros not_le_imp_less)+

lemma mask_has_step: "sys_calls s p = B_Mask err ys x xs \<Longrightarrow> \<exists>t. batch_step h n L p s t"
proof -
  assume c: "sys_calls s p = B_Mask err ys x xs"
  let ?w = "msr_allowlist_writemask h (sys_al s) (ucast (op_msr x))"
  show "\<exists>t. batch_step h n L p s t"
  proof (cases "?w = 0 \<and> op_isrdmsr x = 0")
    case True
    with b_readonly [OF c refl, of h n L] show ?thesis by auto
  next
    case False
    with b_mask [OF c refl, of h n L] show ?thesis by auto
  qed
qed

lemma run_has_step: "sys_calls s p = B_Run C ops pc \<Longrightarrow> \<exists>t. batch_step h n L p s t"
proof -
  assume c: "sys_calls s p = B_Run C ops pc"
  from b_serve [OF c] b_return [OF c] smp_progress [of C "batch_state s ops pc" L] show "\<exists>t. batch_step h n L p s t"
    by blast
qed

lemma call_has_step:
  assumes "sys_calls s p \<noteq> Idle"
  shows "\<exists>t. sys_step K h n L s t \<and> call_step h n L p s t"
proof -
  have "\<exists>t. call_step h n L p s t"
    using assms write_has_step [of s p] check_has_step [of s p] mask_has_step [of s p] run_has_step [of s p]
    unfolding call_step_def by (cases "sys_calls s p") metis+
  then show ?thesis by (blast intro: sys_step.call)
qed

interpretation returning: fair_system "\<lambda>s. \<exists>S. s = sys_start m S" "sys_step K h n L" finite_runs
  "call_step h n L p" "\<lambda>s. sys_calls s p \<noteq> Idle" "\<lambda>s. call_turns (sys_calls s p)"
  for K h n m p and L :: "'b local_port"
proof (unfold_locales, goal_cases)
  case (1 s)
  then show ?case by (auto intro: finite_runs_start)
next
  case (2 s t)
  then show ?case by (auto intro: finite_runs_step)
next
  case (3 s t)
  then show ?case unfolding call_step_def by (auto intro: write_step_turns batch_step_turns)
next
  case (4 s t)
  then show ?case by (simp add: not_moved)
next
  case (5 s)
  then show ?case by (auto intro: call_has_step)
qed

section \<open>Property\<close>

text \<open>
  C13: every call returns. In an infinite run of the system in which process \<open>p\<close> is not denied
  for ever the steps that it has (weak fairness for \<open>p\<close> alone), whatever the other processes do
  and however often the allowlist is replaced and CPUs go off- and online, \<open>p\<close> is again and
  again outside both functions: no call of \<open>msr_write\<close> or \<open>msrbatch_ioctl\<close> lasts for ever. A call
  leaves only where the code returns, a failed access in \<open>msr_write\<close> being one such point;
  every other step, an operation of a batch that is refused or that faults among them, takes
  it on to the next point of the code. A call that tried such a thing again would not have the
  property.
\<close>

theorem every_call_returns:
  assumes "f 0 = sys_start m S" and "\<forall>i. sys_step K h n L (f i) (f (Suc i))"
    and "weakly_fair (sys_step K h n L) (call_step h n L p) f"
  shows "\<forall>i. \<exists>j \<ge> i. sys_calls (f j) p = Idle"
  using returning.ends [of f m K h n L p] assms by auto

text \<open>A process that passes a batch for a CPU that does not exist over and over.\<close>

definition no_cpu_op :: msr_batch_op where
  "no_cpu_op = sample_write\<lparr>op_cpu := 9\<rparr>"

definition batch_again :: "nat \<Rightarrow> (u32 \<Rightarrow> u64) msr_system" where
  "batch_again i = (let s = sys_start (\<lambda>_ _. 0) {0} in
     if i mod 3 = 0 then s
     else if i mod 3 = 1 then set_call 0 (B_Check None [] [no_cpu_op]) s
     else set_call 0 (B_Check (Some ENXIO) [no_cpu_op\<lparr>op_err := Some ENXIO\<rparr>] []) s)"

lemma batch_again_start: "batch_again 0 = sys_start (\<lambda>_ _. 0) {0}"
  by (simp add: batch_again_def)

lemma batch_again_step: "call_step h 1 L 0 (batch_again i) (batch_again (Suc i))"
proof -
  let ?s = "sys_start (\<lambda>_ _. 0) {0} :: (u32 \<Rightarrow> u64) msr_system"
  let ?c = "set_call 0 (B_Check None [] [no_cpu_op]) ?s"
  let ?r = "set_call 0 (B_Check (Some ENXIO) [no_cpu_op\<lparr>op_err := Some ENXIO\<rparr>] []) ?s"
  have 1: "batch_step h 1 L 0 ?s ?c" by (rule b_start) (simp_all add: sys_start_def)
  have "1 \<le> cpu_of no_cpu_op" by (simp add: no_cpu_op_def)
  then have 2: "batch_step h 1 L 0 ?c ?r" using b_offline [of ?c 0 None "[]" no_cpu_op "[]" 1 h L] by simp
  have "set_call 0 Idle ?r = ?s" by (simp add: set_call_def sys_start_def fun_upd_idem)
  moreover have "batch_step h 1 L 0 ?r (set_call 0 Idle ?r)" by (rule b_refused) simp
  ultimately have 3: "batch_step h 1 L 0 ?r ?s" by simp
  consider "i mod 3 = 0" | "i mod 3 = 1" | "i mod 3 = 2" by linarith
  then show ?thesis
    using 1 2 3 by cases (simp_all add: batch_again_def mod_Suc call_step_def)
qed

theorem every_call_returns_witness:
  "\<forall>i. \<exists>j \<ge> i. sys_calls (batch_again j) 0 = Idle"
proof -
  have "weakly_fair (sys_step linux_klib ucast 1 plain_local) (call_step ucast 1 plain_local 0) batch_again"
    using batch_again_step by (auto simp: weakly_fair_def)
  from every_call_returns [OF batch_again_start _ this] sys_step.call [OF batch_again_step] show ?thesis by blast
qed

end
