(* ===== verification/Kernel_Registry.thy ===== *)
theory Kernel_Registry
  imports Msr_Prelude
begin

text \<open>
  The part of the kernel that the module's initialisation talks to: character device
  regions, device classes, device nodes and CPU hotplug. These functions are not the
  module's, so they are parameters, the record \<open>kernel_api\<close> of functions on an unknown kernel
  state; what the kernel documents of them is stated on the registry that the state shows to
  the outside (\<open>kernel_ok\<close>). On top stands the pattern that three source files share: bring
  up a character device with a class and a node, and take it down again.
\<close>

section \<open>The kernel\<close>

text \<open>Decimal printing, for the names \<open>msr_safe%d\<close> and \<open>cpu/%u/msr_safe\<close>.\<close>

function decimal :: "nat \<Rightarrow> string" where
  "decimal n = (if n < 10 then [''0123456789'' ! n] else decimal (n div 10) @ [''0123456789'' ! (n mod 10)])"
  by pat_completeness auto
termination
  by (relation "measure id") auto

declare decimal.simps [simp del]

text \<open>
  What a kernel shows: the regions that start at minor 0, by major, with their name and
  length; class names; nodes by class, major and minor; the CPUs that are online; and whether
  this module has a hotplug callback installed.
\<close>

record registry =
  chrdevs :: "nat \<rightharpoonup> string \<times> nat"
  classes :: "string set"
  nodes :: "string \<times> nat \<times> nat \<rightharpoonup> string"
  cpus :: "nat list"
  hotplug :: bool

text \<open>
  The functions that the module calls. \<open>register_chrdev\<close> takes the number of minors, which is
  256 when the code does not give it, and returns 0 when the major it was asked for is now
  reserved, or a positive major when it was asked to choose one; a class is denoted by its
  name. The callbacks for \<open>cpuhp_setup_state\<close> are functions on the kernel's state; the
  removal takes the teardown callback, which the kernel has kept, once more.
\<close>

record 'k kernel_api =
  reg :: "'k \<Rightarrow> registry"
  register_chrdev :: "nat \<Rightarrow> nat \<Rightarrow> string \<Rightarrow> 'k \<Rightarrow> (errno + nat) \<times> 'k"
  unregister_chrdev :: "nat \<Rightarrow> nat \<Rightarrow> string \<Rightarrow> 'k \<Rightarrow> 'k"
  class_create :: "string \<Rightarrow> 'k \<Rightarrow> (errno + string) \<times> 'k"
  class_destroy :: "string \<Rightarrow> 'k \<Rightarrow> 'k"
  device_create :: "string \<Rightarrow> nat \<Rightarrow> nat \<Rightarrow> string \<Rightarrow> 'k \<Rightarrow> errno option \<times> 'k"
  device_destroy :: "string \<Rightarrow> nat \<Rightarrow> nat \<Rightarrow> 'k \<Rightarrow> 'k"
  online_cpus :: "'k \<Rightarrow> nat list"
  num_possible_cpus :: nat
  register_hotcpu_notifier :: "'k \<Rightarrow> 'k"
  unregister_hotcpu_notifier :: "'k \<Rightarrow> 'k"
  cpuhp_setup_state :: "(nat \<Rightarrow> 'k \<Rightarrow> errno option \<times> 'k) \<Rightarrow> (nat \<Rightarrow> 'k \<Rightarrow> 'k) \<Rightarrow> 'k \<Rightarrow> (errno + nat) \<times> 'k"
  cpuhp_remove_state :: "nat \<Rightarrow> (nat \<Rightarrow> 'k \<Rightarrow> 'k) \<Rightarrow> 'k \<Rightarrow> 'k"

section \<open>What the kernel documents\<close>

text \<open>A major or a class name that is taken is not handed out; a failed request changes nothing.\<close>

definition reg_major :: "nat \<Rightarrow> nat \<Rightarrow> nat" where
  "reg_major major n = (if n > 0 then n else major)"

definition add_chrdev :: "nat \<Rightarrow> nat \<Rightarrow> string \<Rightarrow> registry \<Rightarrow> registry" where
  "add_chrdev major len nm r = r\<lparr>chrdevs := (chrdevs r)(major \<mapsto> (nm, len))\<rparr>"

definition chrdev_ok :: "'k kernel_api \<Rightarrow> bool" where
  "chrdev_ok K \<longleftrightarrow>
     (\<forall>k major len nm e k'. register_chrdev K major len nm k = (Inl e, k') \<longrightarrow> reg K k' = reg K k) \<and>
     (\<forall>k major len nm n k'. register_chrdev K major len nm k = (Inr n, k') \<longrightarrow>
        reg_major major n \<notin> dom (chrdevs (reg K k)) \<and>
        reg K k' = add_chrdev (reg_major major n) len nm (reg K k)) \<and>
     (\<forall>k major len nm. chrdevs (reg K k) major = Some (nm, len) \<longrightarrow>
        reg K (unregister_chrdev K major len nm k)
          = (reg K k)\<lparr>chrdevs := (chrdevs (reg K k))(major := None)\<rparr>)"

definition class_ok :: "'k kernel_api \<Rightarrow> bool" where
  "class_ok K \<longleftrightarrow>
     (\<forall>k nm e k'. class_create K nm k = (Inl e, k') \<longrightarrow> reg K k' = reg K k) \<and>
     (\<forall>k nm cls k'. class_create K nm k = (Inr cls, k') \<longrightarrow> cls = nm \<and>
        nm \<notin> classes (reg K k) \<and> reg K k' = (reg K k)\<lparr>classes := insert nm (classes (reg K k))\<rparr>) \<and>
     (\<forall>k cls. cls \<in> classes (reg K k) \<longrightarrow>
        reg K (class_destroy K cls k) = (reg K k)\<lparr>classes := classes (reg K k) - {cls}\<rparr>)"

definition device_ok :: "'k kernel_api \<Rightarrow> bool" where
  "device_ok K \<longleftrightarrow>
     (\<forall>k cls ma mi nm e k'. device_create K cls ma mi nm k = (Some e, k') \<longrightarrow> reg K k' = reg K k) \<and>
     (\<forall>k cls ma mi nm k'. device_create K cls ma mi nm k = (None, k') \<longrightarrow>
        reg K k' = (reg K k)\<lparr>nodes := (nodes (reg K k))((cls, ma, mi) \<mapsto> nm)\<rparr>) \<and>
     (\<forall>k cls ma mi. reg K (device_destroy K cls ma mi k)
        = (reg K k)\<lparr>nodes := (nodes (reg K k))((cls, ma, mi) := None)\<rparr>)"

text \<open>
  The startup callback runs on the CPUs one after the other; if one fails, the teardown
  callback runs on the CPUs already done.
\<close>

fun run_down :: "(nat \<Rightarrow> 'k \<Rightarrow> 'k) \<Rightarrow> nat list \<Rightarrow> 'k \<Rightarrow> 'k" where
  "run_down down [] k = k"
| "run_down down (c # cs) k = run_down down cs (down c k)"

fun run_up :: "(nat \<Rightarrow> 'k \<Rightarrow> errno option \<times> 'k) \<Rightarrow> (nat \<Rightarrow> 'k \<Rightarrow> 'k) \<Rightarrow> nat list \<Rightarrow> nat list \<Rightarrow> 'k
    \<Rightarrow> errno option \<times> 'k" where
  "run_up up down started [] k = (None, k)"
| "run_up up down started (c # cs) k =
     (case up c k of
        (Some e, k1) \<Rightarrow> (Some e, run_down down started k1)
      | (None, k1) \<Rightarrow> run_up up down (c # started) cs k1)"

text \<open>
  \<open>cpuhp_setup_state\<close> fails without any callback, or after the callbacks of a failed run;
  otherwise all CPUs that are online have run the callback, which stays installed.
  \<open>cpuhp_remove_state\<close> runs the teardown callback on all of them.
\<close>

definition hotplug_ok :: "'k kernel_api \<Rightarrow> bool" where
  "hotplug_ok K \<longleftrightarrow>
     (\<forall>k. online_cpus K k = cpus (reg K k)) \<and>
     (\<forall>k. reg K (register_hotcpu_notifier K k) = (reg K k)\<lparr>hotplug := True\<rparr>) \<and>
     (\<forall>k. reg K (unregister_hotcpu_notifier K k) = (reg K k)\<lparr>hotplug := False\<rparr>) \<and>
     (\<forall>k up down e k'. cpuhp_setup_state K up down k = (Inl e, k') \<longrightarrow>
        reg K k' = reg K k \<or>
        (\<exists>k0 k1. reg K k0 = reg K k \<and> run_up up down [] (cpus (reg K k)) k0 = (Some e, k1)
          \<and> reg K k' = reg K k1)) \<and>
     (\<forall>k up down n k'. cpuhp_setup_state K up down k = (Inr n, k') \<longrightarrow>
        (\<exists>k0 k1. reg K k0 = reg K k \<and> run_up up down [] (cpus (reg K k)) k0 = (None, k1)
          \<and> reg K k' = (reg K k1)\<lparr>hotplug := True\<rparr>)) \<and>
     (\<forall>k n down. \<exists>k0. reg K k0 = reg K k \<and>
        reg K (cpuhp_remove_state K n down k) = (reg K (run_down down (cpus (reg K k)) k0))\<lparr>hotplug := False\<rparr>)"

definition kernel_ok :: "'k kernel_api \<Rightarrow> bool" where
  "kernel_ok K \<longleftrightarrow> chrdev_ok K \<and> class_ok K \<and> device_ok K \<and> hotplug_ok K"

text \<open>Nodes belong to classes that exist.\<close>

definition reg_wf :: "registry \<Rightarrow> bool" where
  "reg_wf r \<longleftrightarrow> (\<forall>cls ma mi. (cls, ma, mi) \<in> dom (nodes r) \<longrightarrow> cls \<in> classes r)"

lemma kernel_chrdev:
  assumes "kernel_ok K"
  shows "register_chrdev K major len nm k = (Inl e, k') \<Longrightarrow> reg K k' = reg K k"
    and "register_chrdev K major len nm k = (Inr n, k') \<Longrightarrow>
      chrdevs (reg K k) (reg_major major n) = None
      \<and> reg K k' = add_chrdev (reg_major major n) len nm (reg K k)"
    and "chrdevs (reg K k) major = Some (nm, len) \<Longrightarrow>
      reg K (unregister_chrdev K major len nm k) = (reg K k)\<lparr>chrdevs := (chrdevs (reg K k))(major := None)\<rparr>"
  using assms unfolding kernel_ok_def chrdev_ok_def by (blast, metis domIff, blast)

lemma kernel_class:
  assumes "kernel_ok K"
  shows "class_create K nm k = (Inl e, k') \<Longrightarrow> reg K k' = reg K k"
    and "class_create K nm k = (Inr cls, k') \<Longrightarrow> cls = nm \<and> nm \<notin> classes (reg K k)
      \<and> reg K k' = (reg K k)\<lparr>classes := insert nm (classes (reg K k))\<rparr>"
    and "cls \<in> classes (reg K k) \<Longrightarrow>
      reg K (class_destroy K cls k) = (reg K k)\<lparr>classes := classes (reg K k) - {cls}\<rparr>"
  using assms unfolding kernel_ok_def class_ok_def by blast+

lemma kernel_device:
  assumes "kernel_ok K"
  shows "device_create K cls ma mi nm k = (Some e, k') \<Longrightarrow> reg K k' = reg K k"
    and "device_create K cls ma mi nm k = (None, k') \<Longrightarrow>
      reg K k' = (reg K k)\<lparr>nodes := (nodes (reg K k))((cls, ma, mi) \<mapsto> nm)\<rparr>"
    and "reg K (device_destroy K cls ma mi k) = (reg K k)\<lparr>nodes := (nodes (reg K k))((cls, ma, mi) := None)\<rparr>"
  using assms unfolding kernel_ok_def device_ok_def by blast+

lemma kernel_hotplug:
  assumes "kernel_ok K"
  shows "online_cpus K k = cpus (reg K k)"
    and "reg K (register_hotcpu_notifier K k) = (reg K k)\<lparr>hotplug := True\<rparr>"
    and "reg K (unregister_hotcpu_notifier K k) = (reg K k)\<lparr>hotplug := False\<rparr>"
    and "cpuhp_setup_state K up down k = (Inl e, k') \<Longrightarrow> reg K k' = reg K k \<or>
        (\<exists>k0 k1. reg K k0 = reg K k \<and> run_up up down [] (cpus (reg K k)) k0 = (Some e, k1)
          \<and> reg K k' = reg K k1)"
    and "cpuhp_setup_state K up down k = (Inr n, k') \<Longrightarrow>
        \<exists>k0 k1. reg K k0 = reg K k \<and> run_up up down [] (cpus (reg K k)) k0 = (None, k1)
          \<and> reg K k' = (reg K k1)\<lparr>hotplug := True\<rparr>"
    and "\<exists>k0. reg K k0 = reg K k \<and>
        reg K (cpuhp_remove_state K n down k) = (reg K (run_down down (cpus (reg K k)) k0))\<lparr>hotplug := False\<rparr>"
  using assms unfolding kernel_ok_def hotplug_ok_def by blast+

section \<open>A character device with a class and a node\<close>

text \<open>The static variables that msr_batch.c, msr_allowlist.c and msr_version.c each have.\<close>

record cdev =
  cdev_class :: "string option"
  cdev_created :: bool
  cdev_registered :: bool
  cdev_class_created :: bool

text \<open>The names under which a driver registers its region, its class and its node.\<close>

record dev_names =
  dn_chrdev :: string
  dn_class :: string
  dn_device :: string

text \<open>The three statements of the clean-up functions, each guarded by its flag.\<close>

definition chrdev_cleanup :: "'k kernel_api \<Rightarrow> dev_names \<Rightarrow> nat \<Rightarrow> cdev \<times> 'k \<Rightarrow> cdev \<times> 'k" where
  "chrdev_cleanup K nm majordev s0 =
     (let (c0, k0) = s0;
          (c1, k1) = (if cdev_created c0
                      then (c0\<lparr>cdev_created := False\<rparr>, device_destroy K (the (cdev_class c0)) majordev 0 k0)
                      else (c0, k0));
          (c2, k2) = (if cdev_class_created c1
                      then (c1\<lparr>cdev_class_created := False\<rparr>, class_destroy K (the (cdev_class c1)) k1)
                      else (c1, k1))
      in if cdev_registered c2
         then (c2\<lparr>cdev_registered := False\<rparr>, unregister_chrdev K majordev 256 (dn_chrdev nm) k2)
         else (c2, k2))"

text \<open>
  The body of the init functions up to the point where a failed step calls the clean-up and
  returns, or the function ends: the error, the major number, the variables, the kernel.
\<close>

definition chrdev_bringup :: "'k kernel_api \<Rightarrow> dev_names \<Rightarrow> nat \<Rightarrow> cdev \<times> 'k
    \<Rightarrow> errno option \<times> nat \<times> cdev \<times> 'k" where
  "chrdev_bringup K nm majordev s0 =
     (let (c0, k0) = s0
      in case register_chrdev K majordev 256 (dn_chrdev nm) k0 of
           (Inl _, k1) \<Rightarrow> (Some EBUSY, majordev, c0, k1)
         | (Inr err, k1) \<Rightarrow>
             let major = (if err > 0 then err else majordev);
                 c1 = c0\<lparr>cdev_registered := True\<rparr>
             in case class_create K (dn_class nm) k1 of
                  (Inl err, k2) \<Rightarrow> (Some err, major, c1\<lparr>cdev_class := None\<rparr>, k2)
                | (Inr cls, k2) \<Rightarrow>
                    let c2 = c1\<lparr>cdev_class := Some cls, cdev_class_created := True\<rparr>
                    in case device_create K cls major 0 (dn_device nm) k2 of
                         (Some err, k3) \<Rightarrow> (Some err, major, c2, k3)
                       | (None, k3) \<Rightarrow> (None, major, c2\<lparr>cdev_created := True\<rparr>, k3))"

section \<open>The footprint of a device\<close>

definition fresh_dev :: "dev_names \<Rightarrow> nat \<Rightarrow> registry \<Rightarrow> bool" where
  "fresh_dev nm major r \<longleftrightarrow> major \<notin> dom (chrdevs r) \<and> dn_class nm \<notin> classes r"

definition add_dev :: "dev_names \<Rightarrow> nat \<Rightarrow> registry \<Rightarrow> registry" where
  "add_dev nm major r = r\<lparr>chrdevs := (chrdevs r)(major \<mapsto> (dn_chrdev nm, 256)),
     classes := insert (dn_class nm) (classes r),
     nodes := (nodes r)((dn_class nm, major, 0) \<mapsto> dn_device nm)\<rparr>"

definition remove_dev :: "dev_names \<Rightarrow> nat \<Rightarrow> registry \<Rightarrow> registry" where
  "remove_dev nm major r = r\<lparr>chrdevs := (chrdevs r)(major := None),
     classes := classes r - {dn_class nm},
     nodes := (nodes r)((dn_class nm, major, 0) := None)\<rparr>"

definition has_dev :: "dev_names \<Rightarrow> nat \<Rightarrow> registry \<Rightarrow> bool" where
  "has_dev nm major r \<longleftrightarrow> chrdevs r major = Some (dn_chrdev nm, 256) \<and> dn_class nm \<in> classes r"

lemma has_dev_add [simp]: "has_dev nm major (add_dev nm major r)"
  by (simp add: has_dev_def add_dev_def)

lemma has_dev_other: "has_dev nm major r \<Longrightarrow> fresh_dev nm' major' r \<Longrightarrow> has_dev nm major (add_dev nm' major' r)"
  by (auto simp: has_dev_def add_dev_def fresh_dev_def)

lemma reg_wf_node: "reg_wf r \<Longrightarrow> cls \<notin> classes r \<Longrightarrow> nodes r (cls, ma, mi) = None"
  by (auto simp: reg_wf_def)

lemma reg_wf_add [simp]: "reg_wf r \<Longrightarrow> reg_wf (add_dev nm major r)"
  by (auto simp: reg_wf_def add_dev_def)

lemma remove_add_dev:
  assumes "reg_wf r" and "fresh_dev nm major r"
  shows "remove_dev nm major (add_dev nm major r) = r"
proof -
  have "(chrdevs r)(major := None) = chrdevs r" "nodes r (dn_class nm, major, 0) = None"
    using assms by (auto simp: fresh_dev_def reg_wf_node)
  moreover from this(2) have "(nodes r)((dn_class nm, major, 0) := None) = nodes r" by auto
  moreover have "insert (dn_class nm) (classes r) - {dn_class nm} = classes r"
    using assms by (simp add: fresh_dev_def)
  ultimately show ?thesis by (simp add: remove_dev_def add_dev_def)
qed

text \<open>The footprints of two devices with different names do not overlap.\<close>

lemma remove_add_other:
  assumes "dn_class nm \<noteq> dn_class nm'" and "fresh_dev nm' major' (add_dev nm major r)"
  shows "remove_dev nm major (add_dev nm' major' (add_dev nm major r))
       = add_dev nm' major' (remove_dev nm major (add_dev nm major r))"
proof -
  have "major \<noteq> major'" using assms(2) by (auto simp: fresh_dev_def add_dev_def)
  with assms(1) show ?thesis
    by (auto simp: remove_dev_def add_dev_def fun_upd_twist insert_Diff_if)
qed

section \<open>The contract of the three drivers\<close>

text \<open>
  \<open>bringup\<close> and \<open>takedown\<close> are a driver's init and clean-up functions on its own state \<open>'s\<close>
  and the kernel; \<open>idle\<close> and \<open>up\<close> describe that state before and after.
\<close>

locale cdev_driver =
  fixes names :: dev_names
    and idle :: "'s \<Rightarrow> bool"
    and up :: "'s \<Rightarrow> bool"
    and bringup :: "'k kernel_api \<Rightarrow> nat \<Rightarrow> 's \<times> 'k \<Rightarrow> errno option \<times> nat \<times> 's \<times> 'k"
    and takedown :: "'k kernel_api \<Rightarrow> nat \<Rightarrow> 's \<times> 'k \<Rightarrow> 's \<times> 'k"
  assumes bringup_ok: "\<lbrakk>kernel_ok K; idle s; bringup K major (s, k) = (None, major', s', k')\<rbrakk>
      \<Longrightarrow> up s' \<and> fresh_dev names major' (reg K k) \<and> reg K k' = add_dev names major' (reg K k)"
    and bringup_fails: "\<lbrakk>kernel_ok K; idle s; bringup K major (s, k) = (Some e, major', s', k')\<rbrakk>
      \<Longrightarrow> idle s' \<and> reg K k' = reg K k"
    and takedown_up: "\<lbrakk>kernel_ok K; up s; has_dev names major (reg K k)\<rbrakk>
      \<Longrightarrow> \<exists>s' k'. takedown K major (s, k) = (s', k') \<and> reg K k' = remove_dev names major (reg K k) \<and> idle s'"
    and takedown_idle: "idle s \<Longrightarrow> takedown K major (s, k) = (s, k)"
begin

text \<open>A device that comes up and is taken down leaves the registry as it was.\<close>

lemma round_trip:
  assumes "kernel_ok K" and "reg_wf (reg K k)" and "idle s"
    and "bringup K major (s, k) = (None, major', s', k')"
  shows "\<exists>s'' k''. takedown K major' (s', k') = (s'', k'') \<and> reg K k'' = reg K k \<and> idle s''"
proof -
  from bringup_ok [OF assms(1,3,4)] have u: "up s'" "fresh_dev names major' (reg K k)"
    "reg K k' = add_dev names major' (reg K k)" by blast+
  from takedown_up [OF assms(1) u(1), of major' k'] u assms(2) show ?thesis
    by (simp add: remove_add_dev)
qed

text \<open>Taking a device down twice is the same as taking it down once.\<close>

lemma takedown_twice:
  assumes "kernel_ok K" and "up s" and "has_dev names major (reg K k)"
  shows "takedown K major (takedown K major (s, k)) = takedown K major (s, k)"
  using takedown_up [OF assms] takedown_idle by fastforce

text \<open>Whatever happened, a clean-up after the init function leaves the registry as it was.\<close>

lemma bringup_takedown:
  assumes "kernel_ok K" and "reg_wf (reg K k)" and "idle s"
    and "bringup K major (s, k) = (r, major', s', k')"
  shows "reg K (snd (takedown K major' (s', k'))) = reg K k"
proof (cases r)
  case None
  with round_trip [of K k s major major' s' k'] assms show ?thesis by auto
next
  case (Some e)
  with bringup_fails [of K s major k e major' s' k'] assms show ?thesis
    by (simp add: takedown_idle)
qed

end

section \<open>Bring-up and clean-up of the shared pattern\<close>

definition cdev_idle :: "cdev \<Rightarrow> bool" where
  "cdev_idle c \<longleftrightarrow> \<not> cdev_created c \<and> \<not> cdev_class_created c \<and> \<not> cdev_registered c"

definition cdev_up :: "dev_names \<Rightarrow> cdev \<Rightarrow> bool" where
  "cdev_up nm c \<longleftrightarrow> cdev_created c \<and> cdev_class_created c \<and> cdev_registered c
     \<and> cdev_class c = Some (dn_class nm)"

lemma cleanup_idle: "cdev_idle c \<Longrightarrow> chrdev_cleanup K nm major (c, k) = (c, k)"
  by (simp add: cdev_idle_def chrdev_cleanup_def)

lemma cleanup_up:
  assumes "kernel_ok K" and "cdev_up nm c" and "has_dev nm major (reg K k)"
  shows "\<exists>c' k'. chrdev_cleanup K nm major (c, k) = (c', k') \<and> reg K k' = remove_dev nm major (reg K k)
    \<and> cdev_idle c'"
  using assms(2,3)
  by (simp add: cdev_up_def cdev_idle_def chrdev_cleanup_def has_dev_def remove_dev_def
      kernel_device(3) [OF assms(1)] kernel_class(3) [OF assms(1)] kernel_chrdev(3) [OF assms(1)])

lemma chrdev_bringup_ok:
  assumes "kernel_ok K" and "chrdev_bringup K nm major (c, k) = (None, major', c', k')"
  shows "cdev_up nm c' \<and> fresh_dev nm major' (reg K k) \<and> reg K k' = add_dev nm major' (reg K k)"
  using assms(2)
  by (auto simp: chrdev_bringup_def Let_def cdev_up_def fresh_dev_def add_dev_def add_chrdev_def reg_major_def
      dest!: kernel_chrdev(2) [OF assms(1)] kernel_class(2) [OF assms(1)] kernel_device(2) [OF assms(1)]
      split: sum.splits option.splits prod.splits if_splits)

text \<open>A failed step leaves flags that make the clean-up undo exactly the steps before it.\<close>

lemma chrdev_bringup_fails:
  assumes "kernel_ok K" and "cdev_idle c" and "chrdev_bringup K nm major (c, k) = (Some e, major', c', k')"
  shows "\<exists>c'' k''. chrdev_cleanup K nm major' (c', k') = (c'', k'') \<and> reg K k'' = reg K k \<and> cdev_idle c''"
proof -
  have off: "f(x := None) = f" if "f x = None" for f :: "nat \<rightharpoonup> string \<times> nat" and x
    using that by auto
  from assms(2,3) show ?thesis
    by (auto simp: chrdev_bringup_def Let_def chrdev_cleanup_def cdev_idle_def off add_chrdev_def reg_major_def
        kernel_chrdev(3) [OF assms(1)] kernel_class(3) [OF assms(1)]
        dest!: kernel_chrdev(1,2) [OF assms(1)] kernel_class(1,2) [OF assms(1)] kernel_device(1) [OF assms(1)]
        split: sum.splits option.splits prod.splits if_splits)
qed

text \<open>
  A driver whose init function is the bring-up with a clean-up after a failed step meets the
  contract.
\<close>

lemma plain_driver:
  fixes init :: "'k kernel_api \<Rightarrow> nat \<Rightarrow> cdev \<times> 'k \<Rightarrow> errno option \<times> nat \<times> cdev \<times> 'k"
  assumes init: "\<And>K majordev s. init K majordev s =
      (case chrdev_bringup K nm majordev s of
         (Some err, major, s1) \<Rightarrow> (Some err, major, cleanup K major s1)
       | (None, major, s1) \<Rightarrow> (None, major, s1))"
    and cleanup: "\<And>K majordev s. cleanup K majordev s = chrdev_cleanup K nm majordev s"
  shows "cdev_driver nm cdev_idle (cdev_up nm) init cleanup"
proof (unfold_locales, goal_cases)
  case (1 K s major k major' s' k')
  then show ?case
    using chrdev_bringup_ok [of K nm major s k] by (auto simp: init split: option.splits prod.splits)
next
  case (2 K s major k e major' s' k')
  obtain r ma c1 k1 where b: "chrdev_bringup K nm major (s, k) = (r, ma, c1, k1)"
    by (metis prod.collapse)
  with 2(3) have r: "r = Some e" "chrdev_cleanup K nm ma (c1, k1) = (s', k')"
    by (auto simp: init cleanup split: option.splits)
  with chrdev_bringup_fails [OF 2(1,2), of nm major k e ma c1 k1] b show ?case by auto
next
  case (3 K s major k)
  then show ?case unfolding cleanup by (rule cleanup_up)
next
  case (4 s K major k)
  then show ?case by (simp add: cleanup cleanup_idle)
qed

text \<open>The footprint does not touch the CPUs and the hotplug callback.\<close>

lemma add_dev_other [simp]:
  "add_dev nm major (r\<lparr>cpus := cs\<rparr>) = (add_dev nm major r)\<lparr>cpus := cs\<rparr>"
  "add_dev nm major (r\<lparr>hotplug := b\<rparr>) = (add_dev nm major r)\<lparr>hotplug := b\<rparr>"
  "cpus (add_dev nm major r) = cpus r" "hotplug (add_dev nm major r) = hotplug r"
  "fresh_dev nm major (r\<lparr>cpus := cs\<rparr>) = fresh_dev nm major r"
  "fresh_dev nm major (r\<lparr>hotplug := b\<rparr>) = fresh_dev nm major r"
  by (simp_all add: add_dev_def fresh_dev_def)

lemma reg_wf_other [simp]:
  "reg_wf (r\<lparr>cpus := cs\<rparr>) = reg_wf r" "reg_wf (r\<lparr>hotplug := b\<rparr>) = reg_wf r"
  by (simp_all add: reg_wf_def)

end
