(* ===== verification/Msr_Version.thy ===== *)
theory Msr_Version
  imports Kernel_Registry
begin

text \<open>
  The version device /dev/cpu/msr_safe_version of msr_version.c and the version numbers of
  msr_version.h: \<open>open_version\<close>, \<open>read_version\<close>, the node name, and \<open>msr_version_init\<close> and
  \<open>msr_version_cleanup\<close> with their contract.
\<close>

section \<open>The version\<close>

definition MSR_SAFE_VERSION_MAJOR :: nat where "MSR_SAFE_VERSION_MAJOR = 1"
definition MSR_SAFE_VERSION_MINOR :: nat where "MSR_SAFE_VERSION_MINOR = 8"
definition MSR_SAFE_VERSION_PATCH :: nat where "MSR_SAFE_VERSION_PATCH = 0"

definition version_u32 :: "nat \<Rightarrow> nat \<Rightarrow> nat \<Rightarrow> u32" where
  "version_u32 major minor patch =
     push_bit 16 (of_nat major) OR push_bit 8 (of_nat minor) OR push_bit 0 (of_nat patch)"

definition MSR_SAFE_VERSION_u32 :: u32 where
  "MSR_SAFE_VERSION_u32 = version_u32 MSR_SAFE_VERSION_MAJOR MSR_SAFE_VERSION_MINOR MSR_SAFE_VERSION_PATCH"

definition make_version_string :: "nat \<Rightarrow> nat \<Rightarrow> nat \<Rightarrow> string" where
  "make_version_string major minor patch = decimal major @ ''.'' @ decimal minor @ ''.'' @ decimal patch"

definition MSR_SAFE_VERSION_STR :: string where
  "MSR_SAFE_VERSION_STR =
     make_version_string MSR_SAFE_VERSION_MAJOR MSR_SAFE_VERSION_MINOR MSR_SAFE_VERSION_PATCH"

lemma version_values: "MSR_SAFE_VERSION_STR = ''1.8.0''" "MSR_SAFE_VERSION_u32 = 0x010800"
  by (simp_all add: MSR_SAFE_VERSION_STR_def make_version_string_def MSR_SAFE_VERSION_MAJOR_def
      MSR_SAFE_VERSION_MINOR_def MSR_SAFE_VERSION_PATCH_def decimal.simps MSR_SAFE_VERSION_u32_def version_u32_def)

section \<open>The device\<close>

definition open_version :: int where
  "open_version = 0"

text \<open>
  \<open>version\<close> is \<open>THIS_MODULE->version\<close> without its terminator; the bytes copied to the user
  include the terminator when there is room. The length test can never fail.
\<close>

definition read_version :: "string \<Rightarrow> bool \<Rightarrow> nat \<Rightarrow> loff_t \<Rightarrow> (errno + string) \<times> loff_t" where
  "read_version version copy_ok count ppos =
     (let len = (if length version + 1 < count then length version + 1 else count)
      in if sint ppos > 0 then (Inr [], ppos)
         else if len > count then (Inl EFAULT, ppos)
         else if \<not> copy_ok then (Inl EFAULT, ppos)
         else (Inr (take len (version @ [NUL])), 1))"

text \<open>The permission bits are set when the kernel passes a place for them.\<close>

definition msr_version_nodename :: "nat option \<Rightarrow> string \<times> nat option" where
  "msr_version_nodename mode =
     (''cpu/msr_safe_version'', case mode of None \<Rightarrow> None | Some _ \<Rightarrow> Some 256)"

definition version_names :: dev_names where
  "version_names = \<lparr>dn_chrdev = ''cpu/msr_safe_version'', dn_class = ''msr_safe_version'',
     dn_device = ''msr_safe_version''\<rparr>"

definition msr_version_cleanup :: "'k kernel_api \<Rightarrow> nat \<Rightarrow> cdev \<times> 'k \<Rightarrow> cdev \<times> 'k" where
  "msr_version_cleanup K majordev s = chrdev_cleanup K version_names majordev s"

definition msr_version_init :: "'k kernel_api \<Rightarrow> nat \<Rightarrow> cdev \<times> 'k \<Rightarrow> errno option \<times> nat \<times> cdev \<times> 'k" where
  "msr_version_init K majordev s =
     (case chrdev_bringup K version_names majordev s of
        (Some err, major, s1) \<Rightarrow> (Some err, major, msr_version_cleanup K major s1)
      | (None, major, s1) \<Rightarrow> (None, major, s1))"

interpretation version: cdev_driver version_names cdev_idle "cdev_up version_names"
  msr_version_init msr_version_cleanup
  by (rule plain_driver) (simp_all add: msr_version_init_def msr_version_cleanup_def)

section \<open>Properties\<close>

text \<open>
  A read of the version device copies at most \<open>count\<close> bytes, a prefix of the version
  string with its terminator, all of it when the buffer has room; only one read of an open
  file returns data, so a program that reads in smaller pieces loses the rest.
\<close>

theorem read_version_once:
  assumes "sint ppos \<le> 0"
  shows "\<exists>bytes. read_version v True count ppos = (Inr bytes, 1)
    \<and> length bytes = min count (length v + 1) \<and> bytes = take count (v @ [NUL])
    \<and> read_version v True count' 1 = (Inr [], 1)"
  using assms by (simp add: read_version_def min_def) arith

theorem read_version_once_witness:
  "read_version MSR_SAFE_VERSION_STR True 4 0 = (Inr ''1.8.'', 1)
    \<and> read_version MSR_SAFE_VERSION_STR True 4 1 = (Inr [], 1)"
  using read_version_once [of 0 MSR_SAFE_VERSION_STR 4 4] by (simp add: version_values)

end
