(* ===== verification/Msr_Module.thy ===== *)
theory Msr_Module
  imports Msr_Batch Msr_Version
begin

text \<open>
  The module as a whole: the init and clean-up functions of the batch and the allowlist
  devices, and msr_entry.c's \<open>msr_init\<close>, \<open>msr_exit\<close> and hotplug callbacks, which bring up the
  four devices and the node of every CPU, with their error exits, in the variant for kernels
  from 4.10 on and in the one for older kernels.
\<close>

section \<open>The batch and the allowlist devices\<close>

definition batch_names :: dev_names where
  "batch_names = \<lparr>dn_chrdev = ''cpu/msr_batch'', dn_class = ''msr_batch'', dn_device = ''msr_batch''\<rparr>"

definition msrbatch_nodename :: string where
  "msrbatch_nodename = ''cpu/msr_batch''"

definition msrbatch_cleanup :: "'k kernel_api \<Rightarrow> nat \<Rightarrow> cdev \<times> 'k \<Rightarrow> cdev \<times> 'k" where
  "msrbatch_cleanup K majordev s = chrdev_cleanup K batch_names majordev s"

definition msrbatch_init :: "'k kernel_api \<Rightarrow> nat \<Rightarrow> cdev \<times> 'k \<Rightarrow> errno option \<times> nat \<times> cdev \<times> 'k" where
  "msrbatch_init K majordev s =
     (case chrdev_bringup K batch_names majordev s of
        (Some err, major, s1) \<Rightarrow> (Some err, major, msrbatch_cleanup K major s1)
      | (None, major, s1) \<Rightarrow> (None, major, s1))"

interpretation batch: cdev_driver batch_names cdev_idle "cdev_up batch_names"
  msrbatch_init msrbatch_cleanup
  by (rule plain_driver) (simp_all add: msrbatch_init_def msrbatch_cleanup_def)

text \<open>The allowlist driver's state has the loaded allowlist too, which its clean-up deletes.\<close>

definition allowlist_names :: dev_names where
  "allowlist_names = \<lparr>dn_chrdev = ''cpu/msr_allowlist'', dn_class = ''msr_allowlist'',
     dn_device = ''msr_allowlist''\<rparr>"

definition msr_allowlist_nodename :: string where
  "msr_allowlist_nodename = ''cpu/msr_allowlist''"

definition msr_allowlist_cleanup :: "'k kernel_api \<Rightarrow> nat \<Rightarrow> (alist \<times> cdev) \<times> 'k \<Rightarrow> (alist \<times> cdev) \<times> 'k" where
  "msr_allowlist_cleanup K majordev s =
     (let ((G, c), k) = s; (c', k') = chrdev_cleanup K allowlist_names majordev (c, k)
      in ((delete_allowlist G, c'), k'))"

definition msr_allowlist_init :: "'k kernel_api \<Rightarrow> nat \<Rightarrow> (alist \<times> cdev) \<times> 'k
    \<Rightarrow> errno option \<times> nat \<times> (alist \<times> cdev) \<times> 'k" where
  "msr_allowlist_init K majordev s =
     (let ((G, c), k) = s
      in case chrdev_bringup K allowlist_names majordev (c, k) of
           (Some err, major, c1, k1) \<Rightarrow> (Some err, major, msr_allowlist_cleanup K major ((G, c1), k1))
         | (None, major, c1, k1) \<Rightarrow> (None, major, (G, c1), k1))"

definition al_idle :: "alist \<times> cdev \<Rightarrow> bool" where
  "al_idle s \<longleftrightarrow> al_array (fst s) = None \<and> cdev_idle (snd s)"

definition al_up :: "alist \<times> cdev \<Rightarrow> bool" where
  "al_up s \<longleftrightarrow> cdev_up allowlist_names (snd s)"

lemma delete_unloaded: "al_array G = None \<Longrightarrow> delete_allowlist G = G"
  by (simp add: delete_allowlist_def)

lemma deleted_unloaded: "al_array (delete_allowlist G) = None"
  by (simp add: delete_allowlist_def split: option.splits)

interpretation allowlist: cdev_driver allowlist_names al_idle al_up
  msr_allowlist_init msr_allowlist_cleanup
proof (unfold_locales, goal_cases)
  case (1 K s major k major' s' k')
  then show ?case
    using chrdev_bringup_ok [of K allowlist_names major "snd s" k]
    by (auto simp: msr_allowlist_init_def al_up_def Let_def case_prod_beta prod_eq_iff split: option.splits)
next
  case (2 K s major k e major' s' k')
  obtain r ma c1 k1 where b: "chrdev_bringup K allowlist_names major (snd s, k) = (r, ma, c1, k1)"
    by (metis prod.collapse)
  with 2(3) have r: "r = Some e" "msr_allowlist_cleanup K ma ((fst s, c1), k1) = (s', k')"
    by (auto simp: msr_allowlist_init_def Let_def case_prod_beta split: option.splits)
  moreover have "cdev_idle (snd s)" using 2(2) by (simp add: al_idle_def)
  ultimately show ?case
    using chrdev_bringup_fails [OF 2(1), of "snd s" allowlist_names major k e ma c1 k1] b
    by (auto simp: msr_allowlist_cleanup_def al_idle_def Let_def deleted_unloaded)
next
  case (3 K s major k)
  then show ?case
    using cleanup_up [of K allowlist_names "snd s" major k]
    by (auto simp: msr_allowlist_cleanup_def al_idle_def al_up_def Let_def case_prod_beta deleted_unloaded)
next
  case (4 s K major k)
  then show ?case
    by (cases s) (simp add: msr_allowlist_cleanup_def al_idle_def cleanup_idle delete_unloaded)
qed

section \<open>The module\<close>

text \<open>
  The static variables of msr_entry.c and of the files it calls, and the kernel. The majors
  are module parameters.
\<close>

record 'k msr_module =
  md_batch :: cdev
  md_allowlist :: "alist \<times> cdev"
  md_version :: cdev
  mdev_msr_safe :: nat
  mdev_msr_allowlist :: nat
  mdev_msr_batch :: nat
  mdev_msr_version :: nat
  msr_class :: "string option"
  cpuhp_msr_state :: nat
  kern :: 'k

definition KERNEL_VERSION :: "nat \<Rightarrow> nat \<Rightarrow> nat \<Rightarrow> nat" where
  "KERNEL_VERSION a b c = a * 65536 + b * 256 + c"

definition msr_devnode :: "nat \<Rightarrow> string" where
  "msr_devnode minor = ''cpu/'' @ decimal minor @ ''/msr_safe''"

text \<open>The format \<open>msr_safe%d\<close>.\<close>

definition cpu_node_name :: "nat \<Rightarrow> string" where
  "cpu_node_name cpu = ''msr_safe'' @ decimal cpu"

definition msr_device_create :: "'k kernel_api \<Rightarrow> nat \<Rightarrow> 'k msr_module \<Rightarrow> errno option \<times> 'k msr_module" where
  "msr_device_create K cpu m =
     (let (r, k) = device_create K (the (msr_class m)) (mdev_msr_safe m) cpu (cpu_node_name cpu) (kern m)
      in (r, m\<lparr>kern := k\<rparr>))"

definition msr_device_destroy :: "'k kernel_api \<Rightarrow> nat \<Rightarrow> 'k msr_module \<Rightarrow> 'k msr_module" where
  "msr_device_destroy K cpu m = m\<lparr>kern := device_destroy K (the (msr_class m)) (mdev_msr_safe m) cpu (kern m)\<rparr>"

text \<open>The hotplug callback of kernels before 4.10.\<close>

datatype cpu_action = CPU_UP_PREPARE | CPU_UP_CANCELED | CPU_UP_CANCELED_FROZEN | CPU_DEAD | CPU_OTHER

definition msr_class_cpu_callback :: "'k kernel_api \<Rightarrow> cpu_action \<Rightarrow> nat \<Rightarrow> 'k msr_module
    \<Rightarrow> errno option \<times> 'k msr_module" where
  "msr_class_cpu_callback K action cpu m =
     (case action of
        CPU_UP_PREPARE \<Rightarrow> msr_device_create K cpu m
      | CPU_UP_CANCELED \<Rightarrow> (None, msr_device_destroy K cpu m)
      | CPU_UP_CANCELED_FROZEN \<Rightarrow> (None, msr_device_destroy K cpu m)
      | CPU_DEAD \<Rightarrow> (None, msr_device_destroy K cpu m)
      | CPU_OTHER \<Rightarrow> (None, m))"

text \<open>
  \<open>for_each_online_cpu(i) err = msr_device_create(i);\<close> of the old variant: every turn
  overwrites \<open>err\<close>.
\<close>

fun create_online :: "'k kernel_api \<Rightarrow> errno option \<Rightarrow> nat list \<Rightarrow> 'k msr_module
    \<Rightarrow> errno option \<times> 'k msr_module" where
  "create_online K err [] m = (err, m)"
| "create_online K err (c # cs) m = (let (e, m1) = msr_device_create K c m in create_online K e cs m1)"

fun destroy_online :: "'k kernel_api \<Rightarrow> nat list \<Rightarrow> 'k msr_module \<Rightarrow> 'k msr_module" where
  "destroy_online K [] m = m"
| "destroy_online K (c # cs) m = destroy_online K cs (msr_device_destroy K c m)"

text \<open>
  The callbacks of the new variant as the kernel sees them: functions on its state, while the
  variables of the module, which they read, do not change.
\<close>

definition node_up :: "'k kernel_api \<Rightarrow> 'k msr_module \<Rightarrow> nat \<Rightarrow> 'k \<Rightarrow> errno option \<times> 'k" where
  "node_up K m cpu k = (let (r, m1) = msr_device_create K cpu (m\<lparr>kern := k\<rparr>) in (r, kern m1))"

definition node_down :: "'k kernel_api \<Rightarrow> 'k msr_module \<Rightarrow> nat \<Rightarrow> 'k \<Rightarrow> 'k" where
  "node_down K m cpu k = kern (msr_device_destroy K cpu (m\<lparr>kern := k\<rparr>))"

text \<open>The calls of the other files' functions on their part of the state.\<close>

definition call_batch_init :: "'k kernel_api \<Rightarrow> 'k msr_module \<Rightarrow> errno option \<times> 'k msr_module" where
  "call_batch_init K m =
     (let (err, major, c, k) = msrbatch_init K (mdev_msr_batch m) (md_batch m, kern m)
      in (err, m\<lparr>mdev_msr_batch := major, md_batch := c, kern := k\<rparr>))"

definition call_allowlist_init :: "'k kernel_api \<Rightarrow> 'k msr_module \<Rightarrow> errno option \<times> 'k msr_module" where
  "call_allowlist_init K m =
     (let (err, major, s, k) = msr_allowlist_init K (mdev_msr_allowlist m) (md_allowlist m, kern m)
      in (err, m\<lparr>mdev_msr_allowlist := major, md_allowlist := s, kern := k\<rparr>))"

definition call_version_init :: "'k kernel_api \<Rightarrow> 'k msr_module \<Rightarrow> errno option \<times> 'k msr_module" where
  "call_version_init K m =
     (let (err, major, c, k) = msr_version_init K (mdev_msr_version m) (md_version m, kern m)
      in (err, m\<lparr>mdev_msr_version := major, md_version := c, kern := k\<rparr>))"

definition call_batch_cleanup :: "'k kernel_api \<Rightarrow> 'k msr_module \<Rightarrow> 'k msr_module" where
  "call_batch_cleanup K m =
     (let (c, k) = msrbatch_cleanup K (mdev_msr_batch m) (md_batch m, kern m) in m\<lparr>md_batch := c, kern := k\<rparr>)"

definition call_allowlist_cleanup :: "'k kernel_api \<Rightarrow> 'k msr_module \<Rightarrow> 'k msr_module" where
  "call_allowlist_cleanup K m =
     (let (s, k) = msr_allowlist_cleanup K (mdev_msr_allowlist m) (md_allowlist m, kern m)
      in m\<lparr>md_allowlist := s, kern := k\<rparr>)"

definition call_version_cleanup :: "'k kernel_api \<Rightarrow> 'k msr_module \<Rightarrow> 'k msr_module" where
  "call_version_cleanup K m =
     (let (c, k) = msr_version_cleanup K (mdev_msr_version m) (md_version m, kern m)
      in m\<lparr>md_version := c, kern := k\<rparr>)"

text \<open>The labels at the end of \<open>msr_init\<close>, each falling through to the next.\<close>

definition out_version :: "'k kernel_api \<Rightarrow> 'k msr_module \<Rightarrow> 'k msr_module" where
  "out_version K m = call_version_cleanup K m"

definition out_batch :: "'k kernel_api \<Rightarrow> 'k msr_module \<Rightarrow> 'k msr_module" where
  "out_batch K m = out_version K (call_batch_cleanup K m)"

definition out_wlist :: "'k kernel_api \<Rightarrow> 'k msr_module \<Rightarrow> 'k msr_module" where
  "out_wlist K m = out_batch K (call_allowlist_cleanup K m)"

definition out_chrdev :: "'k kernel_api \<Rightarrow> 'k msr_module \<Rightarrow> 'k msr_module" where
  "out_chrdev K m =
     out_wlist K (m\<lparr>kern := unregister_chrdev K (mdev_msr_safe m) (num_possible_cpus K) ''cpu/msr_safe'' (kern m)\<rparr>)"

definition out_class :: "'k kernel_api \<Rightarrow> nat \<Rightarrow> 'k msr_module \<Rightarrow> 'k msr_module" where
  "out_class K version_code m =
     (let m1 = (if version_code < KERNEL_VERSION 4 10 0 then destroy_online K (online_cpus K (kern m)) m else m)
      in out_chrdev K (m1\<lparr>kern := class_destroy K (the (msr_class m1)) (kern m1)\<rparr>))"

definition msr_init :: "'k kernel_api \<Rightarrow> nat \<Rightarrow> 'k msr_module \<Rightarrow> errno option \<times> 'k msr_module" where
  "msr_init K version_code m0 =
     (case call_batch_init K m0 of
        (Some err, m1) \<Rightarrow> (Some err, m1)
      | (None, m1) \<Rightarrow>
     (case call_allowlist_init K m1 of
        (Some err, m2) \<Rightarrow> (Some err, out_batch K m2)
      | (None, m2) \<Rightarrow>
     (case call_version_init K m2 of
        (Some err, m3) \<Rightarrow> (Some err, out_version K m3)
      | (None, m3) \<Rightarrow>
     (case register_chrdev K (mdev_msr_safe m3) (num_possible_cpus K) ''cpu/msr_safe'' (kern m3) of
        (Inl _, k4) \<Rightarrow> (Some EBUSY, out_wlist K (m3\<lparr>kern := k4\<rparr>))
      | (Inr err, k4) \<Rightarrow>
          let m4 = m3\<lparr>kern := k4, mdev_msr_safe := (if err > 0 then err else mdev_msr_safe m3)\<rparr>
          in case class_create K ''msr_safe'' k4 of
               (Inl err, k5) \<Rightarrow> (Some err, out_chrdev K (m4\<lparr>kern := k5, msr_class := None\<rparr>))
             | (Inr cls, k5) \<Rightarrow>
                 let m5 = m4\<lparr>kern := k5, msr_class := Some cls\<rparr>
                 in if version_code < KERNEL_VERSION 4 10 0
                    then (case create_online K None (online_cpus K (kern m5)) m5 of
                            (Some err, m6) \<Rightarrow> (Some err, out_class K version_code m6)
                          | (None, m6) \<Rightarrow> (None, m6\<lparr>kern := register_hotcpu_notifier K (kern m6)\<rparr>))
                    else (case cpuhp_setup_state K (node_up K m5) (node_down K m5) (kern m5) of
                            (Inl err, k6) \<Rightarrow> (Some err, out_class K version_code (m5\<lparr>kern := k6\<rparr>))
                          | (Inr err, k6) \<Rightarrow> (None, m5\<lparr>kern := k6, cpuhp_msr_state := err\<rparr>))))))"

definition msr_exit :: "'k kernel_api \<Rightarrow> nat \<Rightarrow> 'k msr_module \<Rightarrow> 'k msr_module" where
  "msr_exit K version_code m0 =
     (let old = version_code < KERNEL_VERSION 4 10 0;
          m1 = (if old then destroy_online K (online_cpus K (kern m0)) m0
                else m0\<lparr>kern := cpuhp_remove_state K (cpuhp_msr_state m0) (node_down K m0) (kern m0)\<rparr>);
          m2 = m1\<lparr>kern := class_destroy K (the (msr_class m1)) (kern m1)\<rparr>;
          m3 = m2\<lparr>kern := unregister_chrdev K (mdev_msr_safe m2) (num_possible_cpus K) ''cpu/msr_safe'' (kern m2)\<rparr>;
          m4 = (if old then m3\<lparr>kern := unregister_hotcpu_notifier K (kern m3)\<rparr> else m3)
      in call_version_cleanup K (call_batch_cleanup K (call_allowlist_cleanup K m4)))"

end
