(* ===== verification/Module_Exit.thy ===== *)
theory Module_Exit
  imports Msr_Module
begin

text \<open>
  What the loaded module has added to the registry of the kernel: three drivers, a class, the
  region of the per-CPU devices and the nodes of the CPUs. The theory shows that the clean-up
  functions and \<open>msr_exit\<close> take away exactly that.
\<close>

section \<open>What the module adds to the registry\<close>

definition base3 :: "'k msr_module \<Rightarrow> registry \<Rightarrow> registry" where
  "base3 m r = add_dev version_names (mdev_msr_version m)
     (add_dev allowlist_names (mdev_msr_allowlist m) (add_dev batch_names (mdev_msr_batch m) r))"

text \<open>The three drivers are up on what was the registry \<open>r\<close>.\<close>

definition drivers_up :: "'k msr_module \<Rightarrow> registry \<Rightarrow> bool" where
  "drivers_up m r \<longleftrightarrow> reg_wf r
     \<and> cdev_up batch_names (md_batch m) \<and> al_up (md_allowlist m) \<and> cdev_up version_names (md_version m)
     \<and> fresh_dev batch_names (mdev_msr_batch m) r
     \<and> fresh_dev allowlist_names (mdev_msr_allowlist m) (add_dev batch_names (mdev_msr_batch m) r)
     \<and> fresh_dev version_names (mdev_msr_version m)
         (add_dev allowlist_names (mdev_msr_allowlist m) (add_dev batch_names (mdev_msr_batch m) r))"

definition module_idle :: "'k msr_module \<Rightarrow> bool" where
  "module_idle m \<longleftrightarrow> cdev_idle (md_batch m) \<and> al_idle (md_allowlist m) \<and> cdev_idle (md_version m)"

lemma names_distinct [simp]:
  "dn_class batch_names \<noteq> dn_class allowlist_names" "dn_class batch_names \<noteq> dn_class version_names"
  "dn_class allowlist_names \<noteq> dn_class version_names"
  by (simp_all add: batch_names_def allowlist_names_def version_names_def)

text \<open>The clean-up calls on a device that is up, and on one that is not.\<close>

lemma call_batch_cleanup_up:
  assumes "kernel_ok K" and "cdev_up batch_names (md_batch m)"
    and "has_dev batch_names (mdev_msr_batch m) (reg K (kern m))"
  shows "\<exists>c k. cdev_idle c \<and> reg K k = remove_dev batch_names (mdev_msr_batch m) (reg K (kern m))
    \<and> call_batch_cleanup K m = m\<lparr>md_batch := c, kern := k\<rparr>"
  using batch.takedown_up [OF assms] by (clarsimp simp: call_batch_cleanup_def) blast

lemma call_allowlist_cleanup_up:
  assumes "kernel_ok K" and "al_up (md_allowlist m)"
    and "has_dev allowlist_names (mdev_msr_allowlist m) (reg K (kern m))"
  shows "\<exists>s k. al_idle s \<and> reg K k = remove_dev allowlist_names (mdev_msr_allowlist m) (reg K (kern m))
    \<and> call_allowlist_cleanup K m = m\<lparr>md_allowlist := s, kern := k\<rparr>"
  using allowlist.takedown_up [OF assms] by (clarsimp simp: call_allowlist_cleanup_def) blast

lemma call_version_cleanup_up:
  assumes "kernel_ok K" and "cdev_up version_names (md_version m)"
    and "has_dev version_names (mdev_msr_version m) (reg K (kern m))"
  shows "\<exists>c k. cdev_idle c \<and> reg K k = remove_dev version_names (mdev_msr_version m) (reg K (kern m))
    \<and> call_version_cleanup K m = m\<lparr>md_version := c, kern := k\<rparr>"
  using version.takedown_up [OF assms] by (clarsimp simp: call_version_cleanup_def) blast

lemma call_version_cleanup_idle: "cdev_idle (md_version m) \<Longrightarrow> call_version_cleanup K m = m"
  by (simp add: call_version_cleanup_def version.takedown_idle)

text \<open>The batch and the version device without the allowlist device, and the version device alone.\<close>

lemma version_alone:
  assumes "drivers_up m r"
  shows "fresh_dev version_names (mdev_msr_version m) (add_dev batch_names (mdev_msr_batch m) r)"
    and "fresh_dev version_names (mdev_msr_version m) r"
    and "remove_dev allowlist_names (mdev_msr_allowlist m) (base3 m r)
      = add_dev version_names (mdev_msr_version m) (add_dev batch_names (mdev_msr_batch m) r)"
    and "remove_dev batch_names (mdev_msr_batch m)
        (add_dev version_names (mdev_msr_version m) (add_dev batch_names (mdev_msr_batch m) r))
      = add_dev version_names (mdev_msr_version m) r"
    and "remove_dev version_names (mdev_msr_version m) (add_dev version_names (mdev_msr_version m) r) = r"
proof -
  note d = assms [unfolded drivers_up_def]
  show v: "fresh_dev version_names (mdev_msr_version m) (add_dev batch_names (mdev_msr_batch m) r)"
      "fresh_dev version_names (mdev_msr_version m) r"
    using d by (auto simp: fresh_dev_def add_dev_def)
  show "remove_dev allowlist_names (mdev_msr_allowlist m) (base3 m r)
      = add_dev version_names (mdev_msr_version m) (add_dev batch_names (mdev_msr_batch m) r)"
    using d by (simp add: base3_def remove_add_other remove_add_dev)
  show "remove_dev batch_names (mdev_msr_batch m)
        (add_dev version_names (mdev_msr_version m) (add_dev batch_names (mdev_msr_batch m) r))
      = add_dev version_names (mdev_msr_version m) r"
    using d v by (simp add: remove_add_other remove_add_dev)
  show "remove_dev version_names (mdev_msr_version m) (add_dev version_names (mdev_msr_version m) r) = r"
    using d v by (simp add: remove_add_dev)
qed

text \<open>Both \<open>msr_exit\<close> and the error exits of \<open>msr_init\<close> end in this.\<close>

lemma out_wlist_restores:
  assumes "kernel_ok K" and "drivers_up m r" and "reg K (kern m) = base3 m r"
  shows "reg K (kern (out_wlist K m)) = r \<and> module_idle (out_wlist K m)"
proof -
  note d = assms(2) [unfolded drivers_up_def] and v = version_alone [OF assms(2)]
  have "has_dev allowlist_names (mdev_msr_allowlist m) (base3 m r)"
    using d by (simp add: base3_def has_dev_other)
  then obtain s k1 where a: "al_idle s" "reg K k1 = add_dev version_names (mdev_msr_version m)
      (add_dev batch_names (mdev_msr_batch m) r)" "call_allowlist_cleanup K m = m\<lparr>md_allowlist := s, kern := k1\<rparr>"
    using d call_allowlist_cleanup_up [OF assms(1), of m] unfolding assms(3) v(3) by auto
  let ?m1 = "m\<lparr>md_allowlist := s, kern := k1\<rparr>"
  have "has_dev batch_names (mdev_msr_batch m) (reg K k1)" using v(1) by (simp add: a(2) has_dev_other)
  then obtain c k2 where b: "cdev_idle c" "reg K k2 = add_dev version_names (mdev_msr_version m) r"
    "call_batch_cleanup K ?m1 = ?m1\<lparr>md_batch := c, kern := k2\<rparr>"
    using d call_batch_cleanup_up [OF assms(1), of ?m1] by (auto simp: a(2) v(4))
  let ?m2 = "?m1\<lparr>md_batch := c, kern := k2\<rparr>"
  obtain c' k3 where "cdev_idle c'" "reg K k3 = r" "call_version_cleanup K ?m2 = ?m2\<lparr>md_version := c', kern := k3\<rparr>"
    using d call_version_cleanup_up [OF assms(1), of ?m2] by (auto simp: b(2) v(5))
  then show ?thesis using a(1) b(1)
    by (simp add: out_wlist_def out_batch_def out_version_def a(3) b(3) module_idle_def)
qed

section \<open>The nodes of the CPUs\<close>

definition add_safe :: "nat \<Rightarrow> nat \<Rightarrow> registry \<Rightarrow> registry" where
  "add_safe len major r = r\<lparr>chrdevs := (chrdevs r)(major \<mapsto> (''cpu/msr_safe'', len)),
     classes := insert ''msr_safe'' (classes r)\<rparr>"

definition cpu_nodes :: "nat \<Rightarrow> nat set \<Rightarrow> registry \<Rightarrow> registry" where
  "cpu_nodes major S r = r\<lparr>nodes := (\<lambda>x. case x of (cls, ma, mi) \<Rightarrow>
     if cls = ''msr_safe'' \<and> ma = major \<and> mi \<in> S then Some (cpu_node_name mi) else nodes r (cls, ma, mi))\<rparr>"

lemma cpu_nodes_empty [simp]: "cpu_nodes major {} r = r"
  by (simp add: cpu_nodes_def case_prod_beta)

lemma cpu_nodes_insert:
  "(cpu_nodes major S r)\<lparr>nodes := (nodes (cpu_nodes major S r))((''msr_safe'', major, c) \<mapsto> cpu_node_name c)\<rparr>
     = cpu_nodes major (insert c S) r"
  by (auto simp: cpu_nodes_def intro!: arg_cong [where f = "\<lambda>n. r\<lparr>nodes := n\<rparr>"])

lemma cpu_nodes_remove:
  assumes "nodes r (''msr_safe'', major, c) = None"
  shows "(cpu_nodes major S r)\<lparr>nodes := (nodes (cpu_nodes major S r))((''msr_safe'', major, c) := None)\<rparr>
     = cpu_nodes major (S - {c}) r"
  using assms by (auto simp: cpu_nodes_def intro!: arg_cong [where f = "\<lambda>n. r\<lparr>nodes := n\<rparr>"])

lemma cpu_nodes_other [simp]:
  "cpu_nodes major S (r\<lparr>cpus := cs\<rparr>) = (cpu_nodes major S r)\<lparr>cpus := cs\<rparr>"
  "cpu_nodes major S (r\<lparr>hotplug := b\<rparr>) = (cpu_nodes major S r)\<lparr>hotplug := b\<rparr>"
  "cpus (cpu_nodes major S r) = cpus r" "hotplug (cpu_nodes major S r) = hotplug r"
  "add_safe len major (r\<lparr>cpus := cs\<rparr>) = (add_safe len major r)\<lparr>cpus := cs\<rparr>"
  "add_safe len major (r\<lparr>hotplug := b\<rparr>) = (add_safe len major r)\<lparr>hotplug := b\<rparr>"
  "nodes (r\<lparr>hotplug := b\<rparr>) = nodes r" "cpus (add_safe len major r) = cpus r"
  "hotplug (add_safe len major r) = hotplug r"
  by (simp_all add: cpu_nodes_def add_safe_def case_prod_beta cong: if_cong)

text \<open>
  The nodes of the CPUs \<open>S\<close> are there, on a registry \<open>r\<close> without any node of the class.
\<close>

definition nodes_are :: "'k kernel_api \<Rightarrow> nat set \<Rightarrow> registry \<Rightarrow> 'k msr_module \<Rightarrow> bool" where
  "nodes_are K S r m \<longleftrightarrow> msr_class m = Some ''msr_safe'' \<and> reg K (kern m) = cpu_nodes (mdev_msr_safe m) S r
     \<and> (\<forall>c. nodes r (''msr_safe'', mdev_msr_safe m, c) = None)"

definition kern_only :: "'k msr_module \<Rightarrow> 'k msr_module \<Rightarrow> bool" where
  "kern_only m m' \<longleftrightarrow> (\<exists>k. m' = m\<lparr>kern := k\<rparr>)"

lemma kern_only_refl [simp]: "kern_only m m"
  by (auto simp: kern_only_def intro: exI [of _ "kern m"])

lemma kern_only_upd [simp]: "kern_only m (m\<lparr>kern := k\<rparr>)"
  by (auto simp: kern_only_def)

lemma kern_only_trans: "kern_only m m1 \<Longrightarrow> kern_only m1 m2 \<Longrightarrow> kern_only m m2"
  by (auto simp: kern_only_def)

lemma nodes_are_kern: "nodes_are K S r (m\<lparr>kern := k\<rparr>) \<Longrightarrow> reg K k' = reg K k \<Longrightarrow> nodes_are K S r (m\<lparr>kern := k'\<rparr>)"
  by (simp add: nodes_are_def)

lemma device_create_nodes:
  assumes "kernel_ok K" and "nodes_are K S r m" and "msr_device_create K c m = (e, m')"
  shows "kern_only m m' \<and> nodes_are K (if e = None then insert c S else S) r m'"
proof -
  obtain k where k: "device_create K ''msr_safe'' (mdev_msr_safe m) c (cpu_node_name c) (kern m) = (e, k)"
    "m' = m\<lparr>kern := k\<rparr>"
    using assms(2,3) by (auto simp: msr_device_create_def nodes_are_def split: prod.splits)
  show ?thesis
  proof (cases e)
    case None
    with kernel_device(2) [OF assms(1) k(1) [unfolded None]] assms(2) k(2) show ?thesis
      by (simp add: nodes_are_def cpu_nodes_insert)
  next
    case (Some x)
    with kernel_device(1) [OF assms(1) k(1) [unfolded Some]] assms(2) k(2) show ?thesis
      by (simp add: nodes_are_def)
  qed
qed

lemma device_destroy_nodes:
  assumes "kernel_ok K" and "nodes_are K S r m"
  shows "kern_only m (msr_device_destroy K c m) \<and> nodes_are K (S - {c}) r (msr_device_destroy K c m)"
  using assms(2)
  by (simp add: msr_device_destroy_def nodes_are_def kernel_device(3) [OF assms(1)] cpu_nodes_remove)

lemma destroy_online_nodes:
  assumes "kernel_ok K"
  shows "nodes_are K S r m \<Longrightarrow>
    kern_only m (destroy_online K cs m) \<and> nodes_are K (S - set cs) r (destroy_online K cs m)"
proof (induction cs arbitrary: S m)
  case Nil
  then show ?case by simp
next
  case (Cons c cs)
  note d = device_destroy_nodes [OF assms Cons.prems, of c]
  from Cons.IH [OF conjunct2 [OF d]] d show ?case
    by (auto simp: Diff_insert2 [symmetric] intro: kern_only_trans)
qed

lemma create_online_nodes:
  assumes "kernel_ok K"
  shows "nodes_are K S r m \<Longrightarrow> create_online K err cs m = (e, m') \<Longrightarrow>
    \<exists>S'. S \<subseteq> S' \<and> S' \<subseteq> S \<union> set cs \<and> kern_only m m' \<and> nodes_are K S' r m'"
proof (induction cs arbitrary: S m err)
  case Nil
  then show ?case by auto
next
  case (Cons c cs)
  obtain e1 m1 where m1: "msr_device_create K c m = (e1, m1)" by fastforce
  then have rec: "create_online K e1 cs m1 = (e, m')" using Cons.prems(2) by simp
  note d = device_create_nodes [OF assms Cons.prems(1) m1]
  obtain S' where S': "(if e1 = None then insert c S else S) \<subseteq> S'"
      "S' \<subseteq> (if e1 = None then insert c S else S) \<union> set cs" "kern_only m1 m'" "nodes_are K S' r m'"
    using Cons.IH [OF conjunct2 [OF d] rec] by blast
  have "S \<subseteq> S' \<and> S' \<subseteq> S \<union> set (c # cs)" using S'(1,2) by (auto split: if_splits)
  with S'(3,4) conjunct1 [OF d] show ?case by (blast intro: kern_only_trans)
qed

text \<open>The runs of the callbacks inside \<open>cpuhp_setup_state\<close> and \<open>cpuhp_remove_state\<close>.\<close>

lemma run_down_nodes:
  assumes "kernel_ok K"
  shows "nodes_are K S r (m\<lparr>kern := k\<rparr>) \<Longrightarrow>
    nodes_are K (S - set cs) r (m\<lparr>kern := run_down (node_down K m) cs k\<rparr>)"
proof (induction cs arbitrary: S k)
  case Nil
  then show ?case by simp
next
  case (Cons c cs)
  have "msr_device_destroy K c (m\<lparr>kern := k\<rparr>) = m\<lparr>kern := node_down K m c k\<rparr>"
    by (simp add: node_down_def msr_device_destroy_def)
  with device_destroy_nodes [OF assms Cons.prems, of c] have "nodes_are K (S - {c}) r (m\<lparr>kern := node_down K m c k\<rparr>)"
    by simp
  from Cons.IH [OF this] show ?case by (simp add: Diff_insert2 [symmetric])
qed

lemma run_up_nodes:
  assumes "kernel_ok K"
  shows "nodes_are K (set started) r (m\<lparr>kern := k\<rparr>) \<Longrightarrow>
    run_up (node_up K m) (node_down K m) started cs k = (e, k') \<Longrightarrow>
    nodes_are K (if e = None then set started \<union> set cs else {}) r (m\<lparr>kern := k'\<rparr>)"
proof (induction cs arbitrary: started k)
  case Nil
  then show ?case by simp
next
  case (Cons c cs)
  obtain e1 k1 where k1: "node_up K m c k = (e1, k1)" by fastforce
  then have "msr_device_create K c (m\<lparr>kern := k\<rparr>) = (e1, m\<lparr>kern := k1\<rparr>)"
    by (auto simp: node_up_def msr_device_create_def split: prod.splits)
  note d = conjunct2 [OF device_create_nodes [OF assms Cons.prems(1) this]]
  show ?case
  proof (cases e1)
    case (Some x)
    then have r: "e = Some x" "k' = run_down (node_down K m) started k1" using Cons.prems(2) k1 by simp_all
    from d Some have "nodes_are K (set started) r (m\<lparr>kern := k1\<rparr>)" by simp
    from run_down_nodes [OF assms this, of started] r show ?thesis by simp
  next
    case None
    with d have "nodes_are K (set (c # started)) r (m\<lparr>kern := k1\<rparr>)" by simp
    moreover have "run_up (node_up K m) (node_down K m) (c # started) cs k1 = (e, k')"
      using Cons.prems(2) None k1 by simp
    ultimately show ?thesis using Cons.IH [of "c # started" k1] by (cases e) simp_all
  qed
qed

section \<open>The module up and down\<close>

definition safe_fresh :: "'k msr_module \<Rightarrow> registry \<Rightarrow> bool" where
  "safe_fresh m r \<longleftrightarrow> chrdevs (base3 m r) (mdev_msr_safe m) = None \<and> ''msr_safe'' \<notin> classes (base3 m r)"

text \<open>The module is loaded on what was the registry \<open>r\<close>, with nodes for the CPUs \<open>S\<close>.\<close>

definition module_up :: "'k kernel_api \<Rightarrow> nat set \<Rightarrow> 'k msr_module \<Rightarrow> registry \<Rightarrow> bool" where
  "module_up K S m r \<longleftrightarrow> drivers_up m r \<and> safe_fresh m r
     \<and> nodes_are K S (add_safe (num_possible_cpus K) (mdev_msr_safe m) (base3 m r)) m"

lemma base3_other [simp]:
  "base3 m (r\<lparr>cpus := cs\<rparr>) = (base3 m r)\<lparr>cpus := cs\<rparr>" "base3 m (r\<lparr>hotplug := b\<rparr>) = (base3 m r)\<lparr>hotplug := b\<rparr>"
  "cpus (base3 m r) = cpus r" "hotplug (base3 m r) = hotplug r"
  by (simp_all add: base3_def)

lemma drivers_up_other [simp]:
  "drivers_up m (r\<lparr>cpus := cs\<rparr>) = drivers_up m r" "drivers_up m (r\<lparr>hotplug := b\<rparr>) = drivers_up m r"
  "safe_fresh m (r\<lparr>cpus := cs\<rparr>) = safe_fresh m r" "safe_fresh m (r\<lparr>hotplug := b\<rparr>) = safe_fresh m r"
  by (simp_all add: drivers_up_def safe_fresh_def)

lemma kern_upd_other [simp]:
  "base3 (m\<lparr>kern := x\<rparr>) r = base3 m r" "drivers_up (m\<lparr>kern := x\<rparr>) r = drivers_up m r"
  "safe_fresh (m\<lparr>kern := x\<rparr>) r = safe_fresh m r"
  by (simp_all add: base3_def drivers_up_def safe_fresh_def)

text \<open>The class and the region of the per-CPU devices are given back in this order.\<close>

lemma remove_safe:
  assumes "kernel_ok K" and "reg K k = add_safe (num_possible_cpus K) major r"
    and "chrdevs r major = None" and "''msr_safe'' \<notin> classes r"
  shows "reg K (class_destroy K ''msr_safe'' k) = r\<lparr>chrdevs := (chrdevs r)(major \<mapsto> (''cpu/msr_safe'', num_possible_cpus K))\<rparr>"
    and "reg K (unregister_chrdev K major (num_possible_cpus K) ''cpu/msr_safe'' (class_destroy K ''msr_safe'' k)) = r"
proof -
  show c: "reg K (class_destroy K ''msr_safe'' k)
      = r\<lparr>chrdevs := (chrdevs r)(major \<mapsto> (''cpu/msr_safe'', num_possible_cpus K))\<rparr>"
    using assms(4) by (simp add: kernel_class(3) [OF assms(1)] assms(2) add_safe_def)
  have "(chrdevs r)(major := None) = chrdevs r" using assms(3) by auto
  then show "reg K (unregister_chrdev K major (num_possible_cpus K) ''cpu/msr_safe'' (class_destroy K ''msr_safe'' k)) = r"
    by (simp add: kernel_chrdev(3) [OF assms(1)] c)
qed

lemma out_chrdev_restores:
  assumes "kernel_ok K" and "drivers_up m r" and "chrdevs (base3 m r) (mdev_msr_safe m) = None"
    and "reg K (kern m) = add_chrdev (mdev_msr_safe m) (num_possible_cpus K) ''cpu/msr_safe'' (base3 m r)"
  shows "reg K (kern (out_chrdev K m)) = r \<and> module_idle (out_chrdev K m)"
proof -
  have "(chrdevs (base3 m r))(mdev_msr_safe m := None) = chrdevs (base3 m r)" using assms(3) by auto
  then show ?thesis unfolding out_chrdev_def using assms(2)
    by (intro out_wlist_restores [OF assms(1)])
      (simp_all add: kernel_chrdev(3) [OF assms(1)] assms(4) add_chrdev_def)
qed

lemma destroy_all:
  assumes "kernel_ok K" and "module_up K S m r" and "S \<subseteq> set cs"
  shows "\<exists>k. destroy_online K cs m = m\<lparr>kern := k\<rparr> \<and>
    reg K k = add_safe (num_possible_cpus K) (mdev_msr_safe m) (base3 m r)"
proof -
  have e: "S - set cs = {}" using assms(3) by blast
  have "nodes_are K S (add_safe (num_possible_cpus K) (mdev_msr_safe m) (base3 m r)) m"
    using assms(2) by (simp add: module_up_def)
  note d = destroy_online_nodes [OF assms(1) this, of cs, unfolded e]
  then obtain k where k: "destroy_online K cs m = m\<lparr>kern := k\<rparr>" by (auto simp: kern_only_def)
  from conjunct2 [OF d] show ?thesis unfolding k by (intro exI [of _ k]) (simp add: nodes_are_def)
qed

lemma module_up_kern:
  "module_up K S m r \<Longrightarrow> msr_class m = Some ''msr_safe'' \<and> cpus (reg K (kern m)) = cpus r
    \<and> hotplug (reg K (kern m)) = hotplug r
    \<and> reg K (kern m) = cpu_nodes (mdev_msr_safe m) S (add_safe (num_possible_cpus K) (mdev_msr_safe m) (base3 m r))"
  by (simp add: module_up_def nodes_are_def)

text \<open>Unloading: whatever the variant, the registry is as it was, without the callback.\<close>

lemma exit_tail:
  assumes "kernel_ok K" and "module_up K S m r"
    and "reg K k = add_safe (num_possible_cpus K) (mdev_msr_safe m) (base3 m (r\<lparr>hotplug := b\<rparr>))"
  shows "reg K (unregister_chrdev K (mdev_msr_safe m) (num_possible_cpus K) ''cpu/msr_safe''
    (class_destroy K ''msr_safe'' k)) = base3 m (r\<lparr>hotplug := b\<rparr>)"
  using assms(2) by (intro remove_safe(2) [OF assms(1,3)]) (simp_all add: module_up_def safe_fresh_def)

lemma exit_nodes_new:
  assumes "kernel_ok K" and "module_up K S m r" and "S \<subseteq> set (cpus r)"
  shows "reg K (cpuhp_remove_state K n (node_down K m) (kern m))
    = add_safe (num_possible_cpus K) (mdev_msr_safe m) (base3 m (r\<lparr>hotplug := False\<rparr>))"
proof -
  let ?x = "add_safe (num_possible_cpus K) (mdev_msr_safe m) (base3 m r)"
  note up = module_up_kern [OF assms(2)]
  obtain k0 where k0: "reg K k0 = reg K (kern m)" "reg K (cpuhp_remove_state K n (node_down K m) (kern m))
      = (reg K (run_down (node_down K m) (cpus r) k0))\<lparr>hotplug := False\<rparr>"
    using kernel_hotplug(6) [OF assms(1), of "kern m" n "node_down K m"] up by auto
  have "nodes_are K S ?x (m\<lparr>kern := k0\<rparr>)" using assms(2) k0(1) by (simp add: module_up_def nodes_are_def)
  from run_down_nodes [OF assms(1) this, of "cpus r"] assms(3)
  have "nodes_are K {} ?x (m\<lparr>kern := run_down (node_down K m) (cpus r) k0\<rparr>)" by (simp add: Diff_eq_empty_iff [THEN iffD2])
  then show ?thesis by (simp add: k0(2) nodes_are_def)
qed

lemma exit_restores:
  assumes "kernel_ok K" and "module_up K S m r" and "S \<subseteq> set (cpus r)"
  shows "reg K (kern (msr_exit K v m)) = r\<lparr>hotplug := False\<rparr> \<and> module_idle (msr_exit K v m)"
proof -
  note up = module_up_kern [OF assms(2)]
  have f: "drivers_up m r" using assms(2) by (simp add: module_up_def)
  obtain k where k: "msr_exit K v m = out_wlist K (m\<lparr>kern := k\<rparr>)" "reg K k = base3 m (r\<lparr>hotplug := False\<rparr>)"
  proof (cases "v < KERNEL_VERSION 4 10 0")
    case True
    obtain k1 where k1: "destroy_online K (cpus r) m = m\<lparr>kern := k1\<rparr>"
      "reg K k1 = add_safe (num_possible_cpus K) (mdev_msr_safe m) (base3 m r)"
      using destroy_all [OF assms] by blast
    let ?k = "unregister_hotcpu_notifier K (unregister_chrdev K (mdev_msr_safe m) (num_possible_cpus K) ''cpu/msr_safe''
      (class_destroy K ''msr_safe'' k1))"
    have "reg K ?k = base3 m (r\<lparr>hotplug := False\<rparr>)"
      using exit_tail [OF assms(1,2), of k1 "hotplug r"] k1(2) by (simp add: kernel_hotplug(3) [OF assms(1)])
    moreover have "msr_exit K v m = out_wlist K (m\<lparr>kern := ?k\<rparr>)"
      using True up by (simp add: msr_exit_def Let_def kernel_hotplug(1) [OF assms(1)] k1(1) out_wlist_def
          out_batch_def out_version_def)
    ultimately show ?thesis by (rule that [rotated])
  next
    case False
    let ?k = "unregister_chrdev K (mdev_msr_safe m) (num_possible_cpus K) ''cpu/msr_safe''
      (class_destroy K ''msr_safe'' (cpuhp_remove_state K (cpuhp_msr_state m) (node_down K m) (kern m)))"
    have "reg K ?k = base3 m (r\<lparr>hotplug := False\<rparr>)"
      by (rule exit_tail [OF assms(1,2) exit_nodes_new [OF assms]])
    moreover have "msr_exit K v m = out_wlist K (m\<lparr>kern := ?k\<rparr>)"
      using False up by (simp add: msr_exit_def Let_def out_wlist_def out_batch_def out_version_def)
    ultimately show ?thesis by (rule that [rotated])
  qed
  with out_wlist_restores [OF assms(1), of "m\<lparr>kern := k\<rparr>" "r\<lparr>hotplug := False\<rparr>"] f show ?thesis by simp
qed

end
