(* ===== verification/Module_Init.thy ===== *)
theory Module_Init
  imports Module_Exit
begin

text \<open>
  The course of \<open>msr_init\<close>: after each stage the registry holds what the stages so far have
  added, and each error exit takes it away again, but for the one that follows the version
  device. The outcome of the whole function is the last lemma but one.
\<close>

section \<open>The course of \<open>msr_init\<close>\<close>

lemma call_batch_init_result:
  assumes "kernel_ok K" and "cdev_idle (md_batch m)" and "call_batch_init K m = (e, m')"
  shows "md_allowlist m' = md_allowlist m \<and> md_version m' = md_version m \<and>
    (case e of
       None \<Rightarrow> cdev_up batch_names (md_batch m') \<and> fresh_dev batch_names (mdev_msr_batch m') (reg K (kern m))
               \<and> reg K (kern m') = add_dev batch_names (mdev_msr_batch m') (reg K (kern m))
     | Some _ \<Rightarrow> cdev_idle (md_batch m') \<and> reg K (kern m') = reg K (kern m))"
  using assms(3) batch.bringup_ok [OF assms(1,2)] batch.bringup_fails [OF assms(1,2)]
  by (fastforce simp: call_batch_init_def split: prod.splits option.splits)

lemma call_allowlist_init_result:
  assumes "kernel_ok K" and "al_idle (md_allowlist m)" and "call_allowlist_init K m = (e, m')"
  shows "md_batch m' = md_batch m \<and> mdev_msr_batch m' = mdev_msr_batch m \<and> md_version m' = md_version m \<and>
    (case e of
       None \<Rightarrow> al_up (md_allowlist m') \<and> fresh_dev allowlist_names (mdev_msr_allowlist m') (reg K (kern m))
               \<and> reg K (kern m') = add_dev allowlist_names (mdev_msr_allowlist m') (reg K (kern m))
     | Some _ \<Rightarrow> al_idle (md_allowlist m') \<and> reg K (kern m') = reg K (kern m))"
  using assms(3) allowlist.bringup_ok [OF assms(1,2)] allowlist.bringup_fails [OF assms(1,2)]
  by (fastforce simp: call_allowlist_init_def split: prod.splits option.splits)

lemma call_version_init_result:
  assumes "kernel_ok K" and "cdev_idle (md_version m)" and "call_version_init K m = (e, m')"
  shows "md_batch m' = md_batch m \<and> mdev_msr_batch m' = mdev_msr_batch m
    \<and> md_allowlist m' = md_allowlist m \<and> mdev_msr_allowlist m' = mdev_msr_allowlist m \<and>
    (case e of
       None \<Rightarrow> cdev_up version_names (md_version m') \<and> fresh_dev version_names (mdev_msr_version m') (reg K (kern m))
               \<and> reg K (kern m') = add_dev version_names (mdev_msr_version m') (reg K (kern m))
     | Some _ \<Rightarrow> cdev_idle (md_version m') \<and> reg K (kern m') = reg K (kern m))"
  using assms(3) version.bringup_ok [OF assms(1,2)] version.bringup_fails [OF assms(1,2)]
  by (fastforce simp: call_version_init_def split: prod.splits option.splits)

text \<open>The registry once the three drivers and the class are up, for the rest of \<open>msr_init\<close>.\<close>

definition class_up :: "'k kernel_api \<Rightarrow> 'k msr_module \<Rightarrow> registry \<Rightarrow> bool" where
  "class_up K m r \<longleftrightarrow> drivers_up m r \<and> safe_fresh m r \<and> msr_class m = Some ''msr_safe''
     \<and> reg K (kern m) = add_safe (num_possible_cpus K) (mdev_msr_safe m) (base3 m r)"

lemma class_up_nodes:
  assumes "class_up K m r"
  shows "nodes_are K {} (add_safe (num_possible_cpus K) (mdev_msr_safe m) (base3 m r)) m"
proof -
  have "reg_wf (base3 m r)" using assms by (simp add: class_up_def drivers_up_def base3_def)
  then have "nodes (add_safe (num_possible_cpus K) (mdev_msr_safe m) (base3 m r)) (''msr_safe'', ma, c) = None" for ma c
    using assms by (simp add: add_safe_def class_up_def safe_fresh_def reg_wf_node)
  with assms show ?thesis by (simp add: nodes_are_def class_up_def)
qed

text \<open>The error exit \<open>out_class\<close>, with some nodes of CPUs still there in the old variant only.\<close>

lemma out_class_restores:
  assumes "kernel_ok K" and "module_up K S m r"
    and "S \<subseteq> (if v < KERNEL_VERSION 4 10 0 then set (cpus r) else {})"
  shows "reg K (kern (out_class K v m)) = r \<and> module_idle (out_class K v m)"
proof -
  note up = module_up_kern [OF assms(2)]
  have f: "drivers_up m r" "safe_fresh m r" using assms(2) by (simp_all add: module_up_def)
  obtain k where k: "reg K k = add_safe (num_possible_cpus K) (mdev_msr_safe m) (base3 m r)"
    "(if v < KERNEL_VERSION 4 10 0 then destroy_online K (online_cpus K (kern m)) m else m) = m\<lparr>kern := k\<rparr>"
  proof (cases "v < KERNEL_VERSION 4 10 0")
    case True
    with destroy_all [OF assms(1,2), of "cpus r"] assms(3) up that show ?thesis
      by (auto simp: kernel_hotplug(1) [OF assms(1)])
  next
    case False
    with assms(3) up that [of "kern m"] show ?thesis by simp
  qed
  let ?m = "m\<lparr>kern := class_destroy K ''msr_safe'' k\<rparr>"
  have "out_class K v m = out_chrdev K ?m" using up unfolding out_class_def Let_def k(2) by simp
  moreover have "reg K (kern ?m) = add_chrdev (mdev_msr_safe ?m) (num_possible_cpus K) ''cpu/msr_safe'' (base3 ?m r)"
    using remove_safe(1) [OF assms(1) k(1)] f by (simp add: safe_fresh_def add_chrdev_def)
  ultimately show ?thesis
    using out_chrdev_restores [OF assms(1), of ?m r] f by (simp add: safe_fresh_def)
qed

lemma module_up_intro:
  assumes "drivers_up m r" and "safe_fresh m r" and "kern_only m m'"
    and "nodes_are K S (add_safe (num_possible_cpus K) (mdev_msr_safe m) (base3 m r)) m'"
  shows "module_up K S m' r"
  using assms by (auto simp: module_up_def kern_only_def)

lemma module_up_reg:
  assumes "module_up K S m r" and "reg K k = (reg K (kern m))\<lparr>hotplug := b\<rparr>"
  shows "module_up K S (m\<lparr>kern := k\<rparr>) (r\<lparr>hotplug := b\<rparr>)"
  using assms by (simp add: module_up_def nodes_are_def)

lemma module_up_state [simp]: "module_up K S (m\<lparr>cpuhp_msr_state := n\<rparr>) r = module_up K S m r"
  by (simp add: module_up_def drivers_up_def safe_fresh_def nodes_are_def base3_def)

text \<open>The last part of \<open>msr_init\<close>, from the state in which only the nodes of the CPUs are missing.\<close>

lemma init_cpus_old:
  assumes "kernel_ok K" and "class_up K m r" and "create_online K None (cpus r) m = (e, m1)"
  shows "\<exists>S \<subseteq> set (cpus r). module_up K S m1 r"
proof -
  obtain S where S: "S \<subseteq> set (cpus r)" "kern_only m m1"
    "nodes_are K S (add_safe (num_possible_cpus K) (mdev_msr_safe m) (base3 m r)) m1"
    using create_online_nodes [OF assms(1) class_up_nodes [OF assms(2)] assms(3)] by auto
  with module_up_intro [OF _ _ S(2,3)] assms(2) show ?thesis by (auto simp: class_up_def)
qed

lemma init_cpus_new:
  assumes "kernel_ok K" and "class_up K m r"
    and "cpuhp_setup_state K (node_up K m) (node_down K m) (kern m) = (q, k')"
  shows "case q of Inl _ \<Rightarrow> module_up K {} (m\<lparr>kern := k'\<rparr>) r
    | Inr _ \<Rightarrow> module_up K (set (cpus r)) (m\<lparr>kern := k'\<rparr>) (r\<lparr>hotplug := True\<rparr>)"
proof -
  let ?x = "add_safe (num_possible_cpus K) (mdev_msr_safe m) (base3 m r)"
  have c: "cpus (reg K (kern m)) = cpus r" using assms(2) by (simp add: class_up_def)
  have n: "nodes_are K {} ?x (m\<lparr>kern := k\<rparr>)" if "reg K k = reg K (kern m)" for k
    using class_up_nodes [OF assms(2)] that by (simp add: nodes_are_def)
  have up: "module_up K S (m\<lparr>kern := k\<rparr>) r" if "nodes_are K S ?x (m\<lparr>kern := k\<rparr>)" for S k
    using module_up_intro [OF _ _ kern_only_upd that] assms(2) by (simp add: class_up_def)
  have run: "nodes_are K (if e = None then set (cpus r) else {}) ?x (m\<lparr>kern := k1\<rparr>)"
    if "reg K k0 = reg K (kern m)" "run_up (node_up K m) (node_down K m) [] (cpus r) k0 = (e, k1)" for k0 k1 e
    using run_up_nodes [OF assms(1), of "[]" ?x k0 m "cpus r" e k1] n [OF that(1)] that(2) by (cases e) simp_all
  show ?thesis
  proof (cases q)
    case (Inl e)
    from kernel_hotplug(4) [OF assms(1) assms(3) [unfolded Inl]] have "nodes_are K {} ?x (m\<lparr>kern := k'\<rparr>)"
    proof (elim disjE exE conjE)
      fix k0 k1
      assume "reg K k0 = reg K (kern m)" "reg K k' = reg K k1"
        "run_up (node_up K m) (node_down K m) [] (cpus (reg K (kern m))) k0 = (Some e, k1)"
      then show ?thesis using nodes_are_kern [OF run [of k0 "Some e" k1], of k'] unfolding c by simp
    qed (rule n)
    with Inl up show ?thesis by simp
  next
    case (Inr i)
    obtain k0 k1 where k: "reg K k0 = reg K (kern m)" "run_up (node_up K m) (node_down K m) [] (cpus r) k0 = (None, k1)"
      "reg K k' = (reg K k1)\<lparr>hotplug := True\<rparr>"
      using kernel_hotplug(5) [OF assms(1) assms(3) [unfolded Inr]] unfolding c by blast
    from up [of "set (cpus r)" k1] run [OF k(1,2)] have "module_up K (set (cpus r)) (m\<lparr>kern := k1\<rparr>) r" by simp
    from module_up_reg [OF this, of k' True] k(3) Inr show ?thesis by simp
  qed
qed

text \<open>All the error exits behind the version device, and success.\<close>

definition init_tail :: "'k kernel_api \<Rightarrow> nat \<Rightarrow> 'k msr_module \<Rightarrow> errno option \<times> 'k msr_module" where
  "init_tail K v m =
     (if v < KERNEL_VERSION 4 10 0
      then (case create_online K None (online_cpus K (kern m)) m of
              (Some err, m6) \<Rightarrow> (Some err, out_class K v m6)
            | (None, m6) \<Rightarrow> (None, m6\<lparr>kern := register_hotcpu_notifier K (kern m6)\<rparr>))
      else (case cpuhp_setup_state K (node_up K m) (node_down K m) (kern m) of
              (Inl err, k6) \<Rightarrow> (Some err, out_class K v (m\<lparr>kern := k6\<rparr>))
            | (Inr err, k6) \<Rightarrow> (None, m\<lparr>kern := k6, cpuhp_msr_state := err\<rparr>)))"

definition init_outcome :: "'k kernel_api \<Rightarrow> nat \<Rightarrow> registry \<Rightarrow> errno option \<times> 'k msr_module \<Rightarrow> bool" where
  "init_outcome K v r x \<longleftrightarrow> (case fst x of
      None \<Rightarrow> \<exists>S \<subseteq> set (cpus r). module_up K S (snd x) (r\<lparr>hotplug := True\<rparr>)
        \<and> (KERNEL_VERSION 4 10 0 \<le> v \<longrightarrow> S = set (cpus r))
    | Some _ \<Rightarrow> reg K (kern (snd x)) = r \<and> module_idle (snd x))"

lemma init_tail_result:
  assumes "kernel_ok K" and "class_up K m r"
  shows "init_outcome K v r (init_tail K v m)"
proof (cases "v < KERNEL_VERSION 4 10 0")
  case True
  obtain q m1 where q: "create_online K None (cpus r) m = (q, m1)" by fastforce
  obtain S where S: "S \<subseteq> set (cpus r)" "module_up K S m1 r" using init_cpus_old [OF assms q] by blast
  have t: "init_tail K v m = (case q of Some err \<Rightarrow> (Some err, out_class K v m1)
      | None \<Rightarrow> (None, m1\<lparr>kern := register_hotcpu_notifier K (kern m1)\<rparr>))"
    using True q assms(2) by (simp add: init_tail_def kernel_hotplug(1) [OF assms(1)] class_up_def split: option.splits)
  show ?thesis
  proof (cases q)
    case None
    with module_up_reg [OF S(2) kernel_hotplug(2) [OF assms(1)]] S(1) True show ?thesis
      by (auto simp: init_outcome_def t)
  next
    case (Some e)
    with out_class_restores [OF assms(1) S(2), of v] S(1) True show ?thesis by (simp add: init_outcome_def t)
  qed
next
  case False
  obtain q k' where q: "cpuhp_setup_state K (node_up K m) (node_down K m) (kern m) = (q, k')" by fastforce
  have t: "init_tail K v m = (case q of Inl err \<Rightarrow> (Some err, out_class K v (m\<lparr>kern := k'\<rparr>))
      | Inr err \<Rightarrow> (None, m\<lparr>kern := k', cpuhp_msr_state := err\<rparr>))"
    using False q by (simp add: init_tail_def split: sum.splits)
  note res = init_cpus_new [OF assms q]
  show ?thesis
  proof (cases q)
    case (Inl e)
    with out_class_restores [OF assms(1), of "{}" "m\<lparr>kern := k'\<rparr>" r v] res False show ?thesis
      by (simp add: init_outcome_def t)
  next
    case (Inr n)
    with res show ?thesis by (auto simp: init_outcome_def t)
  qed
qed

lemma msr_init_tail:
  "msr_init K v m0 =
     (case call_batch_init K m0 of
        (Some err, m1) \<Rightarrow> (Some err, m1)
      | (None, m1) \<Rightarrow>
     (case call_allowlist_init K m1 of
        (Some err, m2) \<Rightarrow> (Some err, out_batch K m2)
      | (None, m2) \<Rightarrow>
     (case call_version_init K m2 of
        (Some err, m3) \<Rightarrow> (Some err, out_version K m3)
      | (None, m3) \<Rightarrow>
     (case register_chrdev K (mdev_msr_safe m3) (num_possible_cpus K) ''cpu/msr_safe'' (kern m3) of
        (Inl _, k4) \<Rightarrow> (Some EBUSY, out_wlist K (m3\<lparr>kern := k4\<rparr>))
      | (Inr err, k4) \<Rightarrow>
          let m4 = m3\<lparr>kern := k4, mdev_msr_safe := (if err > 0 then err else mdev_msr_safe m3)\<rparr>
          in case class_create K ''msr_safe'' k4 of
               (Inl err, k5) \<Rightarrow> (Some err, out_chrdev K (m4\<lparr>kern := k5, msr_class := None\<rparr>))
             | (Inr cls, k5) \<Rightarrow> init_tail K v (m4\<lparr>kern := k5, msr_class := Some cls\<rparr>)))))"
  unfolding msr_init_def init_tail_def Let_def by (rule refl)

text \<open>The state in which a failure of the version device leaves the other two devices.\<close>

definition leaves_two :: "'k kernel_api \<Rightarrow> 'k msr_module \<Rightarrow> registry \<Rightarrow> bool" where
  "leaves_two K m r \<longleftrightarrow> reg K (kern m) =
     add_dev allowlist_names (mdev_msr_allowlist m) (add_dev batch_names (mdev_msr_batch m) r)
   \<and> fresh_dev batch_names (mdev_msr_batch m) r
   \<and> fresh_dev allowlist_names (mdev_msr_allowlist m) (add_dev batch_names (mdev_msr_batch m) r)"

text \<open>The init functions of the first two devices succeed and that of the version device fails.\<close>

definition version_step_fails :: "'k kernel_api \<Rightarrow> 'k msr_module \<Rightarrow> bool" where
  "version_step_fails K m0 =
     (case call_batch_init K m0 of
        (Some _, _) \<Rightarrow> False
      | (None, m1) \<Rightarrow>
          (case call_allowlist_init K m1 of
             (Some _, _) \<Rightarrow> False
           | (None, m2) \<Rightarrow> fst (call_version_init K m2) \<noteq> None))"

lemma allowlist_fails_restores:
  assumes "kernel_ok K" and "reg_wf r" and "cdev_up batch_names (md_batch m)"
    and "fresh_dev batch_names (mdev_msr_batch m) r"
    and "reg K (kern m) = add_dev batch_names (mdev_msr_batch m) r"
    and "al_idle (md_allowlist m)" and "cdev_idle (md_version m)"
  shows "reg K (kern (out_batch K m)) = r \<and> module_idle (out_batch K m)"
proof -
  obtain c k where "cdev_idle c" "reg K k = r" "call_batch_cleanup K m = m\<lparr>md_batch := c, kern := k\<rparr>"
    using call_batch_cleanup_up [OF assms(1,3)] assms(2,4) by (auto simp: assms(5) remove_add_dev)
  then show ?thesis
    using assms(6,7) by (simp add: out_batch_def out_version_def call_version_cleanup_idle module_idle_def)
qed

text \<open>The two requests for the per-CPU devices.\<close>

lemma safe_register_result:
  assumes "kernel_ok K" and "drivers_up m r" and "reg K (kern m) = base3 m r"
    and "register_chrdev K (mdev_msr_safe m) (num_possible_cpus K) ''cpu/msr_safe'' (kern m) = (Inr n, k4)"
    and "m4 = m\<lparr>kern := k4, mdev_msr_safe := (if n > 0 then n else mdev_msr_safe m)\<rparr>"
  shows "drivers_up m4 r \<and> base3 m4 r = base3 m r \<and> chrdevs (base3 m4 r) (mdev_msr_safe m4) = None
    \<and> reg K (kern m4) = add_chrdev (mdev_msr_safe m4) (num_possible_cpus K) ''cpu/msr_safe'' (base3 m4 r)"
  using assms(2,3) kernel_chrdev(2) [OF assms(1,4)]
  by (auto simp: assms(5) reg_major_def drivers_up_def base3_def)

lemma safe_class_up:
  assumes "kernel_ok K" and "drivers_up m r" and "chrdevs (base3 m r) (mdev_msr_safe m) = None"
    and "reg K (kern m) = add_chrdev (mdev_msr_safe m) (num_possible_cpus K) ''cpu/msr_safe'' (base3 m r)"
    and "class_create K ''msr_safe'' (kern m) = (Inr cls, k)"
  shows "class_up K (m\<lparr>kern := k, msr_class := Some cls\<rparr>) r"
  using kernel_class(2) [OF assms(1,5)] assms(2-4)
  by (simp add: class_up_def add_safe_def add_chrdev_def safe_fresh_def drivers_up_def base3_def)

lemma msr_init_safe_result:
  assumes "kernel_ok K" and "drivers_up m3 r" and "reg K (kern m3) = base3 m3 r"
  shows "init_outcome K v r
     (case register_chrdev K (mdev_msr_safe m3) (num_possible_cpus K) ''cpu/msr_safe'' (kern m3) of
        (Inl _, k4) \<Rightarrow> (Some EBUSY, out_wlist K (m3\<lparr>kern := k4\<rparr>))
      | (Inr err, k4) \<Rightarrow>
          let m4 = m3\<lparr>kern := k4, mdev_msr_safe := (if err > 0 then err else mdev_msr_safe m3)\<rparr>
          in case class_create K ''msr_safe'' k4 of
               (Inl err, k5) \<Rightarrow> (Some err, out_chrdev K (m4\<lparr>kern := k5, msr_class := None\<rparr>))
             | (Inr cls, k5) \<Rightarrow> init_tail K v (m4\<lparr>kern := k5, msr_class := Some cls\<rparr>))"
    (is "init_outcome K v r ?rest")
proof -
  obtain q k4 where
    q: "register_chrdev K (mdev_msr_safe m3) (num_possible_cpus K) ''cpu/msr_safe'' (kern m3) = (q, k4)"
    by fastforce
  show ?thesis
  proof (cases q)
    case (Inl e)
    with out_wlist_restores [OF assms(1), of "m3\<lparr>kern := k4\<rparr>" r] assms(2,3) q
      kernel_chrdev(1) [OF assms(1) q [unfolded Inl]] show ?thesis by (simp add: init_outcome_def)
  next
    case (Inr n)
    define m4 where "m4 = m3\<lparr>kern := k4, mdev_msr_safe := (if n > 0 then n else mdev_msr_safe m3)\<rparr>"
    have m4: "drivers_up m4 r" "chrdevs (base3 m4 r) (mdev_msr_safe m4) = None"
      "reg K (kern m4) = add_chrdev (mdev_msr_safe m4) (num_possible_cpus K) ''cpu/msr_safe'' (base3 m4 r)"
      using safe_register_result [OF assms q [unfolded Inr] m4_def] by blast+
    obtain c k5 where c: "class_create K ''msr_safe'' (kern m4) = (c, k5)" by fastforce
    have rest: "?rest = (case c of Inl err \<Rightarrow> (Some err, out_chrdev K (m4\<lparr>kern := k5, msr_class := None\<rparr>))
        | Inr cls \<Rightarrow> init_tail K v (m4\<lparr>kern := k5, msr_class := Some cls\<rparr>))"
      using c unfolding q Inr m4_def by (simp add: Let_def split: sum.splits)
    show ?thesis
    proof (cases c)
      case (Inl e)
      let ?m = "m4\<lparr>kern := k5, msr_class := None\<rparr>"
      have "base3 ?m r = base3 m4 r" "drivers_up ?m r = drivers_up m4 r"
        by (simp_all add: base3_def drivers_up_def)
      with out_chrdev_restores [OF assms(1), of ?m r] m4 kernel_class(1) [OF assms(1) c [unfolded Inl]] Inl
      show ?thesis unfolding rest by (simp add: init_outcome_def)
    next
      case (Inr cls)
      have "class_up K (m4\<lparr>kern := k5, msr_class := Some cls\<rparr>) r"
        using m4 by (intro safe_class_up [OF assms(1) _ _ _ c [unfolded Inr]]) simp_all
      from init_tail_result [OF assms(1) this] show ?thesis unfolding rest Inr by simp
    qed
  qed
qed

text \<open>The first three stages of \<open>msr_init\<close>, each after the ones before it have succeeded.\<close>

lemma batch_stage:
  assumes "kernel_ok K" and "reg_wf (reg K (kern m0))" and "module_idle m0" and "call_batch_init K m0 = (None, m1)"
  shows "md_allowlist m1 = md_allowlist m0" and "md_version m1 = md_version m0"
    and "cdev_up batch_names (md_batch m1)" and "fresh_dev batch_names (mdev_msr_batch m1) (reg K (kern m0))"
    and "reg K (kern m1) = add_dev batch_names (mdev_msr_batch m1) (reg K (kern m0))"
  using call_batch_init_result [OF assms(1) _ assms(4)] assms(3)
  by (simp_all add: module_idle_def)

lemma allowlist_stage:
  assumes "kernel_ok K" and "al_idle (md_allowlist m1)" and "call_allowlist_init K m1 = (None, m2)"
  shows "md_batch m2 = md_batch m1" and "mdev_msr_batch m2 = mdev_msr_batch m1"
    and "md_version m2 = md_version m1" and "al_up (md_allowlist m2)"
    and "fresh_dev allowlist_names (mdev_msr_allowlist m2) (reg K (kern m1))"
    and "reg K (kern m2) = add_dev allowlist_names (mdev_msr_allowlist m2) (reg K (kern m1))"
  using call_allowlist_init_result [OF assms] by simp_all

lemma allowlist_stage_fails:
  assumes "kernel_ok K" and "reg_wf (reg K (kern m0))" and "module_idle m0" and "msr_init K v m0 = (e, m')"
    and "call_batch_init K m0 = (None, m1)" and "call_allowlist_init K m1 = (Some err, m2)"
  shows "e = Some err" and "reg K (kern m') = reg K (kern m0)" and "module_idle m'"
    and "\<not> version_step_fails K m0"
proof -
  have idle: "al_idle (md_allowlist m0)" "cdev_idle (md_version m0)"
    using assms(3) by (simp_all add: module_idle_def)
  note b = batch_stage [OF assms(1-3,5)]
  have r: "e = Some err" "m' = out_batch K m2" using assms(4-6) by (simp_all add: msr_init_tail)
  then show "e = Some err" by simp
  note a = call_allowlist_init_result [OF assms(1) _ assms(6)]
  show "reg K (kern m') = reg K (kern m0)" "module_idle m'"
    using allowlist_fails_restores [OF assms(1,2), of m2] a b idle r by simp_all
  show "\<not> version_step_fails K m0" using assms(5,6) by (simp add: version_step_fails_def)
qed

lemma version_stage_fails:
  assumes "kernel_ok K" and "module_idle m0" and "reg_wf (reg K (kern m0))" and "msr_init K v m0 = (e, m')"
    and "call_batch_init K m0 = (None, m1)" and "call_allowlist_init K m1 = (None, m2)"
    and "call_version_init K m2 = (Some err, m3)"
  shows "e = Some err" and "leaves_two K m' (reg K (kern m0))" and "version_step_fails K m0"
proof -
  have idle: "al_idle (md_allowlist m0)" "cdev_idle (md_version m0)"
    using assms(2) by (simp_all add: module_idle_def)
  note b = batch_stage [OF assms(1,3,2,5)]
  note a = allowlist_stage [OF assms(1) _ assms(6), unfolded b(1), OF idle(1)]
  have iv: "cdev_idle (md_version m2)" using a(3) b(2) idle(2) by simp
  note w = call_version_init_result [OF assms(1) iv assms(7)]
  have r: "e = Some err" "m' = out_version K m3" using assms(4-7) by (simp_all add: msr_init_tail)
  then show "e = Some err" by simp
  have "out_version K m3 = m3" using w by (simp add: out_version_def call_version_cleanup_idle)
  with w a b r show "leaves_two K m' (reg K (kern m0))" by (simp add: leaves_two_def)
  show "version_step_fails K m0" using assms(5-7) by (simp add: version_step_fails_def)
qed

lemma drivers_stage:
  assumes "kernel_ok K" and "reg_wf (reg K (kern m0))" and "module_idle m0"
    and "call_batch_init K m0 = (None, m1)" and "call_allowlist_init K m1 = (None, m2)"
    and "call_version_init K m2 = (None, m3)"
  shows "drivers_up m3 (reg K (kern m0))" and "reg K (kern m3) = base3 m3 (reg K (kern m0))"
    and "\<not> version_step_fails K m0"
proof -
  have idle: "al_idle (md_allowlist m0)" "cdev_idle (md_version m0)"
    using assms(3) by (simp_all add: module_idle_def)
  note b = batch_stage [OF assms(1-4)]
  note a = allowlist_stage [OF assms(1) _ assms(5), unfolded b(1), OF idle(1)]
  have iv: "cdev_idle (md_version m2)" using a(3) b(2) idle(2) by simp
  note w = call_version_init_result [OF assms(1) iv assms(6)]
  show "drivers_up m3 (reg K (kern m0))" "reg K (kern m3) = base3 m3 (reg K (kern m0))"
    using w a b assms(2) by (simp_all add: drivers_up_def base3_def)
  show "\<not> version_step_fails K m0" using assms(4-6) by (simp add: version_step_fails_def)
qed

lemma msr_init_result:
  assumes "kernel_ok K" and "reg_wf (reg K (kern m0))" and "module_idle m0" and "msr_init K v m0 = (e, m')"
  shows "if version_step_fails K m0 then e \<noteq> None \<and> leaves_two K m' (reg K (kern m0))
    else init_outcome K v (reg K (kern m0)) (e, m')"
proof -
  obtain r1 m1 r2 m2 r3 m3 where 1: "call_batch_init K m0 = (r1, m1)"
    and 2: "call_allowlist_init K m1 = (r2, m2)" and 3: "call_version_init K m2 = (r3, m3)"
    by (metis surj_pair)
  consider x where "r1 = Some x" | x where "r1 = None" "r2 = Some x" | x where "r1 = None" "r2 = None" "r3 = Some x"
    | "r1 = None" "r2 = None" "r3 = None" by (metis option.exhaust)
  then show ?thesis
  proof cases
    case c: (1 x)
    with 1 assms(4) have "e = Some x" "m' = m1" by (simp_all add: msr_init_tail)
    with c 1 assms(3) call_batch_init_result [OF assms(1) _ 1] show ?thesis
      by (simp add: module_idle_def version_step_fails_def init_outcome_def)
  next
    case c: (2 x)
    from allowlist_stage_fails [OF assms 1 [unfolded c] 2 [unfolded c]] show ?thesis
      by (simp add: init_outcome_def)
  next
    case c: (3 x)
    from version_stage_fails [OF assms(1,3,2,4) 1 [unfolded c] 2 [unfolded c] 3 [unfolded c]] show ?thesis by simp
  next
    case c: 4
    note d = drivers_stage [OF assms(1-3) 1 [unfolded c] 2 [unfolded c] 3 [unfolded c]]
    from msr_init_safe_result [OF assms(1) d(1,2), of v] assms(4) 1 2 3 c d(3) show ?thesis
      by (simp add: msr_init_tail)
  qed
qed

lemma module_up_nodes:
  assumes "module_up K S m r"
  shows "nodes (reg K (kern m)) (''msr_safe'', mdev_msr_safe m, c)
    = (if c \<in> S then Some (cpu_node_name c) else None)"
proof -
  define x where "x = add_safe (num_possible_cpus K) (mdev_msr_safe m) (base3 m r)"
  have "reg K (kern m) = cpu_nodes (mdev_msr_safe m) S x" "nodes x (''msr_safe'', mdev_msr_safe m, c) = None"
    using assms by (simp_all add: module_up_def nodes_are_def x_def)
  then show ?thesis by (simp add: cpu_nodes_def)
qed

end
