(* ===== verification/Module_Life.thy ===== *)
theory Module_Life
  imports Module_Init Step_System
begin

text \<open>
  The life of the module in a kernel: it is loaded, CPUs go on- and offline, it is unloaded.
  The theory shows that the device nodes follow the CPUs, which error exits of \<open>msr_init\<close>
  leave the kernel's registry as they found it, that one does not, and that unloading after
  any history leaves nothing behind.
\<close>

section \<open>CPUs that come and go\<close>

text \<open>The callbacks that the kernel runs when a CPU comes up or is dead, in the two variants.\<close>

definition hotplug_up :: "'k kernel_api \<Rightarrow> nat \<Rightarrow> nat \<Rightarrow> 'k msr_module \<Rightarrow> errno option \<times> 'k msr_module" where
  "hotplug_up K version_code cpu m =
     (if version_code < KERNEL_VERSION 4 10 0 then msr_class_cpu_callback K CPU_UP_PREPARE cpu m
      else msr_device_create K cpu m)"

definition hotplug_down :: "'k kernel_api \<Rightarrow> nat \<Rightarrow> nat \<Rightarrow> 'k msr_module \<Rightarrow> 'k msr_module" where
  "hotplug_down K version_code cpu m =
     (if version_code < KERNEL_VERSION 4 10 0 then snd (msr_class_cpu_callback K CPU_DEAD cpu m)
      else msr_device_destroy K cpu m)"

text \<open>
  What the kernel runs when the callback has succeeded and the CPU then fails to come up, in a
  later callback or by itself: older kernels tell the notifiers, newer ones call the teardown
  callback of every state that was set up.
\<close>

definition hotplug_cancel :: "'k kernel_api \<Rightarrow> nat \<Rightarrow> nat \<Rightarrow> 'k msr_module \<Rightarrow> 'k msr_module" where
  "hotplug_cancel K version_code cpu m =
     (if version_code < KERNEL_VERSION 4 10 0 then snd (msr_class_cpu_callback K CPU_UP_CANCELED cpu m)
      else msr_device_destroy K cpu m)"

text \<open>
  A step of the kernel while the callback is installed: a CPU comes up; the callback refuses
  it, after which the kernel does not call it again; the CPU fails after the callback; a CPU
  goes down; or the kernel does something else that does not show. Suspend and resume, for
  which older kernels have actions of their own, are not among the steps.
\<close>

inductive hot_step :: "'k kernel_api \<Rightarrow> nat \<Rightarrow> 'k msr_module \<Rightarrow> 'k msr_module \<Rightarrow> bool"
  for K :: "'k kernel_api" and v :: nat where
  cpu_up: "\<lbrakk>hotplug (reg K (kern m)); c \<notin> set (cpus (reg K (kern m))); hotplug_up K v c m = (None, m1);
      reg K k = (reg K (kern m1))\<lparr>cpus := c # cpus (reg K (kern m))\<rparr>\<rbrakk> \<Longrightarrow>
    hot_step K v m (m1\<lparr>kern := k\<rparr>)"
| cpu_refused: "\<lbrakk>hotplug (reg K (kern m)); c \<notin> set (cpus (reg K (kern m))); hotplug_up K v c m = (Some e, m1)\<rbrakk> \<Longrightarrow>
    hot_step K v m m1"
| cpu_failed: "\<lbrakk>hotplug (reg K (kern m)); c \<notin> set (cpus (reg K (kern m))); hotplug_up K v c m = (None, m1)\<rbrakk> \<Longrightarrow>
    hot_step K v m (hotplug_cancel K v c m1)"
| cpu_down: "\<lbrakk>hotplug (reg K (kern m)); c \<in> set (cpus (reg K (kern m))); hotplug_down K v c m = m1;
      reg K k = (reg K (kern m1))\<lparr>cpus := removeAll c (cpus (reg K (kern m)))\<rparr>\<rbrakk> \<Longrightarrow>
    hot_step K v m (m1\<lparr>kern := k\<rparr>)"
| hidden: "reg K k = reg K (kern m) \<Longrightarrow> hot_step K v m (m\<lparr>kern := k\<rparr>)"

definition loaded :: "'k kernel_api \<Rightarrow> nat \<Rightarrow> 'k msr_module \<Rightarrow> 'k msr_module \<Rightarrow> bool" where
  "loaded K v m0 m \<longleftrightarrow> (\<exists>m1. msr_init K v m0 = (None, m1) \<and> (hot_step K v)\<^sup>*\<^sup>* m1 m)"

lemma loaded_init: "msr_init K v m0 = (None, m) \<Longrightarrow> loaded K v m0 m"
  by (auto simp: loaded_def)

lemma loaded_step: "loaded K v m0 m \<Longrightarrow> hot_step K v m m' \<Longrightarrow> loaded K v m0 m'"
  by (auto simp: loaded_def intro: rtranclp.rtrancl_into_rtrancl)

text \<open>
  The registry is that before the module was loaded, with the CPUs of now, plus what the
  module has added; \<open>S\<close> are the CPUs with a node.
\<close>

definition hot_inv :: "'k kernel_api \<Rightarrow> nat \<Rightarrow> registry \<Rightarrow> 'k msr_module \<Rightarrow> bool" where
  "hot_inv K v r m \<longleftrightarrow> (\<exists>S \<subseteq> set (cpus (reg K (kern m))).
     module_up K S m (r\<lparr>hotplug := True, cpus := cpus (reg K (kern m))\<rparr>)
     \<and> (KERNEL_VERSION 4 10 0 \<le> v \<longrightarrow> S = set (cpus (reg K (kern m)))))"

lemma hot_invE:
  assumes "hot_inv K v r m"
  obtains S where "S \<subseteq> set (cpus (reg K (kern m)))"
    and "module_up K S m (r\<lparr>hotplug := True, cpus := cpus (reg K (kern m))\<rparr>)"
    and "KERNEL_VERSION 4 10 0 \<le> v \<longrightarrow> S = set (cpus (reg K (kern m)))"
  using assms by (auto simp: hot_inv_def)

lemma module_up_cpus:
  assumes "module_up K S m r" and "reg K k = (reg K (kern m))\<lparr>cpus := cs\<rparr>"
  shows "module_up K S (m\<lparr>kern := k\<rparr>) (r\<lparr>cpus := cs\<rparr>)"
  using assms by (simp add: module_up_def nodes_are_def)

lemma module_up_hidden: "module_up K S m r \<Longrightarrow> reg K k = reg K (kern m) \<Longrightarrow> module_up K S (m\<lparr>kern := k\<rparr>) r"
  by (simp add: module_up_def nodes_are_def)

lemma hot_up_nodes:
  assumes "kernel_ok K" and "module_up K S m r" and "hotplug_up K v c m = (e, m1)"
  shows "module_up K (if e = None then insert c S else S) m1 r"
proof -
  have c: "msr_device_create K c m = (e, m1)"
    using assms(3) by (auto simp: hotplug_up_def msr_class_cpu_callback_def split: if_splits)
  have "nodes_are K S (add_safe (num_possible_cpus K) (mdev_msr_safe m) (base3 m r)) m"
    using assms(2) by (simp add: module_up_def)
  from device_create_nodes [OF assms(1) this c] assms(2) show ?thesis
    by (intro module_up_intro [of m r m1]) (simp_all add: module_up_def)
qed

lemma destroy_up_nodes:
  assumes "kernel_ok K" and "module_up K S m r"
  shows "module_up K (S - {c}) (msr_device_destroy K c m) r"
proof -
  have "nodes_are K S (add_safe (num_possible_cpus K) (mdev_msr_safe m) (base3 m r)) m"
    using assms(2) by (simp add: module_up_def)
  from device_destroy_nodes [OF assms(1) this, of c] assms(2) show ?thesis
    by (intro module_up_intro [of m r]) (simp_all add: module_up_def)
qed

lemma hot_down_nodes:
  assumes "kernel_ok K" and "module_up K S m r"
  shows "module_up K (S - {c}) (hotplug_down K v c m) r"
  using destroy_up_nodes [OF assms] by (simp add: hotplug_down_def msr_class_cpu_callback_def)

lemma hot_cancel_nodes:
  assumes "kernel_ok K" and "module_up K S m r"
  shows "module_up K (S - {c}) (hotplug_cancel K v c m) r"
  using destroy_up_nodes [OF assms, of c] by (simp add: hotplug_cancel_def msr_class_cpu_callback_def)

lemma hot_inv_intro:
  assumes "module_up K S m (r\<lparr>hotplug := True, cpus := cs\<rparr>)" and "S \<subseteq> set cs"
    and "KERNEL_VERSION 4 10 0 \<le> v \<longrightarrow> S = set cs"
  shows "hot_inv K v r m"
  using assms module_up_kern [OF assms(1)] by (auto simp: hot_inv_def intro!: exI [of _ S])

lemma hot_inv_step:
  assumes "kernel_ok K" and "hot_step K v m m'" and "hot_inv K v r m"
  shows "hot_inv K v r m'"
proof -
  from assms(3) obtain S where S: "S \<subseteq> set (cpus (reg K (kern m)))"
    "module_up K S m (r\<lparr>hotplug := True, cpus := cpus (reg K (kern m))\<rparr>)"
    "KERNEL_VERSION 4 10 0 \<le> v \<longrightarrow> S = set (cpus (reg K (kern m)))" by (rule hot_invE)
  from assms(2) show ?thesis
  proof cases
    case (cpu_up c m1 k)
    from module_up_cpus [OF hot_up_nodes [OF assms(1) S(2) cpu_up(4)] cpu_up(5)] S cpu_up(1)
    show ?thesis by (intro hot_inv_intro [of K "insert c S" _ "c # cpus (reg K (kern m))" r]) auto
  next
    case (cpu_refused c e)
    from hot_up_nodes [OF assms(1) S(2) cpu_refused(3)] S show ?thesis
      by (intro hot_inv_intro [of K S _ "cpus (reg K (kern m))" r]) simp_all
  next
    case (cpu_failed c m1)
    have "c \<notin> S" using cpu_failed(3) S(1) by blast
    with hot_cancel_nodes [OF assms(1) hot_up_nodes [OF assms(1) S(2) cpu_failed(4)], of c v] S cpu_failed(1)
    show ?thesis by (intro hot_inv_intro [of K S _ "cpus (reg K (kern m))" r]) simp_all
  next
    case (cpu_down c m1 k)
    have "module_up K (S - {c}) (m1\<lparr>kern := k\<rparr>) (r\<lparr>hotplug := True, cpus := removeAll c (cpus (reg K (kern m)))\<rparr>)"
      using module_up_cpus [OF hot_down_nodes [OF assms(1) S(2), of c v], of k] cpu_down(4,5) by simp
    with S cpu_down(1) show ?thesis
      by (intro hot_inv_intro [of K "S - {c}" _ "removeAll c (cpus (reg K (kern m)))" r]) auto
  next
    case (hidden k)
    with module_up_hidden [OF S(2)] S show ?thesis
      by (intro hot_inv_intro [of K S _ "cpus (reg K (kern m))" r]) simp_all
  qed
qed

lemma hot_inv_init:
  assumes "kernel_ok K" and "reg_wf (reg K (kern m0))" and "module_idle m0" and "msr_init K v m0 = (None, m)"
  shows "hot_inv K v (reg K (kern m0)) m"
proof -
  from msr_init_result [OF assms] obtain S where "S \<subseteq> set (cpus (reg K (kern m0)))"
    "module_up K S m ((reg K (kern m0))\<lparr>hotplug := True\<rparr>)"
    "KERNEL_VERSION 4 10 0 \<le> v \<longrightarrow> S = set (cpus (reg K (kern m0)))"
    by (auto simp: init_outcome_def split: if_splits)
  moreover have "(reg K (kern m0))\<lparr>hotplug := True, cpus := cpus (reg K (kern m0))\<rparr> = (reg K (kern m0))\<lparr>hotplug := True\<rparr>"
    by simp
  ultimately show ?thesis by (intro hot_inv_intro) simp_all
qed

interpretation hot: step_system
  "\<lambda>m. kernel_ok K \<and> reg_wf (reg K (kern m0)) \<and> module_idle m0 \<and> msr_init K v m0 = (None, m)"
  "hot_step K v" "\<lambda>m. kernel_ok K \<and> hot_inv K v (reg K (kern m0)) m"
  for K :: "'k kernel_api" and v m0
  by unfold_locales (use hot_inv_init hot_inv_step in blast)+

lemma loaded_inv:
  assumes "loaded K v m0 m" and "kernel_ok K" and "reg_wf (reg K (kern m0))" and "module_idle m0"
  shows "hot_inv K v (reg K (kern m0)) m"
  using hot.reachable_inv assms unfolding loaded_def by blast

section \<open>A kernel for the witnesses\<close>

text \<open>
  A kernel whose state is its registry, with two CPUs, whose calls succeed unless a name or a
  major is taken, and the module's state before it is loaded. \<open>dev\<close> are the nodes that this
  kernel cannot create.
\<close>

definition plain_kernel :: "(string \<times> nat \<Rightarrow> bool) \<Rightarrow> registry kernel_api" where
  "plain_kernel dev = \<lparr>
     reg = (\<lambda>r. r),
     register_chrdev = (\<lambda>major len nm r.
       if major = 0
       then (case find (\<lambda>n. chrdevs r n = None) [254, 253, 252, 251] of
               None \<Rightarrow> (Inl EBUSY, r)
             | Some n \<Rightarrow> (Inr n, add_chrdev n len nm r))
       else if chrdevs r major = None then (Inr 0, add_chrdev major len nm r) else (Inl EBUSY, r)),
     unregister_chrdev = (\<lambda>major len nm r. r\<lparr>chrdevs := (chrdevs r)(major := None)\<rparr>),
     class_create = (\<lambda>nm r. if nm \<in> classes r then (Inl (Eother 17), r) else (Inr nm, r\<lparr>classes := insert nm (classes r)\<rparr>)),
     class_destroy = (\<lambda>cls r. r\<lparr>classes := classes r - {cls}\<rparr>),
     device_create = (\<lambda>cls ma mi nm r. if dev (cls, mi) then (Some ENOMEM, r)
       else (None, r\<lparr>nodes := (nodes r)((cls, ma, mi) \<mapsto> nm)\<rparr>)),
     device_destroy = (\<lambda>cls ma mi r. r\<lparr>nodes := (nodes r)((cls, ma, mi) := None)\<rparr>),
     online_cpus = cpus,
     num_possible_cpus = 2,
     register_hotcpu_notifier = (\<lambda>r. r\<lparr>hotplug := True\<rparr>),
     unregister_hotcpu_notifier = (\<lambda>r. r\<lparr>hotplug := False\<rparr>),
     cpuhp_setup_state = (\<lambda>up down r. case run_up up down [] (cpus r) r of
         (Some e, r1) \<Rightarrow> (Inl e, r1)
       | (None, r1) \<Rightarrow> (Inr 200, r1\<lparr>hotplug := True\<rparr>)),
     cpuhp_remove_state = (\<lambda>n down r. (run_down down (cpus r) r)\<lparr>hotplug := False\<rparr>)\<rparr>"

lemma plain_kernel_ok: "kernel_ok (plain_kernel dev)"
proof -
  have "chrdev_ok (plain_kernel dev)"
    by (auto simp: chrdev_ok_def plain_kernel_def reg_major_def domIff find_Some_iff split: if_splits option.splits)
  moreover have "class_ok (plain_kernel dev)" "device_ok (plain_kernel dev)"
    by (auto simp: class_ok_def device_ok_def plain_kernel_def split: if_splits)
  moreover have "hotplug_ok (plain_kernel dev)"
    by (auto simp: hotplug_ok_def plain_kernel_def split: prod.splits option.splits)
  ultimately show ?thesis by (simp add: kernel_ok_def)
qed

definition idle_dev :: cdev where
  "idle_dev = \<lparr>cdev_class = None, cdev_created = False, cdev_registered = False, cdev_class_created = False\<rparr>"

definition sample_registry :: registry where
  "sample_registry = \<lparr>chrdevs = [1 \<mapsto> (''mem'', 256)], classes = {''mem''}, nodes = [(''mem'', 1, 3) \<mapsto> ''null''],
     cpus = [0, 1], hotplug = False\<rparr>"

definition sample_module :: "nat \<Rightarrow> registry msr_module" where
  "sample_module version_major = \<lparr>md_batch = idle_dev, md_allowlist = (al_initial, idle_dev), md_version = idle_dev,
     mdev_msr_safe = 240, mdev_msr_allowlist = 241, mdev_msr_batch = 242, mdev_msr_version = version_major,
     msr_class = None, cpuhp_msr_state = 0, kern = sample_registry\<rparr>"

abbreviation "all_nodes \<equiv> plain_kernel (\<lambda>_. False)"

lemma reg_plain [simp]: "reg (plain_kernel dev) r = r"
  by (simp add: plain_kernel_def)

lemma sample_module_ok: "reg_wf (reg (plain_kernel dev) (kern (sample_module n)))" "module_idle (sample_module n)"
  by (simp_all add: sample_module_def sample_registry_def reg_wf_def module_idle_def al_idle_def cdev_idle_def
      idle_dev_def al_initial_def)

lemmas module_eval = sample_module_def sample_registry_def idle_dev_def plain_kernel_def msr_init_def
  call_batch_init_def call_allowlist_init_def call_version_init_def msrbatch_init_def msr_allowlist_init_def
  msr_version_init_def chrdev_bringup_def reg_major_def add_chrdev_def node_up_def
  batch_names_def allowlist_names_def version_names_def KERNEL_VERSION_def msr_device_create_def

lemma sample_loads: "\<exists>m. msr_init all_nodes (KERNEL_VERSION 5 14 0) (sample_module 243) = (None, m)"
  by (simp add: module_eval)

section \<open>Properties\<close>

text \<open>
  C15: while the module is loaded, the node of a CPU exists only if the CPU is online; on
  kernels from 4.10 on every CPU that is online has its node. This holds after any sequence
  of CPUs coming up, being refused by the callback, failing to come up after the callback
  has made the node, and going down, as long as no parameter of the module is written. Suspend
  and resume are left out.
\<close>

theorem nodes_follow_cpus:
  assumes "kernel_ok K" and "reg_wf (reg K (kern m0))" and "module_idle m0" and "loaded K v m0 m"
  shows "(nodes (reg K (kern m)) (''msr_safe'', mdev_msr_safe m, c) \<noteq> None \<longrightarrow> c \<in> set (cpus (reg K (kern m))))
    \<and> (KERNEL_VERSION 4 10 0 \<le> v \<longrightarrow> c \<in> set (cpus (reg K (kern m))) \<longrightarrow>
        nodes (reg K (kern m)) (''msr_safe'', mdev_msr_safe m, c) = Some (cpu_node_name c))"
proof -
  from loaded_inv [OF assms(4,1-3)] obtain S where S: "S \<subseteq> set (cpus (reg K (kern m)))"
    "module_up K S m ((reg K (kern m0))\<lparr>hotplug := True, cpus := cpus (reg K (kern m))\<rparr>)"
    "KERNEL_VERSION 4 10 0 \<le> v \<longrightarrow> S = set (cpus (reg K (kern m)))" by (rule hot_invE)
  from module_up_nodes [OF S(2), of c] S(1,3) show ?thesis by auto
qed

theorem nodes_follow_cpus_witness:
  "\<exists>m. loaded all_nodes (KERNEL_VERSION 5 14 0) (sample_module 243) m
    \<and> nodes (kern m) (''msr_safe'', mdev_msr_safe m, 1) = Some (cpu_node_name 1)
    \<and> nodes (kern m) (''msr_safe'', mdev_msr_safe m, 7) = None"
proof -
  obtain m where i: "msr_init all_nodes (KERNEL_VERSION 5 14 0) (sample_module 243) = (None, m)"
    using sample_loads by blast
  have l: "loaded all_nodes (KERNEL_VERSION 5 14 0) (sample_module 243) m" using i by (rule loaded_init)
  have "cpus (kern m) = [0, 1]" using i by (auto simp: module_eval)
  with nodes_follow_cpus [OF plain_kernel_ok sample_module_ok l, of 1]
    nodes_follow_cpus [OF plain_kernel_ok sample_module_ok l, of 7] l
  show ?thesis by (auto simp: KERNEL_VERSION_def)
qed

text \<open>
  C17: unloading the module, after any history of CPUs coming, failing and going, leaves the registry
  of the kernel as it was before the module was loaded: no region, class, node or callback of
  the module remains, and nothing else is touched. The parameters of the module are as
  \<open>msr_init\<close> left them; \<open>Module_Params\<close> shows what happens otherwise.
\<close>

theorem exit_undoes_init:
  assumes "kernel_ok K" and "reg_wf (reg K (kern m0))" and "module_idle m0" and "loaded K v m0 m"
  shows "reg K (kern (msr_exit K v m)) = (reg K (kern m0))\<lparr>hotplug := False, cpus := cpus (reg K (kern m))\<rparr>
    \<and> module_idle (msr_exit K v m)"
proof -
  from loaded_inv [OF assms(4,1-3)] obtain S where S: "S \<subseteq> set (cpus (reg K (kern m)))"
    "module_up K S m ((reg K (kern m0))\<lparr>hotplug := True, cpus := cpus (reg K (kern m))\<rparr>)" by (rule hot_invE)
  have "(reg K (kern m0))\<lparr>hotplug := True, cpus := cpus (reg K (kern m)), hotplug := False\<rparr>
      = (reg K (kern m0))\<lparr>hotplug := False, cpus := cpus (reg K (kern m))\<rparr>" by simp
  with exit_restores [OF assms(1) S(2), of v] S(1) show ?thesis by simp
qed

theorem exit_undoes_init_witness:
  "\<exists>m m1 m2. loaded all_nodes (KERNEL_VERSION 5 14 0) (sample_module 243) m1
    \<and> hot_step all_nodes (KERNEL_VERSION 5 14 0) m m1
    \<and> msr_exit all_nodes (KERNEL_VERSION 5 14 0) m1 = m2
    \<and> kern m2 = sample_registry\<lparr>hotplug := False, cpus := [0]\<rparr>"
proof -
  obtain m where i: "msr_init all_nodes (KERNEL_VERSION 5 14 0) (sample_module 243) = (None, m)"
    using sample_loads by blast
  have on: "cpus (kern m) = [0, 1]" "hotplug (kern m)" using i by (auto simp: module_eval)
  define d where "d = hotplug_down all_nodes (KERNEL_VERSION 5 14 0) 1 m"
  define m1 where "m1 = d\<lparr>kern := (kern d)\<lparr>cpus := removeAll 1 (cpus (kern m))\<rparr>\<rparr>"
  have st: "hot_step all_nodes (KERNEL_VERSION 5 14 0) m m1"
    unfolding m1_def by (rule cpu_down [of _ _ 1]) (simp_all add: on d_def)
  have l: "loaded all_nodes (KERNEL_VERSION 5 14 0) (sample_module 243) m1"
    using loaded_step [OF loaded_init [OF i] st] .
  have c: "cpus (kern m1) = [0]" by (simp add: m1_def on)
  from exit_undoes_init [OF plain_kernel_ok sample_module_ok l]
  have "kern (msr_exit all_nodes (KERNEL_VERSION 5 14 0) m1) = sample_registry\<lparr>hotplug := False, cpus := [0]\<rparr>"
    by (simp add: c) (simp add: sample_module_def)
  with l st show ?thesis by blast
qed

text \<open>
  C18: an error exit of \<open>msr_init\<close>, other than the one after the version device could not be
  brought up, leaves the registry of the kernel and the drivers as they were.
\<close>

theorem init_failure_restores:
  assumes "kernel_ok K" and "reg_wf (reg K (kern m0))" and "module_idle m0"
    and "msr_init K v m0 = (Some e, m)" and "\<not> version_step_fails K m0"
  shows "reg K (kern m) = reg K (kern m0) \<and> module_idle m"
  using msr_init_result [OF assms(1-4)] assms(5) by (simp add: init_outcome_def)

theorem init_failure_restores_witness:
  "\<exists>m. msr_init all_nodes (KERNEL_VERSION 5 14 0) ((sample_module 243)\<lparr>mdev_msr_safe := 1\<rparr>) = (Some EBUSY, m)
    \<and> kern m = sample_registry"
proof -
  let ?m0 = "(sample_module 243)\<lparr>mdev_msr_safe := 1\<rparr>"
  obtain m where i: "msr_init all_nodes (KERNEL_VERSION 5 14 0) ?m0 = (Some EBUSY, m)"
    by (simp add: module_eval)
  have v: "\<not> version_step_fails all_nodes ?m0" by (simp add: version_step_fails_def module_eval)
  have ok: "reg_wf (reg all_nodes (kern ?m0))" "module_idle ?m0"
    using sample_module_ok by (simp_all add: module_idle_def)
  from init_failure_restores [OF plain_kernel_ok ok i v] have "kern m = sample_registry"
    by (simp add: sample_module_def)
  with i show ?thesis by blast
qed

text \<open>
  C38: the error exit after the version device could not be brought up skips the clean-up of
  the two devices that are already there: \<open>msr_init\<close> reports the error, so the module is not
  loaded, and the regions, classes and nodes of the batch and the allowlist device remain.
\<close>

theorem version_failure_leaks:
  assumes "kernel_ok K" and "reg_wf (reg K (kern m0))" and "module_idle m0" and "version_step_fails K m0"
  shows "\<exists>e m. msr_init K v m0 = (Some e, m)
    \<and> reg K (kern m) = add_dev allowlist_names (mdev_msr_allowlist m)
        (add_dev batch_names (mdev_msr_batch m) (reg K (kern m0)))
    \<and> reg K (kern m) \<noteq> reg K (kern m0)"
proof -
  obtain r m where i: "msr_init K v m0 = (r, m)" by fastforce
  from msr_init_result [OF assms(1-3) i] assms(4) obtain e
    where r: "r = Some e" and l: "leaves_two K m (reg K (kern m0))" by auto
  then have "dn_class allowlist_names \<in> classes (reg K (kern m))"
    "dn_class allowlist_names \<notin> classes (reg K (kern m0))"
    by (auto simp: leaves_two_def add_dev_def fresh_dev_def)
  then have "reg K (kern m) \<noteq> reg K (kern m0)" by auto
  with i r l show ?thesis by (auto simp: leaves_two_def)
qed

theorem version_failure_leaks_witness:
  "\<exists>e m. msr_init all_nodes (KERNEL_VERSION 5 14 0) (sample_module 1) = (Some e, m)
    \<and> kern m \<noteq> sample_registry"
proof -
  have "version_step_fails all_nodes (sample_module 1)"
    by (simp add: version_step_fails_def module_eval msr_version_cleanup_def chrdev_cleanup_def)
  from version_failure_leaks [OF plain_kernel_ok sample_module_ok this, of "KERNEL_VERSION 5 14 0"]
  show ?thesis by (auto simp: sample_module_def)
qed

text \<open>
  On kernels before 4.10 \<open>msr_init\<close> looks only at the last CPU's result: it can succeed
  although the node of a CPU could not be created.
\<close>

theorem old_init_ignores_node_failure:
  "\<exists>(K :: registry kernel_api) m. kernel_ok K \<and> msr_init K (KERNEL_VERSION 3 10 0) (sample_module 243) = (None, m)
    \<and> 0 \<in> set (cpus (reg K (kern m))) \<and> nodes (reg K (kern m)) (''msr_safe'', mdev_msr_safe m, 0) = None"
proof -
  let ?K = "plain_kernel (\<lambda>x. x = (''msr_safe'', 0))"
  obtain m where i: "msr_init ?K (KERNEL_VERSION 3 10 0) (sample_module 243) = (None, m)"
    by (simp add: module_eval)
  moreover have "0 \<in> set (cpus (kern m)) \<and> nodes (kern m) (''msr_safe'', mdev_msr_safe m, 0) = None"
    using i by (auto simp: module_eval)
  ultimately show ?thesis using plain_kernel_ok [of "\<lambda>x. x = (''msr_safe'', 0)"]
    by (intro exI [of _ ?K] exI [of _ m]) simp
qed

end
