(* ===== verification/Device_Files.thy ===== *)
theory Device_Files
  imports Msr_System Msr_Version
begin

text \<open>
  The four device files as a program uses them. Each driver registers a table of file
  operations; the kernel looks the function of a system call up in the table of the file that
  the call names. The theory has the four tables, over the functions of the other theories, and
  the system calls on open files. It shows that no sequence of calls makes the module access
  memory outside its objects, and what a call can change.
\<close>

section \<open>Bytes in user memory\<close>

text \<open>The device \<open>msr_safe\<close> copies the two halves as they lie in memory, low byte first.\<close>

definition le_bytes :: "u32 \<Rightarrow> string" where
  "le_bytes w = map (\<lambda>i. char_of (unat (drop_bit (8 * i) w))) [0, 1, 2, 3]"

fun le_word :: "string \<Rightarrow> u32" where
  "le_word [] = 0"
| "le_word (c # cs) = push_bit 8 (le_word cs) OR of_nat (of_char c)"

definition user_words :: "string \<Rightarrow> u32 \<times> u32" where
  "user_words bytes = (le_word (take 4 bytes), le_word (drop 4 bytes))"

definition user_bytes :: "u32 \<times> u32 \<Rightarrow> string" where
  "user_bytes data = le_bytes (fst data) @ le_bytes (snd data)"

lemma length_user_bytes [simp]: "length (user_bytes d) = 8"
  by (simp add: user_bytes_def le_bytes_def)

lemma byte_of_char: "(of_nat (of_char (char_of (unat w) :: char)) :: u32) = take_bit 8 w"
proof -
  have "of_char (char_of (unat w) :: char) = unat (take_bit 8 w)"
    by (simp add: take_bit_eq_mod unat_mod)
  then show ?thesis by (simp only: of_nat_unat ucast_id)
qed

lemma le_word_bytes: "le_word (le_bytes w) = w"
proof -
  have "le_word (le_bytes w) = push_bit 8 (push_bit 8 (push_bit 8 (push_bit 8 0 OR take_bit 8 (drop_bit 24 w))
      OR take_bit 8 (drop_bit 16 w)) OR take_bit 8 (drop_bit 8 w)) OR take_bit 8 (drop_bit 0 w)"
    by (simp only: le_bytes_def list.map le_word.simps byte_of_char) simp
  also have "\<dots> = w"
  proof (rule bit_word_eqI)
    fix n assume "n < LENGTH(32)"
    then consider "n < 8" | "8 \<le> n" "n < 16" | "16 \<le> n" "n < 24" | "24 \<le> n" "n < 32" by force
    then show "bit (push_bit 8 (push_bit 8 (push_bit 8 (push_bit 8 0 OR take_bit 8 (drop_bit 24 w))
        OR take_bit 8 (drop_bit 16 w)) OR take_bit 8 (drop_bit 8 w)) OR take_bit 8 (drop_bit 0 w)) n = bit w n"
      by cases (auto simp: bit_simps)
  qed
  finally show ?thesis .
qed

lemma user_words_bytes: "user_words (user_bytes d) = d"
proof -
  have "length (le_bytes w) = 4" for w by (simp add: le_bytes_def)
  then show ?thesis by (simp add: user_words_def user_bytes_def le_word_bytes)
qed

section \<open>The tables of file operations\<close>

text \<open>
  What the handlers work on: the allowlist, the registers and the CPUs that are online. The
  platform holds what does not change: the functions of the kernel, the bound \<open>nr_cpu_ids\<close>, the
  register instructions and the order in which \<open>on_each_cpu_mask\<close> visits the CPUs.
\<close>

record 'b world =
  w_al :: alist
  w_banks :: "nat \<Rightarrow> 'b"
  w_online :: "nat set"

record 'b platform =
  pf_klib :: klib
  pf_hash :: bucket_hash
  pf_nr_cpus :: nat
  pf_local :: "'b local_port"
  pf_visit :: "nat set \<Rightarrow> nat set \<Rightarrow> nat list"

abbreviation pf_port :: "'b platform \<Rightarrow> 'b world \<Rightarrow> (nat \<Rightarrow> 'b) cpu_port" where
  "pf_port pf w \<equiv> port_of (pf_local pf) (w_online w)"

text \<open>
  A member of \<open>struct file_operations\<close> that the source leaves out is a null pointer. A reader
  gives the bytes for the program and the new position, a writer the return value and the new
  state; \<open>None\<close> inside is an access outside an object, as in the other theories.
\<close>

record 'b file_operations =
  fo_llseek :: "(msr_file \<Rightarrow> loff_t \<Rightarrow> int \<Rightarrow> (errno + loff_t) \<times> msr_file) option"
  fo_read :: "('b platform \<Rightarrow> 'b world \<Rightarrow> bool \<Rightarrow> msr_file \<Rightarrow> nat \<Rightarrow> loff_t \<Rightarrow> ((errno + string) \<times> loff_t) option) option"
  fo_write :: "('b platform \<Rightarrow> 'b world \<Rightarrow> write_env \<Rightarrow> msr_file \<Rightarrow> string \<Rightarrow> loff_t \<Rightarrow> ((errno + nat) \<times> 'b world) option) option"
  fo_ioctl :: "('b platform \<Rightarrow> 'b world \<Rightarrow> ioctl_env \<Rightarrow> u32 \<Rightarrow> u32 \<Rightarrow> msr_batch_array
     \<Rightarrow> errno option \<times> msr_batch_op list \<times> 'b world) option"
  fo_compat_ioctl :: "('b platform \<Rightarrow> 'b world \<Rightarrow> ioctl_env \<Rightarrow> u32 \<Rightarrow> u32 \<Rightarrow> msr_batch_array
     \<Rightarrow> errno option \<times> msr_batch_op list \<times> 'b world) option"
  fo_open :: "('b platform \<Rightarrow> 'b world \<Rightarrow> msr_file \<Rightarrow> errno + unit) option"
  fo_release :: "(msr_file \<Rightarrow> nat) option"

definition msr_fops :: "'b file_operations" where
  "msr_fops = \<lparr>
     fo_llseek = Some msr_seek,
     fo_read = Some (\<lambda>pf w copy_ok file count ppos.
       case msr_read (pf_hash pf) (w_al w) (pf_port pf w) (w_banks w) copy_ok (f_minor file) count ppos of
         Inl err \<Rightarrow> Some (Inl err, ppos)
       | Inr data \<Rightarrow> Some (Inr (user_bytes data), ppos)),
     fo_write = Some (\<lambda>pf w env file bytes ppos.
       case msr_write (pf_hash pf) (w_al w) (pf_port pf w) (w_banks w) (copy_in_ok env) (f_minor file)
              (length bytes) ppos (user_words bytes) of
         (r, m') \<Rightarrow> Some (r, w\<lparr>w_banks := m'\<rparr>)),
     fo_ioctl = None,
     fo_compat_ioctl = None,
     fo_open = Some (\<lambda>pf w file. msr_open (pf_nr_cpus pf) (\<lambda>c. c \<in> w_online w) file),
     fo_release = Some msr_close\<rparr>"

definition ret_code :: "int \<Rightarrow> errno + unit" where
  "ret_code r = (if r = 0 then Inr () else Inl (Eother (nat (- r))))"

definition allowlist_fops :: "'b file_operations" where
  "allowlist_fops = \<lparr>
     fo_llseek = None,
     fo_read = Some (\<lambda>pf w copy_ok file count ppos.
       case read_allowlist copy_ok count ppos (w_al w) of
         None \<Rightarrow> None
       | Some r \<Rightarrow> Some (case rd_res r of Inl err \<Rightarrow> Inl err | Inr _ \<Rightarrow> Inr (rd_data r), rd_ppos r)),
     fo_write = Some (\<lambda>pf w env file bytes ppos.
       case write_allowlist (pf_klib pf) (pf_hash pf) env bytes (w_al w) of
         None \<Rightarrow> None
       | Some (r, G') \<Rightarrow> Some (r, w\<lparr>w_al := G'\<rparr>)),
     fo_ioctl = None,
     fo_compat_ioctl = None,
     fo_open = Some (\<lambda>pf w file. ret_code open_allowlist),
     fo_release = None\<rparr>"

definition batch_ioctl_handler :: "'b platform \<Rightarrow> 'b world \<Rightarrow> ioctl_env \<Rightarrow> u32 \<Rightarrow> u32 \<Rightarrow> msr_batch_array
    \<Rightarrow> errno option \<times> msr_batch_op list \<times> 'b world" where
  "batch_ioctl_handler pf w E f_mode ioc koa =
     (case msrbatch_ioctl (pf_hash pf) (pf_nr_cpus pf) (\<lambda>c. c \<in> w_online w) (\<lambda>_. w_al w) (pf_local pf)
             (pf_visit pf (w_online w)) E f_mode ioc koa (w_banks w) of
        (r, m', ops') \<Rightarrow> (r, ops', w\<lparr>w_banks := m'\<rparr>))"

definition batch_fops :: "'b file_operations" where
  "batch_fops = \<lparr>fo_llseek = None, fo_read = None, fo_write = None,
     fo_ioctl = Some batch_ioctl_handler, fo_compat_ioctl = Some batch_ioctl_handler,
     fo_open = None, fo_release = None\<rparr>"

definition version_fops :: "'b file_operations" where
  "version_fops = \<lparr>
     fo_llseek = None,
     fo_read = Some (\<lambda>pf w copy_ok file count ppos. Some (read_version MSR_SAFE_VERSION_STR copy_ok count ppos)),
     fo_write = None,
     fo_ioctl = None,
     fo_compat_ioctl = None,
     fo_open = Some (\<lambda>pf w file. ret_code open_version),
     fo_release = None\<rparr>"

text \<open>The table that each driver passes to \<open>register_chrdev\<close>.\<close>

datatype driver = Safe_driver | Allowlist_driver | Batch_driver | Version_driver

fun fops_of :: "driver \<Rightarrow> 'b file_operations" where
  "fops_of Safe_driver = msr_fops"
| "fops_of Allowlist_driver = allowlist_fops"
| "fops_of Batch_driver = batch_fops"
| "fops_of Version_driver = version_fops"

section \<open>System calls on open files\<close>

text \<open>
  The entry layer of the kernel is not part of the module. What it does by itself is the
  record \<open>vfs\<close>: the errors for a call that the table has no handler for and for a file that was
  not opened for the call, the position after a call that failed, and \<open>lseek\<close> on a device
  without a handler of its own.
\<close>

record vfs =
  no_handler :: errno
  wrong_mode :: errno
  pos_after_error :: "loff_t \<Rightarrow> loff_t \<Rightarrow> loff_t"
  default_llseek :: "loff_t \<Rightarrow> loff_t \<Rightarrow> int \<Rightarrow> (errno + loff_t) \<times> loff_t"

definition FMODE_WRITE :: u32 where
  "FMODE_WRITE = 2"

record open_file =
  of_driver :: driver
  of_file :: msr_file
  of_mode :: u32

record 'b dev_state =
  dv_world :: "'b world"
  dv_files :: "nat \<rightharpoonup> open_file"

text \<open>
  The calls, with what the kernel chooses in them: the descriptor of a new file, the outcomes
  of copies and allocations. \<open>Cpus_change\<close> is not a call: CPUs go on- and offline in between.
\<close>

datatype event =
    Sys_open nat driver nat u32
  | Sys_lseek nat loff_t int
  | Sys_read nat nat bool
  | Sys_pread nat nat loff_t bool
  | Sys_write nat string write_env
  | Sys_pwrite nat string loff_t write_env
  | Sys_ioctl nat bool u32 msr_batch_array ioctl_env
  | Sys_close nat
  | Cpus_change "nat set"

datatype reply =
    R_err errno
  | R_done
  | R_pos loff_t
  | R_data string
  | R_count nat
  | R_ops "errno option" "msr_batch_op list"

definition set_pos :: "nat \<Rightarrow> open_file \<Rightarrow> loff_t \<Rightarrow> 'b dev_state \<Rightarrow> 'b dev_state" where
  "set_pos fd f pos s = s\<lparr>dv_files := (dv_files s)(fd \<mapsto> f\<lparr>of_file := (of_file f)\<lparr>f_pos := pos\<rparr>\<rparr>)\<rparr>"

definition do_open :: "'b platform \<Rightarrow> nat \<Rightarrow> driver \<Rightarrow> nat \<Rightarrow> u32 \<Rightarrow> 'b dev_state \<Rightarrow> reply \<times> 'b dev_state" where
  "do_open pf fd d minor mode s =
     (let file = \<lparr>f_pos = 0, f_minor = minor\<rparr>;
          opened = (R_done, s\<lparr>dv_files := (dv_files s)(fd \<mapsto> \<lparr>of_driver = d, of_file = file, of_mode = mode\<rparr>)\<rparr>)
      in case fo_open (fops_of d) of
           None \<Rightarrow> opened
         | Some opn \<Rightarrow> (case opn pf (dv_world s) file of Inl err \<Rightarrow> (R_err err, s) | Inr _ \<Rightarrow> opened))"

definition do_lseek :: "vfs \<Rightarrow> nat \<Rightarrow> open_file \<Rightarrow> loff_t \<Rightarrow> int \<Rightarrow> 'b dev_state \<Rightarrow> reply \<times> 'b dev_state" where
  "do_lseek V fd f offset whence s =
     (case (case fo_llseek (fops_of (of_driver f) :: 'b file_operations) of
              Some seek \<Rightarrow> (case seek (of_file f) offset whence of (r, file) \<Rightarrow> (r, f_pos file))
            | None \<Rightarrow> default_llseek V (f_pos (of_file f)) offset whence) of
        (r, pos) \<Rightarrow> (case r of Inl err \<Rightarrow> R_err err | Inr p \<Rightarrow> R_pos p, set_pos fd f pos s))"

text \<open>\<open>read\<close> and \<open>pread\<close>, \<open>write\<close> and \<open>pwrite\<close>: the reply, the position and the state afterwards.\<close>

definition do_read :: "vfs \<Rightarrow> 'b platform \<Rightarrow> open_file \<Rightarrow> nat \<Rightarrow> loff_t \<Rightarrow> bool \<Rightarrow> 'b world \<Rightarrow> (reply \<times> loff_t) option" where
  "do_read V pf f count pos copy_ok w =
     (if of_mode f AND FMODE_READ = 0 then Some (R_err (wrong_mode V), pos)
      else case fo_read (fops_of (of_driver f)) of
             None \<Rightarrow> Some (R_err (no_handler V), pos)
           | Some rd \<Rightarrow>
               (case rd pf w copy_ok (of_file f) count pos of
                  None \<Rightarrow> None
                | Some (Inl err, p) \<Rightarrow> Some (R_err err, pos_after_error V pos p)
                | Some (Inr bytes, p) \<Rightarrow> Some (R_data bytes, p)))"

definition do_write :: "vfs \<Rightarrow> 'b platform \<Rightarrow> open_file \<Rightarrow> string \<Rightarrow> loff_t \<Rightarrow> write_env \<Rightarrow> 'b world
    \<Rightarrow> (reply \<times> 'b world) option" where
  "do_write V pf f bytes pos env w =
     (if of_mode f AND FMODE_WRITE = 0 then Some (R_err (wrong_mode V), w)
      else case fo_write (fops_of (of_driver f)) of
             None \<Rightarrow> Some (R_err (no_handler V), w)
           | Some wr \<Rightarrow>
               (case wr pf w env (of_file f) bytes pos of
                  None \<Rightarrow> None
                | Some (Inl err, w') \<Rightarrow> Some (R_err err, w')
                | Some (Inr n, w') \<Rightarrow> Some (R_count n, w')))"

definition do_ioctl :: "vfs \<Rightarrow> 'b platform \<Rightarrow> open_file \<Rightarrow> bool \<Rightarrow> u32 \<Rightarrow> msr_batch_array \<Rightarrow> ioctl_env \<Rightarrow> 'b world
    \<Rightarrow> reply \<times> 'b world" where
  "do_ioctl V pf f compat32 ioc koa E w =
     (case (if compat32 then fo_compat_ioctl (fops_of (of_driver f)) else fo_ioctl (fops_of (of_driver f))) of
        None \<Rightarrow> (R_err (no_handler V), w)
      | Some ctl \<Rightarrow> (case ctl pf w E (of_mode f) ioc koa of (r, ops, w') \<Rightarrow> (R_ops r ops, w')))"

fun on_file :: "nat \<Rightarrow> 'b dev_state \<Rightarrow> (open_file \<Rightarrow> (reply \<times> 'b dev_state) option) \<Rightarrow> (reply \<times> 'b dev_state) option" where
  "on_file fd s g = (case dv_files s fd of None \<Rightarrow> Some (R_err EBADF, s) | Some f \<Rightarrow> g f)"

fun do_event :: "vfs \<Rightarrow> 'b platform \<Rightarrow> event \<Rightarrow> 'b dev_state \<Rightarrow> (reply \<times> 'b dev_state) option" where
  "do_event V pf (Sys_open fd d minor mode) s = Some (do_open pf fd d minor mode s)"
| "do_event V pf (Sys_lseek fd offset whence) s = on_file fd s (\<lambda>f. Some (do_lseek V fd f offset whence s))"
| "do_event V pf (Sys_read fd count copy_ok) s = on_file fd s (\<lambda>f.
     map_option (\<lambda>(r, pos). (r, set_pos fd f pos s)) (do_read V pf f count (f_pos (of_file f)) copy_ok (dv_world s)))"
| "do_event V pf (Sys_pread fd count pos copy_ok) s = on_file fd s (\<lambda>f.
     map_option (\<lambda>(r, _). (r, s)) (do_read V pf f count pos copy_ok (dv_world s)))"
| "do_event V pf (Sys_write fd bytes env) s = on_file fd s (\<lambda>f.
     map_option (\<lambda>(r, w). (r, s\<lparr>dv_world := w\<rparr>)) (do_write V pf f bytes (f_pos (of_file f)) env (dv_world s)))"
| "do_event V pf (Sys_pwrite fd bytes pos env) s = on_file fd s (\<lambda>f.
     map_option (\<lambda>(r, w). (r, s\<lparr>dv_world := w\<rparr>)) (do_write V pf f bytes pos env (dv_world s)))"
| "do_event V pf (Sys_ioctl fd compat32 ioc koa E) s = on_file fd s (\<lambda>f.
     (case do_ioctl V pf f compat32 ioc koa E (dv_world s) of (r, w) \<Rightarrow> Some (r, s\<lparr>dv_world := w\<rparr>)))"
| "do_event V pf (Sys_close fd) s = on_file fd s (\<lambda>f. Some (R_done, s\<lparr>dv_files := (dv_files s)(fd := None)\<rparr>))"
| "do_event V pf (Cpus_change S) s = Some (R_done, s\<lparr>dv_world := (dv_world s)\<lparr>w_online := S\<rparr>\<rparr>)"

fun run_events :: "vfs \<Rightarrow> 'b platform \<Rightarrow> event list \<Rightarrow> 'b dev_state \<Rightarrow> (reply list \<times> 'b dev_state) option" where
  "run_events V pf [] s = Some ([], s)"
| "run_events V pf (e # es) s =
     (case do_event V pf e s of
        None \<Rightarrow> None
      | Some (r, s1) \<Rightarrow> (case run_events V pf es s1 of None \<Rightarrow> None | Some (rs, s2) \<Rightarrow> Some (r # rs, s2)))"

section \<open>No call goes wrong\<close>

text \<open>
  The types of the state and of the replies: the table is well formed, and as long as no entry
  array was refused by \<open>kcalloc\<close> its count is that of the array; a file of a CPU has a CPU number in
  range; a reply is an error or of the kind of its call, with no more bytes than asked for.
\<close>

definition world_ok :: "'b platform \<Rightarrow> 'b world \<Rightarrow> bool" where
  "world_ok pf w \<longleftrightarrow> al_inv (pf_hash pf) (w_al w) \<and> count_ok (w_al w)"

definition dev_ok :: "'b platform \<Rightarrow> 'b dev_state \<Rightarrow> bool" where
  "dev_ok pf s \<longleftrightarrow> world_ok pf (dv_world s)
     \<and> (\<forall>fd f. dv_files s fd = Some f \<longrightarrow> of_driver f = Safe_driver \<longrightarrow> f_minor (of_file f) < pf_nr_cpus pf)"

fun reply_ok :: "event \<Rightarrow> reply \<Rightarrow> bool" where
  "reply_ok _ (R_err _) = True"
| "reply_ok (Sys_open _ _ _ _) R_done = True"
| "reply_ok (Sys_lseek _ _ _) (R_pos _) = True"
| "reply_ok (Sys_read _ count _) (R_data bytes) = (length bytes \<le> count)"
| "reply_ok (Sys_pread _ count _ _) (R_data bytes) = (length bytes \<le> count)"
| "reply_ok (Sys_write _ bytes _) (R_count n) = (n = length bytes)"
| "reply_ok (Sys_pwrite _ bytes _ _) (R_count n) = (n = length bytes)"
| "reply_ok (Sys_ioctl _ _ _ koa _) (R_ops _ ops) = (length ops = length (oa_ops koa))"
| "reply_ok (Sys_close _) R_done = True"
| "reply_ok (Cpus_change _) R_done = True"
| "reply_ok _ _ = False"

fun memory_ok :: "event \<Rightarrow> bool" where
  "memory_ok (Sys_write _ _ env) = kcalloc_ok env"
| "memory_ok (Sys_pwrite _ _ _ env) = kcalloc_ok env"
| "memory_ok _ = True"

lemmas fops_defs = msr_fops_def allowlist_fops_def batch_fops_def version_fops_def

lemma fo_read_ok:
  assumes "world_ok pf w" and "fo_read (fops_of d) = Some rd"
  shows "\<exists>r p. rd pf w copy_ok file count pos = Some (r, p) \<and> (\<forall>bytes. r = Inr bytes \<longrightarrow> length bytes \<le> count)"
proof (cases d)
  case Safe_driver
  with assms(2) show ?thesis
    by (auto simp: fops_defs msr_read_def Let_def split: sum.splits)
next
  case Allowlist_driver
  obtain r where "read_allowlist copy_ok count pos (w_al w) = Some r"
    "\<forall>n. rd_res r = Inr n \<longrightarrow> length (rd_data r) \<le> count"
    using read_defined assms(1) unfolding world_ok_def by blast
  with assms(2) Allowlist_driver show ?thesis by (auto simp: fops_defs split: sum.splits)
next
  case Version_driver
  with assms(2) show ?thesis by (auto simp: fops_defs read_version_def Let_def)
qed (use assms(2) in \<open>simp add: fops_defs\<close>)

lemma fo_write_ok:
  assumes "klib_ok (pf_klib pf)" and "world_ok pf w" and "kcalloc_ok env" and "fo_write (fops_of d) = Some wr"
  shows "\<exists>r w'. wr pf w env file bytes pos = Some (r, w') \<and> world_ok pf w' \<and> (\<forall>n. r = Inr n \<longrightarrow> n = length bytes)"
proof (cases d)
  case Safe_driver
  obtain r m' where wr: "msr_write (pf_hash pf) (w_al w) (pf_port pf w) (w_banks w) (copy_in_ok env)
      (f_minor file) (length bytes) pos (user_words bytes) = (r, m')" by fastforce
  moreover have "n = length bytes" if "r = Inr n" for n
    using wr that msr_write_ok by metis
  ultimately show ?thesis using assms(2,4) Safe_driver by (auto simp: fops_defs world_ok_def)
next
  case Allowlist_driver
  obtain r G' where wr: "write_allowlist (pf_klib pf) (pf_hash pf) env bytes (w_al w) = Some (r, G')"
    "al_inv (pf_hash pf) G'" "count_ok G'" "(r, al_map G') = write_spec (pf_klib pf) env bytes (al_map (w_al w))"
    using write_refines [OF assms(1), of "pf_hash pf" "w_al w" env bytes] assms(2,3) unfolding world_ok_def by blast
  moreover have "n = length bytes" if "r = Inr n" for n
    using wr(4) that write_spec_count by metis
  ultimately show ?thesis using assms(4) Allowlist_driver by (auto simp: fops_defs world_ok_def)
qed (use assms(4) in \<open>simp_all add: fops_defs\<close>)

lemma do_read_ok:
  assumes "world_ok pf w"
  shows "\<exists>r p. do_read V pf f count pos copy_ok w = Some (r, p)
    \<and> reply_ok (Sys_read fd count copy_ok) r \<and> reply_ok (Sys_pread fd count pos copy_ok) r"
proof (cases "of_mode f AND FMODE_READ = 0 \<or> fo_read (fops_of (of_driver f) :: 'a file_operations) = None")
  case True
  then show ?thesis by (auto simp: do_read_def)
next
  case False
  then obtain rd where rd: "of_mode f AND FMODE_READ \<noteq> 0" "fo_read (fops_of (of_driver f) :: 'a file_operations) = Some rd"
    by auto
  from fo_read_ok [OF assms rd(2), of copy_ok "of_file f" count pos] obtain r p
    where "rd pf w copy_ok (of_file f) count pos = Some (r, p)" "\<forall>bytes. r = Inr bytes \<longrightarrow> length bytes \<le> count" by blast
  with rd show ?thesis by (cases r) (simp_all add: do_read_def)
qed

lemma do_write_ok:
  assumes "klib_ok (pf_klib pf)" and "world_ok pf w" and "kcalloc_ok env"
  shows "\<exists>r w'. do_write V pf f bytes pos env w = Some (r, w') \<and> world_ok pf w'
    \<and> reply_ok (Sys_write fd bytes env) r \<and> reply_ok (Sys_pwrite fd bytes pos env) r"
proof (cases "of_mode f AND FMODE_WRITE = 0 \<or> fo_write (fops_of (of_driver f) :: 'a file_operations) = None")
  case True
  with assms(2) show ?thesis by (auto simp: do_write_def)
next
  case False
  then obtain wr where wr: "of_mode f AND FMODE_WRITE \<noteq> 0" "fo_write (fops_of (of_driver f) :: 'a file_operations) = Some wr"
    by auto
  from fo_write_ok [OF assms wr(2), of "of_file f" bytes pos] obtain r w'
    where "wr pf w env (of_file f) bytes pos = Some (r, w')" "world_ok pf w'" "\<forall>n. r = Inr n \<longrightarrow> n = length bytes" by blast
  with wr show ?thesis by (cases r) (simp_all add: do_write_def)
qed

lemma do_ioctl_batch:
  "of_driver f = Batch_driver \<Longrightarrow> do_ioctl V pf f compat32 ioc koa E w =
     (case batch_ioctl_handler pf w E (of_mode f) ioc koa of (r, ops, w') \<Rightarrow> (R_ops r ops, w'))"
  by (cases compat32) (simp_all add: do_ioctl_def batch_fops_def)

lemma do_ioctl_other:
  "of_driver f \<noteq> Batch_driver \<Longrightarrow> do_ioctl V pf f compat32 ioc koa E w = (R_err (no_handler V), w)"
  by (cases "of_driver f"; cases compat32) (simp_all add: do_ioctl_def fops_defs)

lemma do_ioctl_ok:
  assumes "do_ioctl V pf f compat32 ioc koa E w = (r, w')"
  shows "reply_ok (Sys_ioctl fd compat32 ioc koa E) r" and "w_al w' = w_al w" and "w_online w' = w_online w"
proof -
  obtain q m' ops' where i: "msrbatch_ioctl (pf_hash pf) (pf_nr_cpus pf) (\<lambda>c. c \<in> w_online w) (\<lambda>_. w_al w) (pf_local pf)
      (pf_visit pf (w_online w)) E (of_mode f) ioc koa (w_banks w) = (q, m', ops')" by (metis prod_cases3)
  then have h: "batch_ioctl_handler pf w E (of_mode f) ioc koa = (q, ops', w\<lparr>w_banks := m'\<rparr>)"
    by (simp add: batch_ioctl_handler_def)
  have c: "(r, w') = (R_ops q ops', w\<lparr>w_banks := m'\<rparr>) \<or> (r, w') = (R_err (no_handler V), w)"
    using assms do_ioctl_batch [of f V pf compat32 ioc koa E w] do_ioctl_other [of f V pf compat32 ioc koa E w] h
    by (cases "of_driver f = Batch_driver") simp_all
  from c ioctl_length [OF i] show "reply_ok (Sys_ioctl fd compat32 ioc koa E) r" by auto
  from c show "w_al w' = w_al w" "w_online w' = w_online w" by auto
qed

lemma fo_open_simps [simp]:
  "fo_open (msr_fops :: 'b file_operations)
     = Some (\<lambda>pf w file. msr_open (pf_nr_cpus pf) (\<lambda>c. c \<in> w_online w) file)"
  "fo_open (allowlist_fops :: 'b file_operations) = Some (\<lambda>pf w file. Inr ())"
  "fo_open (batch_fops :: 'b file_operations) = None"
  "fo_open (version_fops :: 'b file_operations) = Some (\<lambda>pf w file. Inr ())"
  by (simp_all add: fops_defs ret_code_def open_allowlist_def open_version_def)

lemma do_open_cases:
  "(\<exists>err. do_open pf fd d minor mode s = (R_err err, s)) \<or>
   do_open pf fd d minor mode s = (R_done, s\<lparr>dv_files := (dv_files s)(fd \<mapsto>
      \<lparr>of_driver = d, of_file = \<lparr>f_pos = 0, f_minor = minor\<rparr>, of_mode = mode\<rparr>)\<rparr>)
   \<and> (d = Safe_driver \<longrightarrow> minor < pf_nr_cpus pf)"
proof (cases d)
  case Safe_driver
  then show ?thesis
    by (cases "pf_nr_cpus pf \<le> minor \<or> minor \<notin> w_online (dv_world s)")
      (simp_all add: do_open_def Let_def msr_open_def)
qed (simp_all add: do_open_def Let_def)

lemma do_open_ok:
  assumes "dev_ok pf s" and "do_open pf fd d minor mode s = (r, s')"
  shows "dev_ok pf s' \<and> reply_ok (Sys_open fd d minor mode) r"
  using do_open_cases [of pf fd d minor mode s] assms by (auto simp: dev_ok_def split: if_splits)

lemma set_pos_ok: "dev_ok pf s \<Longrightarrow> dv_files s fd = Some f \<Longrightarrow> dev_ok pf (set_pos fd f pos s)"
  by (auto simp: dev_ok_def set_pos_def)

lemma dev_ok_world: "dev_ok pf s \<Longrightarrow> world_ok pf w \<Longrightarrow> dev_ok pf (s\<lparr>dv_world := w\<rparr>)"
  by (simp add: dev_ok_def)

lemma do_ioctl_dev:
  assumes "dev_ok pf s"
  shows "\<exists>r s'. (case do_ioctl V pf f compat32 ioc koa E (dv_world s) of (r, w) \<Rightarrow> Some (r, s\<lparr>dv_world := w\<rparr>)) = Some (r, s')
    \<and> dev_ok pf s' \<and> reply_ok (Sys_ioctl fd compat32 ioc koa E) r"
proof -
  obtain r w where i: "do_ioctl V pf f compat32 ioc koa E (dv_world s) = (r, w)" by fastforce
  from do_ioctl_ok [OF i] assms i show ?thesis by (simp add: dev_ok_def world_ok_def)
qed

lemma on_file_ok:
  assumes "dev_ok pf s" and "reply_ok e (R_err EBADF)"
    and "\<And>f. dv_files s fd = Some f \<Longrightarrow> \<exists>r s'. g f = Some (r, s') \<and> dev_ok pf s' \<and> reply_ok e r"
  shows "\<exists>r s'. on_file fd s g = Some (r, s') \<and> dev_ok pf s' \<and> reply_ok e r"
  using assms by (cases "dv_files s fd") auto

lemma dev_okD: "dev_ok pf s \<Longrightarrow> world_ok pf (dv_world s)"
  by (simp add: dev_ok_def)

lemma do_event_ok:
  assumes "klib_ok (pf_klib pf)" and "dev_ok pf s" and "memory_ok e"
  shows "\<exists>r s'. do_event V pf e s = Some (r, s') \<and> dev_ok pf s' \<and> reply_ok e r"
proof (cases e)
  case (Sys_open fd d minor mode)
  then show ?thesis using do_open_ok [OF assms(2), of fd d minor mode] by (metis do_event.simps(1) prod.collapse)
next
  case (Sys_lseek fd offset whence)
  show ?thesis unfolding Sys_lseek do_event.simps
    by (rule on_file_ok [OF assms(2)])
      (auto simp: do_lseek_def set_pos_ok [OF assms(2)] split: prod.splits sum.splits)
next
  case (Sys_read fd count copy_ok)
  show ?thesis unfolding Sys_read do_event.simps
    by (rule on_file_ok [OF assms(2)]) (use do_read_ok [OF dev_okD [OF assms(2)]] set_pos_ok [OF assms(2)] in fastforce)+
next
  case (Sys_pread fd count pos copy_ok)
  show ?thesis unfolding Sys_pread do_event.simps
    by (rule on_file_ok [OF assms(2)]) (use do_read_ok [OF dev_okD [OF assms(2)]] assms(2) in fastforce)+
next
  case (Sys_write fd bytes env)
  show ?thesis unfolding Sys_write do_event.simps
    by (rule on_file_ok [OF assms(2)])
      (use do_write_ok [OF assms(1) dev_okD [OF assms(2)]] assms(3) dev_ok_world [OF assms(2)] Sys_write in fastforce)+
next
  case (Sys_pwrite fd bytes pos env)
  show ?thesis unfolding Sys_pwrite do_event.simps
    by (rule on_file_ok [OF assms(2)])
      (use do_write_ok [OF assms(1) dev_okD [OF assms(2)]] assms(3) dev_ok_world [OF assms(2)] Sys_pwrite in fastforce)+
next
  case (Sys_ioctl fd compat32 ioc koa E)
  show ?thesis unfolding Sys_ioctl do_event.simps
    by (rule on_file_ok [OF assms(2)])
      (simp_all add: do_ioctl_dev [OF assms(2)])
next
  case (Sys_close fd)
  show ?thesis unfolding Sys_close do_event.simps
    by (rule on_file_ok [OF assms(2)]) (use assms(2) in \<open>auto simp: dev_ok_def\<close>)
next
  case (Cpus_change S)
  with assms(2) show ?thesis by (simp add: dev_ok_def world_ok_def)
qed

lemma run_events_ok:
  assumes "klib_ok (pf_klib pf)" and "dev_ok pf s" and "list_all memory_ok es"
  shows "\<exists>rs s'. run_events V pf es s = Some (rs, s') \<and> dev_ok pf s' \<and> list_all2 reply_ok es rs"
  using assms(2,3)
proof (induction es arbitrary: s)
  case Nil
  then show ?case by simp
next
  case (Cons e es)
  then obtain r s1 where 1: "do_event V pf e s = Some (r, s1)" "dev_ok pf s1" "reply_ok e r"
    using do_event_ok [OF assms(1), of s e V] by auto
  from Cons.IH [OF 1(2)] Cons.prems(2) 1 show ?case by auto
qed

section \<open>What a call changes\<close>

text \<open>The file of a call that can write a register of a CPU, through the two devices that do.\<close>

fun write_fd :: "event \<Rightarrow> nat option" where
  "write_fd (Sys_write fd _ _) = Some fd"
| "write_fd (Sys_pwrite fd _ _ _) = Some fd"
| "write_fd _ = None"

fun ioctl_fd :: "event \<Rightarrow> nat option" where
  "ioctl_fd (Sys_ioctl fd _ _ _ _) = Some fd"
| "ioctl_fd _ = None"

definition open_as :: "'b dev_state \<Rightarrow> nat option \<Rightarrow> (open_file \<Rightarrow> bool) \<Rightarrow> bool" where
  "open_as s fd P \<longleftrightarrow> (\<exists>i f. fd = Some i \<and> dv_files s i = Some f \<and> P f)"

definition writes_cpu :: "nat \<Rightarrow> open_file \<Rightarrow> bool" where
  "writes_cpu c f \<longleftrightarrow> of_driver f = Safe_driver \<and> of_mode f AND FMODE_WRITE \<noteq> 0 \<and> f_minor (of_file f) = c"

lemma do_write_banks:
  assumes "do_write V pf f bytes pos env w = Some (r, w')" and "w_banks w' \<noteq> w_banks w"
  shows "of_driver f = Safe_driver \<and> of_mode f AND FMODE_WRITE \<noteq> 0 \<and> w_al w' = w_al w \<and>
    (\<exists>n. msr_write (pf_hash pf) (w_al w) (pf_port pf w) (w_banks w) (copy_in_ok env) (f_minor (of_file f))
       (length bytes) pos (user_words bytes) = (Inr n, w_banks w'))"
proof (cases "of_driver f")
  case Safe_driver
  obtain q m' where q: "msr_write (pf_hash pf) (w_al w) (pf_port pf w) (w_banks w) (copy_in_ok env) (f_minor (of_file f))
       (length bytes) pos (user_words bytes) = (q, m')" by fastforce
  with assms Safe_driver have "m' = w_banks w'" "w_al w' = w_al w" "of_mode f AND FMODE_WRITE \<noteq> 0"
    by (auto simp: do_write_def msr_fops_def split: if_splits sum.splits)
  moreover from this q assms(2) obtain n where "q = Inr n" by (cases q) (auto dest: msr_write_err)
  ultimately show ?thesis using q Safe_driver by simp
qed (use assms in \<open>auto simp: do_write_def fops_defs split: if_splits sum.splits option.splits\<close>)

lemma do_write_bits:
  assumes "al_inv (pf_hash pf) (w_al w)" and "local_view view (pf_local pf)"
    and "do_write V pf f bytes pos env w = Some (r, w')"
    and "bit (view (w_banks w' c) rn) k \<noteq> bit (view (w_banks w c) rn) k" and "k < 64"
  shows "writes_cpu c f \<and> c \<in> w_online w \<and> (\<exists>m. al_map (w_al w) (ucast rn) = Some m \<and> bit m k)"
proof -
  from assms(4) have "w_banks w' \<noteq> w_banks w" by auto
  from do_write_banks [OF assms(3) this] obtain n where d: "of_driver f = Safe_driver" "of_mode f AND FMODE_WRITE \<noteq> 0"
    and m: "msr_write (pf_hash pf) (w_al w) (pf_port pf w) (w_banks w) (copy_in_ok env) (f_minor (of_file f))
       (length bytes) pos (user_words bytes) = (Inr n, w_banks w')" by blast
  from msr_write_view [OF assms(1) port_of_view [OF assms(2)] m] obtain x
    where x: "al_map (w_al w) (ucast (msr_reg pos)) = Some x"
      "(\<lambda>c. view (w_banks w' c)) = (\<lambda>c. view (w_banks w c))(f_minor (of_file f) := (view (w_banks w (f_minor (of_file f))))(msr_reg pos :=
        merge_bits x (view (w_banks w (f_minor (of_file f))) (msr_reg pos))
          (u64_of (fst (user_words bytes)) (snd (user_words bytes)))))" by blast
  from m have on: "f_minor (of_file f) \<in> w_online w"
    by (rule msr_write_ok) (simp add: port_of_def split: if_splits)
  have "bit x k \<and> rn = msr_reg pos \<and> c = f_minor (of_file f)"
  proof (cases "c = f_minor (of_file f) \<and> rn = msr_reg pos")
    case True
    with fun_cong [OF x(2), of c] assms(4,5) show ?thesis by (simp add: bit_merge_bits split: if_splits)
  next
    case False
    then have "view (w_banks w' c) rn = view (w_banks w c) rn" using fun_cong [OF x(2), of c] by auto
    with assms(4) show ?thesis by simp
  qed
  with d x(1) on show ?thesis by (auto simp: writes_cpu_def)
qed

lemma do_ioctl_bits:
  assumes "al_inv (pf_hash pf) (w_al w)" and "local_view view (pf_local pf)"
    and "visit_ok (\<lambda>c. c \<in> w_online w) (pf_visit pf (w_online w))"
    and "do_ioctl V pf f compat32 ioc koa E w = (r, w')"
    and "bit (view (w_banks w' c) rn) k \<noteq> bit (view (w_banks w c) rn) k" and "k < 64"
  shows "of_driver f = Batch_driver \<and> c \<in> w_online w \<and> (\<exists>m. al_map (w_al w) (ucast rn) = Some m \<and> bit m k)"
proof -
  from assms(4,5) have b: "of_driver f = Batch_driver"
    using do_ioctl_other [of f V pf compat32 ioc koa E w] by (cases "of_driver f = Batch_driver") auto
  obtain q m' ops' where i: "msrbatch_ioctl (pf_hash pf) (pf_nr_cpus pf) (\<lambda>c. c \<in> w_online w) (\<lambda>_. w_al w) (pf_local pf)
      (pf_visit pf (w_online w)) E (of_mode f) ioc koa (w_banks w) = (q, m', ops')" by (metis prod_cases3)
  with assms(4) b have "m' = w_banks w'" by (auto simp: do_ioctl_batch batch_ioctl_handler_def)
  with ioctl_bits [OF _ assms(2,3) i assms(6)] assms(1,5) b show ?thesis by blast
qed

lemma do_write_al:
  assumes "do_write V pf f bytes pos env w = Some (r, w')" and "w_al w' \<noteq> w_al w"
  shows "of_driver f = Allowlist_driver \<and> of_mode f AND FMODE_WRITE \<noteq> 0"
  using assms by (cases "of_driver f")
    (auto simp: do_write_def fops_defs split: if_splits sum.splits option.splits prod.splits)

text \<open>Every other call leaves the allowlist and the registers alone.\<close>

lemma do_event_world:
  assumes "do_event V pf e s = Some (r, s')"
  obtains "w_al (dv_world s') = w_al (dv_world s)" and "w_banks (dv_world s') = w_banks (dv_world s)"
  | fd f bytes pos env where "write_fd e = Some fd" and "dv_files s fd = Some f"
      and "do_write V pf f bytes pos env (dv_world s) = Some (r, dv_world s')"
  | fd f compat32 ioc koa E where "ioctl_fd e = Some fd" and "dv_files s fd = Some f"
      and "do_ioctl V pf f compat32 ioc koa E (dv_world s) = (r, dv_world s')"
proof (cases e)
  case (Sys_open fd d minor mode)
  with assms do_open_cases [of pf fd d minor mode s] show thesis by (intro that(1)) auto
next
  case (Sys_lseek fd offset whence)
  with assms show thesis
    by (intro that(1)) (auto simp: do_lseek_def set_pos_def split: option.splits prod.splits)
next
  case (Sys_write fd bytes env)
  with assms that(1) that(2) [of fd _ bytes _ env] show thesis by (auto split: option.splits)
next
  case (Sys_pwrite fd bytes pos env)
  with assms that(1) that(2) [of fd _ bytes pos env] show thesis by (auto split: option.splits)
next
  case (Sys_ioctl fd compat32 ioc koa E)
  with assms that(1) that(3) [of fd _ compat32 ioc koa E] show thesis by (auto split: option.splits prod.splits)
qed (use assms in \<open>auto simp: set_pos_def intro!: that(1) split: option.splits\<close>)

text \<open>
  The number of the ioctl contains the size of the descriptor of the batch. A 32-bit program, in
  which the descriptor has 12 bytes, gets another number from msr_safe.h than the module, and so
  its calls are all refused, although the table has a handler for them.
\<close>

lemma compat_number: "IOWR (of_nat (of_char (CHR ''c''))) 0xA2 12 \<noteq> X86_IOC_MSR_BATCH"
  by (simp add: X86_IOC_MSR_BATCH_def IOWR_def)

lemma compat_ioctl_refused:
  assumes "of_driver f = Batch_driver" and "ioc = IOWR (of_nat (of_char (CHR ''c''))) 0xA2 12"
  shows "do_ioctl V pf f True ioc koa E w = (R_ops (Some ENOTTY) (oa_ops koa), w)"
  using assms compat_number by (simp add: do_ioctl_batch batch_ioctl_handler_def msrbatch_ioctl_def)

section \<open>Properties\<close>

text \<open>A machine with two CPUs, on which one program has opened the file of CPU 1.\<close>

definition sample_platform :: "(u32 \<Rightarrow> u64) platform" where
  "sample_platform = \<lparr>pf_klib = linux_klib, pf_hash = sample_hash, pf_nr_cpus = 2, pf_local = plain_local,
     pf_visit = (\<lambda>S T. sorted_list_of_set (S \<inter> T))\<rparr>"

definition sample_vfs :: vfs where
  "sample_vfs = \<lparr>no_handler = EINVAL, wrong_mode = EBADF, pos_after_error = (\<lambda>old new. old),
     default_llseek = (\<lambda>pos off whence. (Inl EINVAL, pos))\<rparr>"

definition sample_files :: "(u32 \<Rightarrow> u64) dev_state" where
  "sample_files = \<lparr>dv_world = \<lparr>w_al = sample_table, w_banks = (\<lambda>_ _. 0x1234), w_online = {0, 1}\<rparr>,
     dv_files = [3 \<mapsto> \<lparr>of_driver = Safe_driver, of_file = \<lparr>f_pos = 0x199, f_minor = 1\<rparr>, of_mode = 3\<rparr>]\<rparr>"

lemma sample_files_ok: "dev_ok sample_platform sample_files" "klib_ok (pf_klib sample_platform)"
  "local_view (\<lambda>b. b) (pf_local sample_platform)"
  by (auto simp: dev_ok_def world_ok_def count_ok_def sample_platform_def sample_files_def sample_table_inv
      linux_klib_ok plain_local_view) (simp add: sample_table_def)

lemma sample_visit_ok: "visit_ok (\<lambda>c. c \<in> S) (pf_visit sample_platform S)"
  by (auto simp: visit_ok_def sample_platform_def)

text \<open>
  C7: no sequence of system calls on the four devices goes wrong. From a well-formed state, whatever
  files a program opens and whatever it reads, writes, seeks and passes to the ioctl on them,
  with CPUs coming and going in between, the module never accesses memory outside its objects; the
  state stays well formed; and every reply is an error or of the kind of its call: a read
  returns no more bytes than asked for, a write that succeeds has taken all bytes, an ioctl
  gives back as many operations as it got. The one condition is that the kernel finds memory for
  the entry array.
\<close>

theorem system_calls_do_not_go_wrong:
  assumes "klib_ok (pf_klib pf)" and "dev_ok pf s" and "list_all memory_ok es"
  shows "\<exists>rs s'. run_events V pf es s = Some (rs, s') \<and> dev_ok pf s' \<and> list_all2 reply_ok es rs"
  using assms by (rule run_events_ok)

theorem system_calls_do_not_go_wrong_witness:
  "\<exists>rs s'. run_events sample_vfs sample_platform
      [Sys_open 4 Allowlist_driver 0 3, Sys_write 4 sample_text all_ok, Sys_read 4 4096 True, Sys_read 3 8 True,
       Cpus_change {0}, Sys_pwrite 3 (user_bytes (5, 0)) 0x199 all_ok, Sys_ioctl 3 False 7 (sample_oa []) ioctl_ok,
       Sys_close 3, Sys_read 3 8 True] sample_files = Some (rs, s')
    \<and> dev_ok sample_platform s' \<and> length rs = 9"
proof -
  have "list_all memory_ok
      [Sys_open 4 Allowlist_driver 0 3, Sys_write 4 sample_text all_ok, Sys_read 4 4096 True, Sys_read 3 8 True,
       Cpus_change {0}, Sys_pwrite 3 (user_bytes (5, 0)) 0x199 all_ok, Sys_ioctl 3 False 7 (sample_oa []) ioctl_ok,
       Sys_close 3, Sys_read 3 8 True]" by (simp add: all_ok_def)
  from system_calls_do_not_go_wrong [OF sample_files_ok(2,1) this, of sample_vfs] show ?thesis
    by (auto dest: list_all2_lengthD)
qed

text \<open>
  C3: what one system call can change. A bit of a register of a CPU changes only if the CPU is
  online, the bit is in the mask that the allowlist has for the register, and the call is a
  write to a file of that CPU that was opened for writing, or a batch ioctl. The allowlist
  changes only in a write to a file of the allowlist device that was opened for writing.
\<close>

theorem system_call_changes:
  assumes "al_inv (pf_hash pf) (w_al (dv_world s))" and "local_view view (pf_local pf)"
    and "\<And>S. visit_ok (\<lambda>c. c \<in> S) (pf_visit pf S)" and "do_event V pf e s = Some (r, s')"
  shows "(\<forall>c rn k. k < 64 \<longrightarrow>
        bit (view (w_banks (dv_world s') c) rn) k \<noteq> bit (view (w_banks (dv_world s) c) rn) k \<longrightarrow>
        c \<in> w_online (dv_world s) \<and> (\<exists>m. al_map (w_al (dv_world s)) (ucast rn) = Some m \<and> bit m k)
        \<and> (open_as s (write_fd e) (writes_cpu c) \<or> open_as s (ioctl_fd e) (\<lambda>f. of_driver f = Batch_driver)))
    \<and> (w_al (dv_world s') \<noteq> w_al (dv_world s) \<longrightarrow>
        open_as s (write_fd e) (\<lambda>f. of_driver f = Allowlist_driver \<and> of_mode f AND FMODE_WRITE \<noteq> 0))"
  using assms(4)
proof (cases rule: do_event_world)
  case 1
  then show ?thesis by simp
next
  case (2 fd f bytes pos env)
  from do_write_bits [OF assms(1,2) 2(3)] do_write_al [OF 2(3)] 2(1,2) show ?thesis
    unfolding open_as_def by blast
next
  case (3 fd f compat32 ioc koa E)
  from do_ioctl_bits [OF assms(1,2,3) 3(3)] do_ioctl_ok(2) [OF 3(3)] 3(1,2) show ?thesis
    unfolding open_as_def by blast
qed

theorem system_call_changes_witness:
  "\<exists>s'. do_event sample_vfs sample_platform (Sys_pwrite 3 (user_bytes (0xABCD, 1)) 0x199 all_ok) sample_files
      = Some (R_count 8, s')
    \<and> w_banks (dv_world s') 1 0x199 = 0x12CD \<and> open_as sample_files (Some 3) (writes_cpu 1)
    \<and> w_al (dv_world s') = sample_table"
proof -
  let ?e = "Sys_pwrite 3 (user_bytes (0xABCD, 1)) 0x199 all_ok"
  have u: "u64_of 0xABCD 1 AND 0xFF = 0xCD" by (simp add: u64_of_def)
  obtain s' where s': "do_event sample_vfs sample_platform ?e sample_files = Some (R_count 8, s')"
    "w_banks (dv_world s') 1 0x199 = 0x12CD"
    by (simp add: sample_files_def sample_platform_def do_write_def FMODE_WRITE_def msr_fops_def msr_write_def
        Let_def msr_reg_def sample_policy port_of_def plain_local_def write_merge_def user_words_bytes all_ok_def u)
  have "bit (0x12CD :: u64) 0 \<noteq> bit (0x1234 :: u64) 0" by simp
  with system_call_changes [OF _ sample_files_ok(3) sample_visit_ok s'(1)] s' sample_files_ok(1)
  have "open_as sample_files (Some 3) (writes_cpu 1)" "w_al (dv_world s') = sample_table" 
    by (auto simp: dev_ok_def world_ok_def open_as_def sample_files_def writes_cpu_def FMODE_WRITE_def)
  with s' show ?thesis by blast
qed

end
