(* ===== verification/Device_Nodes.thy ===== *)
theory Device_Nodes
  imports Module_Life Device_Files
begin

text \<open>
  From the path of a device file to the handlers of its driver: the names that the \<open>devnode\<close>
  callbacks give to the nodes below \<open>/dev\<close>, and the regions of minors under which the drivers
  registered their tables. The theory shows that in the loaded module every path leads to the
  driver it belongs to, and which node of a CPU leads nowhere.
\<close>

section \<open>Names\<close>

lemma decimal_digit_inj: "a < 10 \<Longrightarrow> b < 10 \<Longrightarrow> ''0123456789'' ! a = ''0123456789'' ! b \<Longrightarrow> a = b"
  by (subst (asm) nth_eq_iff_index_eq) simp_all

lemma decimal_not_Nil [simp]: "decimal n \<noteq> []"
  by (subst decimal.simps) simp

lemma decimal_inj: "decimal m = decimal n \<Longrightarrow> m = n"
proof (induction m arbitrary: n rule: less_induct)
  case (less m)
  have small: "length (decimal k) = 1 \<longleftrightarrow> k < 10" for k
    by (subst decimal.simps) (simp add: Suc_le_eq)
  show ?case
  proof (cases "m < 10")
    case True
    then have "n < 10" using small less.prems by metis
    with True less.prems have "''0123456789'' ! m = ''0123456789'' ! n" by (simp add: decimal.simps)
    with True \<open>n < 10\<close> show ?thesis using decimal_digit_inj by blast
  next
    case False
    then have n: "\<not> n < 10" using small less.prems by metis
    with False less.prems have "decimal (m div 10) = decimal (n div 10)"
      "''0123456789'' ! (m mod 10) = ''0123456789'' ! (n mod 10)"
      by (simp_all add: decimal.simps [of m] decimal.simps [of n])
    then have "m div 10 = n div 10" "m mod 10 = n mod 10"
      using less.IH [of "m div 10" "n div 10"] False decimal_digit_inj [of "m mod 10" "n mod 10"] by simp_all
    then show ?thesis by (metis div_mult_mod_eq)
  qed
qed

lemma hd_decimal: "hd (decimal n) \<in> set ''0123456789''"
proof (induction n rule: less_induct)
  case (less n)
  show ?case
  proof (cases "n < 10")
    case True
    then have "''0123456789'' ! n \<in> set ''0123456789''" by (intro nth_mem) simp
    with True show ?thesis by (simp add: decimal.simps)
  next
    case False
    with less.IH [of "n div 10"] show ?thesis by (subst decimal.simps) simp
  qed
qed

text \<open>
  The type of the member \<open>devnode\<close> of \<open>struct class\<close> differs between kernels; \<open>_Generic\<close> selects
  the function that has it. In each file the three functions have the same body, which is one
  function here.
\<close>

datatype devnode_type = Device_mode_t | Device_umode_t | Const_device_umode_t

fun msr_devnode_selector :: "devnode_type \<Rightarrow> nat \<Rightarrow> string" where
  "msr_devnode_selector Device_mode_t = msr_devnode"
| "msr_devnode_selector Device_umode_t = msr_devnode"
| "msr_devnode_selector Const_device_umode_t = msr_devnode"

fun msrbatch_nodename_selector :: "devnode_type \<Rightarrow> string" where
  "msrbatch_nodename_selector Device_mode_t = msrbatch_nodename"
| "msrbatch_nodename_selector Device_umode_t = msrbatch_nodename"
| "msrbatch_nodename_selector Const_device_umode_t = msrbatch_nodename"

fun msr_allowlist_nodename_selector :: "devnode_type \<Rightarrow> string" where
  "msr_allowlist_nodename_selector Device_mode_t = msr_allowlist_nodename"
| "msr_allowlist_nodename_selector Device_umode_t = msr_allowlist_nodename"
| "msr_allowlist_nodename_selector Const_device_umode_t = msr_allowlist_nodename"

fun msr_version_nodename_selector :: "devnode_type \<Rightarrow> nat option \<Rightarrow> string \<times> nat option" where
  "msr_version_nodename_selector Device_mode_t = msr_version_nodename"
| "msr_version_nodename_selector Device_umode_t = msr_version_nodename"
| "msr_version_nodename_selector Const_device_umode_t = msr_version_nodename"

text \<open>The callback of each class of the module, by the name of the class.\<close>

definition class_devnode :: "devnode_type \<Rightarrow> string \<Rightarrow> nat \<Rightarrow> string option" where
  "class_devnode ty cls minor =
     (if cls = ''msr_safe'' then Some (msr_devnode_selector ty minor)
      else if cls = dn_class batch_names then Some (msrbatch_nodename_selector ty)
      else if cls = dn_class allowlist_names then Some (msr_allowlist_nodename_selector ty)
      else if cls = dn_class version_names then Some (fst (msr_version_nodename_selector ty None))
      else None)"

lemma class_devnode_eq:
  "class_devnode ty cls minor =
     (if cls = ''msr_safe'' then Some (msr_devnode minor)
      else if cls = ''msr_batch'' then Some ''cpu/msr_batch''
      else if cls = ''msr_allowlist'' then Some ''cpu/msr_allowlist''
      else if cls = ''msr_safe_version'' then Some ''cpu/msr_safe_version'' else None)"
  by (cases ty) (simp_all add: class_devnode_def batch_names_def allowlist_names_def version_names_def
      msrbatch_nodename_def msr_allowlist_nodename_def msr_version_nodename_def)

text \<open>The table that goes with the name of a region in the calls of \<open>register_chrdev\<close>.\<close>

definition region_driver :: "string \<Rightarrow> driver option" where
  "region_driver nm =
     (if nm = ''cpu/msr_safe'' then Some Safe_driver
      else if nm = dn_chrdev batch_names then Some Batch_driver
      else if nm = dn_chrdev allowlist_names then Some Allowlist_driver
      else if nm = dn_chrdev version_names then Some Version_driver
      else None)"

text \<open>
  The path names a node of the registry, and the major and the minor of the node lie in a
  region of the driver.
\<close>

definition leads_to :: "devnode_type \<Rightarrow> registry \<Rightarrow> string \<Rightarrow> driver \<Rightarrow> nat \<Rightarrow> bool" where
  "leads_to ty r path d minor \<longleftrightarrow> (\<exists>cls ma nm len. nodes r (cls, ma, minor) \<noteq> None
     \<and> class_devnode ty cls minor = Some path \<and> chrdevs r ma = Some (nm, len) \<and> minor < len
     \<and> region_driver nm = Some d)"

lemma leads_toI:
  "\<lbrakk>nodes r (cls, ma, minor) \<noteq> None; class_devnode ty cls minor = Some path; chrdevs r ma = Some (nm, len);
    minor < len; region_driver nm = Some d\<rbrakk> \<Longrightarrow> leads_to ty r path d minor"
  unfolding leads_to_def by blast

lemma devnode_names:
  "msr_devnode c = msr_devnode c' \<longleftrightarrow> c = c'"
  "msr_devnode c \<noteq> ''cpu/msr_batch''" "msr_devnode c \<noteq> ''cpu/msr_allowlist''"
  "msr_devnode c \<noteq> ''cpu/msr_safe_version''"
proof -
  show "msr_devnode c = msr_devnode c' \<longleftrightarrow> c = c'"
    by (auto simp: msr_devnode_def dest: decimal_inj)
  have "msr_devnode c ! 4 = hd (decimal c)"
    by (cases "decimal c") (simp_all add: msr_devnode_def)
  then have n: "msr_devnode c ! 4 \<noteq> CHR ''m''" using hd_decimal [of c] by auto
  show "msr_devnode c \<noteq> ''cpu/msr_batch''" "msr_devnode c \<noteq> ''cpu/msr_allowlist''"
    "msr_devnode c \<noteq> ''cpu/msr_safe_version''" using n by auto
qed

section \<open>The loaded module\<close>

text \<open>The nodes of the module and the regions they lie in.\<close>

lemma module_up_class_nodes:
  assumes "module_up K S m r" and "nodes (reg K (kern m)) (cls, ma, mi) \<noteq> None"
  shows "cls = ''msr_safe'' \<Longrightarrow> ma = mdev_msr_safe m \<and> mi \<in> S"
    and "cls = ''msr_batch'' \<Longrightarrow> ma = mdev_msr_batch m \<and> mi = 0"
    and "cls = ''msr_allowlist'' \<Longrightarrow> ma = mdev_msr_allowlist m \<and> mi = 0"
    and "cls = ''msr_safe_version'' \<Longrightarrow> ma = mdev_msr_version m \<and> mi = 0"
proof -
  from assms(1) have fresh: "''msr_safe'' \<notin> classes r" "''msr_batch'' \<notin> classes r" "''msr_allowlist'' \<notin> classes r"
    "''msr_safe_version'' \<notin> classes r" and wf: "reg_wf r"
    by (auto simp: module_up_def drivers_up_def safe_fresh_def base3_def fresh_dev_def add_dev_def
        batch_names_def allowlist_names_def version_names_def)
  note none = fresh [THEN reg_wf_node [OF wf]]
  note reg = module_up_kern [OF assms(1)]
  show "cls = ''msr_safe'' \<Longrightarrow> ma = mdev_msr_safe m \<and> mi \<in> S" "cls = ''msr_batch'' \<Longrightarrow> ma = mdev_msr_batch m \<and> mi = 0"
    "cls = ''msr_allowlist'' \<Longrightarrow> ma = mdev_msr_allowlist m \<and> mi = 0"
    "cls = ''msr_safe_version'' \<Longrightarrow> ma = mdev_msr_version m \<and> mi = 0"
    using assms(2) reg none
    by (auto simp: cpu_nodes_def add_safe_def base3_def add_dev_def batch_names_def allowlist_names_def
        version_names_def split: if_splits)
qed

lemma module_up_node_of:
  assumes "module_up K S m r"
  shows "nodes (reg K (kern m)) (''msr_batch'', mdev_msr_batch m, 0) \<noteq> None"
    and "nodes (reg K (kern m)) (''msr_allowlist'', mdev_msr_allowlist m, 0) \<noteq> None"
    and "nodes (reg K (kern m)) (''msr_safe_version'', mdev_msr_version m, 0) \<noteq> None"
  using module_up_kern [OF assms]
  by (simp_all add: cpu_nodes_def add_safe_def base3_def add_dev_def batch_names_def allowlist_names_def
      version_names_def)

lemma module_up_regions:
  assumes "module_up K S m r"
  shows "chrdevs (reg K (kern m)) (mdev_msr_safe m) = Some (''cpu/msr_safe'', num_possible_cpus K)"
    and "chrdevs (reg K (kern m)) (mdev_msr_batch m) = Some (''cpu/msr_batch'', 256)"
    and "chrdevs (reg K (kern m)) (mdev_msr_allowlist m) = Some (''cpu/msr_allowlist'', 256)"
    and "chrdevs (reg K (kern m)) (mdev_msr_version m) = Some (''cpu/msr_safe_version'', 256)"
proof -
  from assms have d: "mdev_msr_safe m \<notin> {mdev_msr_batch m, mdev_msr_allowlist m, mdev_msr_version m}"
    "mdev_msr_version m \<notin> {mdev_msr_batch m, mdev_msr_allowlist m}" "mdev_msr_allowlist m \<noteq> mdev_msr_batch m"
    by (auto simp: module_up_def drivers_up_def safe_fresh_def base3_def fresh_dev_def add_dev_def split: if_splits)
  with module_up_kern [OF assms]
  show "chrdevs (reg K (kern m)) (mdev_msr_safe m) = Some (''cpu/msr_safe'', num_possible_cpus K)"
    "chrdevs (reg K (kern m)) (mdev_msr_batch m) = Some (''cpu/msr_batch'', 256)"
    "chrdevs (reg K (kern m)) (mdev_msr_allowlist m) = Some (''cpu/msr_allowlist'', 256)"
    "chrdevs (reg K (kern m)) (mdev_msr_version m) = Some (''cpu/msr_safe_version'', 256)"
    by (auto simp: cpu_nodes_def add_safe_def base3_def add_dev_def batch_names_def allowlist_names_def
        version_names_def)
qed

lemma region_driver_eq:
  "region_driver nm = (if nm = ''cpu/msr_safe'' then Some Safe_driver
     else if nm = ''cpu/msr_batch'' then Some Batch_driver
     else if nm = ''cpu/msr_allowlist'' then Some Allowlist_driver
     else if nm = ''cpu/msr_safe_version'' then Some Version_driver else None)"
  by (simp add: region_driver_def batch_names_def allowlist_names_def version_names_def)

definition driver_path :: "driver \<Rightarrow> nat \<Rightarrow> string" where
  "driver_path d minor = (case d of
      Safe_driver \<Rightarrow> msr_devnode minor
    | Batch_driver \<Rightarrow> ''cpu/msr_batch''
    | Allowlist_driver \<Rightarrow> ''cpu/msr_allowlist''
    | Version_driver \<Rightarrow> ''cpu/msr_safe_version'')"

lemma leads_to_module:
  assumes "module_up K S m r"
  shows "leads_to ty (reg K (kern m)) path d minor \<longleftrightarrow> path = driver_path d minor
    \<and> (if d = Safe_driver then minor \<in> S \<and> minor < num_possible_cpus K else minor = 0)"
  (is "_ \<longleftrightarrow> ?ok")
proof
  assume "leads_to ty (reg K (kern m)) path d minor"
  then obtain cls ma nm len where n: "nodes (reg K (kern m)) (cls, ma, minor) \<noteq> None"
    and c: "class_devnode ty cls minor = Some path" and r: "chrdevs (reg K (kern m)) ma = Some (nm, len)"
    and l: "minor < len" "region_driver nm = Some d" unfolding leads_to_def by blast
  from c consider "cls = ''msr_safe''" | "cls = ''msr_batch''" | "cls = ''msr_allowlist''" | "cls = ''msr_safe_version''"
    by (auto simp: class_devnode_eq split: if_splits)
  then show ?ok
    by cases (use module_up_class_nodes [OF assms n] module_up_regions [OF assms] c r l in
      \<open>auto simp: class_devnode_eq region_driver_eq driver_path_def\<close>)
next
  assume ok: ?ok
  note n = module_up_nodes [OF assms, of minor] module_up_node_of [OF assms] and r = module_up_regions [OF assms]
  note eqs = class_devnode_eq region_driver_eq driver_path_def
  show "leads_to ty (reg K (kern m)) path d minor"
  proof (cases d)
    case Safe_driver
    then show ?thesis by (intro leads_toI [OF _ _ r(1), of "''msr_safe''"]) (use ok n in \<open>simp_all add: eqs\<close>)
  next
    case Batch_driver
    then show ?thesis by (intro leads_toI [OF _ _ r(2), of "''msr_batch''"]) (use ok n in \<open>simp_all add: eqs\<close>)
  next
    case Allowlist_driver
    then show ?thesis by (intro leads_toI [OF _ _ r(3), of "''msr_allowlist''"]) (use ok n in \<open>simp_all add: eqs\<close>)
  next
    case Version_driver
    then show ?thesis by (intro leads_toI [OF _ _ r(4), of "''msr_safe_version''"]) (use ok n in \<open>simp_all add: eqs\<close>)
  qed
qed

lemma driver_path_inj: "driver_path d i = driver_path d' i' \<Longrightarrow> d = d' \<and> (d = Safe_driver \<longrightarrow> i = i')"
  using devnode_names [of i] devnode_names [of i'] by (cases d; cases d') (auto simp: driver_path_def)

section \<open>Property\<close>

text \<open>
  C16: in the loaded module every path leads to its driver. The three devices without a CPU are
  found under their paths with minor 0. The path of a CPU leads to the per-CPU device with
  the number of the CPU as minor, exactly if the node of the CPU exists and its number is below
  \<open>num_possible_cpus\<close>, the length of the region that \<open>msr_init\<close> registers; then the CPU is
  online, and on kernels from 4.10 on the node of every CPU that is online exists. Where the
  numbers of the CPUs have gaps, the node of an online CPU beyond the region leads to no driver,
  although \<open>msr_open\<close> would accept every number below \<open>nr_cpu_ids\<close>. And no path leads to two
  places. All this as long as no parameter of the module is written.
\<close>

theorem paths_lead_to_drivers:
  assumes "kernel_ok K" and "reg_wf (reg K (kern m0))" and "module_idle m0" and "loaded K v m0 m"
  shows "leads_to ty (reg K (kern m)) ''cpu/msr_batch'' Batch_driver 0
    \<and> leads_to ty (reg K (kern m)) ''cpu/msr_allowlist'' Allowlist_driver 0
    \<and> leads_to ty (reg K (kern m)) ''cpu/msr_safe_version'' Version_driver 0
    \<and> (leads_to ty (reg K (kern m)) (msr_devnode c) Safe_driver c
        \<longleftrightarrow> nodes (reg K (kern m)) (''msr_safe'', mdev_msr_safe m, c) \<noteq> None \<and> c < num_possible_cpus K)
    \<and> (leads_to ty (reg K (kern m)) (msr_devnode c) Safe_driver c \<longrightarrow> c \<in> set (cpus (reg K (kern m))))
    \<and> (KERNEL_VERSION 4 10 0 \<le> v \<longrightarrow> c \<in> set (cpus (reg K (kern m))) \<longrightarrow> c < num_possible_cpus K \<longrightarrow>
        leads_to ty (reg K (kern m)) (msr_devnode c) Safe_driver c)
    \<and> (leads_to ty (reg K (kern m)) path d i \<longrightarrow> leads_to ty (reg K (kern m)) path d' i' \<longrightarrow> d = d' \<and> i = i')"
proof -
  from loaded_inv [OF assms(4,1-3)] obtain S where S:
    "S \<subseteq> set (cpus (reg K (kern m)))" "module_up K S m ((reg K (kern m0))\<lparr>hotplug := True, cpus := cpus (reg K (kern m))\<rparr>)"
    "KERNEL_VERSION 4 10 0 \<le> v \<longrightarrow> S = set (cpus (reg K (kern m)))" by (rule hot_invE)
  note lead = leads_to_module [OF S(2), of ty]
  have "leads_to ty (reg K (kern m)) path d i \<longrightarrow> leads_to ty (reg K (kern m)) path d' i' \<longrightarrow> d = d' \<and> i = i'"
    unfolding lead using driver_path_inj [of d i d' i'] by metis
  moreover have "leads_to ty (reg K (kern m)) ''cpu/msr_batch'' Batch_driver 0"
    "leads_to ty (reg K (kern m)) ''cpu/msr_allowlist'' Allowlist_driver 0"
    "leads_to ty (reg K (kern m)) ''cpu/msr_safe_version'' Version_driver 0"
    "leads_to ty (reg K (kern m)) (msr_devnode c) Safe_driver c \<longleftrightarrow> c \<in> S \<and> c < num_possible_cpus K"
    by (simp_all add: lead driver_path_def)
  moreover have "nodes (reg K (kern m)) (''msr_safe'', mdev_msr_safe m, c) \<noteq> None \<longleftrightarrow> c \<in> S"
    by (simp add: module_up_nodes [OF S(2)])
  ultimately show ?thesis using S(1,3) by blast
qed

theorem paths_lead_to_drivers_witness:
  "\<exists>m. loaded all_nodes (KERNEL_VERSION 5 14 0) (sample_module 243) m
    \<and> leads_to Const_device_umode_t (kern m) (msr_devnode 1) Safe_driver 1
    \<and> \<not> leads_to Const_device_umode_t (kern m) (msr_devnode 7) Safe_driver 7
    \<and> leads_to Const_device_umode_t (kern m) ''cpu/msr_safe_version'' Version_driver 0"
proof -
  obtain m where i: "msr_init all_nodes (KERNEL_VERSION 5 14 0) (sample_module 243) = (None, m)"
    using sample_loads by blast
  note l = loaded_init [OF i]
  have c: "cpus (kern m) = [0, 1]" "num_possible_cpus all_nodes = 2" using i by (auto simp: module_eval)
  have v: "KERNEL_VERSION 4 10 0 \<le> KERNEL_VERSION 5 14 0" by (simp add: KERNEL_VERSION_def)
  note p = paths_lead_to_drivers [OF plain_kernel_ok sample_module_ok l, of Const_device_umode_t]
  from p [of 1] p [of 7] l c v show ?thesis by auto
qed

end
