(* ===== verification/Allowlist_Roundtrip.thy ===== *)
theory Allowlist_Roundtrip
  imports Allowlist_Dev
begin

text \<open>
  Reading the allowlist device to its end and writing the text back. \<open>cat_device\<close> is the
  client (cat(1)): it reads until a read returns 0. The theory shows that the client obtains
  the header and one line per entry in order, that the kernel's print buffer is large enough,
  and that the parser reads every printed line back, so that the text of the device, written
  to it, restores the same table.
\<close>

section \<open>Printing\<close>


lemma sint_word_of_nat: "n < 2 ^ 63 \<Longrightarrow> sint (word_of_int (int n) :: loff_t) = int n"
  by (simp add: signed_of_nat signed_take_bit_int_eq_self)

lemma header_line_eq: "header_line = ''#MSR       Write mask        '' @ [LF]"
  by (simp add: header_line_def sprintf_left_def numeral_eq_Suc)

lemma length_sprintf_0X_16 [simp]: "length (sprintf_0X 16 v) = 16"
  using length_sprintf_0X [of 16 v] sprintf_0X_ge [of 16 v] by simp

lemma length_entry_line: "length (entry_line e) = 22 + length (sprintf_0X 8 (e_msr e))"
  by (simp add: entry_line_def)

lemma length_header_line: "length header_line = 30"
  by (simp add: header_line_eq)

lemma kbuf_bounds: "30 \<le> length (allowlist_kbuf idx e)" "length (allowlist_kbuf idx e) \<le> 68"
  "60 \<le> length (allowlist_kbuf 0 e)"
  using length_sprintf_0X [of 8 "e_msr e"] sprintf_0X_ge [of 8 "e_msr e"]
  by (simp_all add: allowlist_kbuf_def length_entry_line length_header_line)

section \<open>Parsing what was printed\<close>

lemma takeWhile_stop: "\<forall>x \<in> set xs. P x \<Longrightarrow> \<not> P y \<Longrightarrow> takeWhile P (xs @ y # ys) = xs"
  by (simp add: takeWhile_append2)

lemma dropWhile_stop: "\<forall>x \<in> set xs. P x \<Longrightarrow> \<not> P y \<Longrightarrow> dropWhile P (xs @ y # ys) = y # ys"
  by (simp add: dropWhile_append2)

lemma set_hex_string: "set (hex_string n) \<subseteq> range hex_digit"
proof (induction n rule: hex_string.induct)
  case (1 n)
  then show ?case by (subst hex_string.simps) auto
qed

lemma hex_digit_0: "hex_digit 0 = CHR ''0''"
  by (simp add: hex_digit_def)

lemma set_sprintf_0X: "set (sprintf_0X w v) \<subseteq> range hex_digit"
  using set_hex_string [of "unat v"] hex_digit_0 [symmetric]
  by (auto simp: sprintf_0X_def Let_def)

lemma spec_field_hex:
  assumes K: "klib_doc K" and sp: "k_isspace K c"
  shows "spec_field K (''0x'' @ sprintf_0X w v @ c # rest) = Inr (v, rest)"
proof -
  let ?tok = "''0x'' @ sprintf_0X w v"
  have ns: "\<forall>x \<in> set ?tok. \<not> k_isspace K x"
    using K set_sprintf_0X [of w v] hex_digit_0 [symmetric] by (auto simp: klib_doc_def)
  have z: "\<not> k_isspace K (CHR ''0'')" using ns by simp
  have "dropWhile (k_isspace K) (?tok @ c # rest) = ?tok @ c # rest" using z by simp
  moreover have "takeWhile (\<lambda>c. \<not> k_isspace K c) (?tok @ c # rest) = ?tok"
    using ns sp by (intro takeWhile_stop) auto
  moreover have "dropWhile (\<lambda>c. \<not> k_isspace K c) (?tok @ c # rest) = c # rest"
    using ns sp by (intro dropWhile_stop) auto
  moreover have "k_strtoull K ?tok = Inr v" using K unfolding klib_doc_def by blast
  ultimately show ?thesis unfolding spec_field_def Let_def append_assoc by simp
qed

lemma spec_skip_entry:
  assumes "klib_doc K"
  shows "spec_skip K (CHR ''0'' # xs) = CHR ''0'' # xs"
proof -
  have "\<not> k_isspace K (CHR ''0'')"
    using assms hex_digit_0 unfolding klib_doc_def by metis
  then show ?thesis by (subst spec_skip.simps) simp
qed

lemma spec_next_line:
  assumes "klib_doc K"
  shows "spec_next K (entry_line e @ rest) = Inr (Some (e_msr e, e_wmask e, rest))"
proof -
  have sp: "k_isspace K SP" "k_isspace K LF" using assms by (simp_all add: klib_doc_def)
  have l: "entry_line e @ rest
      = ''0x'' @ sprintf_0X 8 (e_msr e) @ SP # (''0x'' @ sprintf_0X 16 (e_wmask e) @ LF # rest)"
    by (simp add: entry_line_def)
  have "spec_skip K (entry_line e @ rest) = entry_line e @ rest"
    using spec_skip_entry [OF assms] by (simp add: l)
  then show ?thesis
    unfolding spec_next_def Let_def l
    by (simp add: spec_field_hex [OF assms sp(1), simplified] spec_field_hex [OF assms sp(2), simplified])
qed

lemma spec_parse_lines:
  assumes "klib_doc K"
  shows "spec_parse K (concat (map entry_line es)) = Inr es"
proof (induction es)
  case Nil
  have "spec_skip K [] = []" by (subst spec_skip.simps) simp
  then show ?case by (subst spec_parse.simps) (simp add: spec_next_def)
next
  case (Cons e es)
  then show ?case
    by (subst spec_parse.simps) (simp add: spec_next_line [OF assms])
qed

lemma spec_parse_header:
  assumes "klib_doc K"
  shows "spec_parse K (header_line @ xs) = spec_parse K xs"
proof -
  define hs where "hs = ''MSR       Write mask        ''"
  have hl: "header_line = CHR ''#'' # hs @ [LF]"
    by (simp add: header_line_eq hs_def)
  have "dropWhile (\<lambda>c. c \<noteq> LF) (hs @ LF # xs) = LF # xs"
    by (rule dropWhile_stop) (simp_all add: hs_def)
  moreover have "\<not> k_isspace K (CHR ''#'')" "k_isspace K LF" using assms by (simp_all add: klib_doc_def)
  moreover have "spec_skip K (LF # xs) = spec_skip K (dropWhile (k_isspace K) (LF # xs))"
    by (simp only: spec_skip_dropWhile)
  ultimately have "spec_skip K (header_line @ xs) = spec_skip K xs"
    unfolding hl by (subst spec_skip.simps) (simp add: Let_def spec_skip_dropWhile)
  then have "spec_next K (header_line @ xs) = spec_next K xs" by (simp add: spec_next_def)
  then show ?thesis by (subst (1 2) spec_parse.simps) simp
qed

section \<open>Reading the device to its end\<close>

text \<open>The whole text of a table; nothing is printed for an empty one.\<close>

definition device_text :: "allowlist_entry list \<Rightarrow> string" where
  "device_text es = (if es = [] then [] else header_line @ concat (map entry_line es))"

text \<open>The reads of cat(1), at most \<open>fuel\<close> of them; \<open>None\<close> when one fails or the fuel runs out.\<close>

fun cat_device :: "nat \<Rightarrow> nat \<Rightarrow> loff_t \<Rightarrow> alist \<Rightarrow> string option" where
  "cat_device 0 count ppos G = None"
| "cat_device (Suc fuel) count ppos G =
     (case read_allowlist True count ppos G of
        None \<Rightarrow> None
      | Some r \<Rightarrow>
          (case rd_res r of
             Inl er \<Rightarrow> None
           | Inr n \<Rightarrow> if n = 0 then Some []
                     else map_option (append (rd_data r)) (cat_device fuel count (rd_ppos r) G)))"

lemma read_at:
  assumes "al_array G = Some xs" "al_numentries G = length xs" "k < length xs" "length xs < 2 ^ 31" "68 \<le> count"
  shows "read_allowlist True count (word_of_int (int k)) G
    = Some \<lparr>rd_res = Inr (length (allowlist_kbuf (int k) (xs ! k))), rd_ppos = word_of_int (int (Suc k)),
        rd_data = allowlist_kbuf (int k) (xs ! k)\<rparr>"
proof -
  have "sint (word_of_int (int k) :: loff_t) = int k"
    using assms by (intro sint_word_of_nat) simp
  then show ?thesis
    using assms kbuf_bounds(2) [of "int k" "xs ! k"] by (simp add: read_allowlist_def Let_def add.commute)
qed

lemma read_end:
  assumes "al_numentries G = k" "k < 2 ^ 31"
  shows "read_allowlist c count (word_of_int (int k)) G = Some \<lparr>rd_res = Inr 0, rd_ppos = 0, rd_data = []\<rparr>"
  using assms sint_word_of_nat [of k] by (simp add: read_allowlist_def)

lemma cat_device_from:
  assumes "al_array G = Some xs" "al_numentries G = length xs" "length xs < 2 ^ 31" "68 \<le> count"
    and "k \<le> length xs" and "length xs - k < fuel"
  shows "cat_device fuel count (word_of_int (int k)) G
    = Some (concat (map (\<lambda>i. allowlist_kbuf (int i) (xs ! i)) [k..<length xs]))"
  using assms(5,6)
proof (induction fuel arbitrary: k)
  case 0
  then show ?case by simp
next
  case (Suc fuel)
  show ?case
  proof (cases "k = length xs")
    case True
    with read_end [OF assms(2,3)] show ?thesis by simp
  next
    case False
    with Suc.prems have k: "k < length xs" by simp
    have "length (allowlist_kbuf (int k) (xs ! k)) \<noteq> 0" using kbuf_bounds(1) [of "int k" "xs ! k"] by linarith
    with Suc.IH [of "Suc k"] Suc.prems k read_at [OF assms(1,2) k assms(3,4)]
    show ?thesis by (simp add: upt_conv_Cons [OF k])
  qed
qed

lemma device_text_eq:
  "concat (map (\<lambda>i. allowlist_kbuf (int i) (xs ! i)) [0..<length xs]) = device_text xs"
proof (cases xs)
  case Nil
  then show ?thesis by (simp add: device_text_def)
next
  case (Cons e es)
  have "map (\<lambda>i. allowlist_kbuf (int i) (xs ! i)) [Suc 0..<length xs]
      = map (\<lambda>i. entry_line (xs ! i)) [Suc 0..<length xs]"
    by (simp add: allowlist_kbuf_def)
  also have "\<dots> = map entry_line (tl xs)"
    by (rule nth_equalityI) (simp_all add: nth_tl)
  finally show ?thesis using Cons
    by (simp add: device_text_def upt_conv_Cons allowlist_kbuf_def del: upt_Suc)
qed

lemma NUL_notin_device_text: "NUL \<notin> set (device_text es)"
proof -
  have "NUL \<noteq> hex_digit d" for d
  proof -
    have "\<forall>n < 16. NUL \<noteq> ''0123456789ABCDEF'' ! n" by code_simp
    then show ?thesis by (simp add: hex_digit_def)
  qed
  then have "NUL \<notin> set (sprintf_0X w v)" for w v using set_sprintf_0X [of w v] by blast
  then show ?thesis by (auto simp: device_text_def header_line_eq entry_line_def)
qed
section \<open>Properties\<close>

text \<open>
  C14: reading the device to its end and writing the text back restores the table. With a
  read size of at least 68 bytes, and one read more than there are entries, the client gets
  the header and one line per entry; if that text fits in the write limit, writing it to the
  device in any state succeeds and loads the same entries in the same order.
\<close>

theorem cat_then_write_restores:
  assumes "klib_doc K" and "al_inv h G" and "al_array G = Some xs" and "xs \<noteq> []"
    and "length xs < 2 ^ 31" and "68 \<le> count" and "length xs < fuel"
    and "length (device_text xs) < MAX_WLIST_BSIZE"
  shows "\<exists>text G2. cat_device fuel count 0 G = Some text \<and> text = device_text xs
    \<and> write_allowlist K h all_ok text G1 = Some (Inr (length text), G2)
    \<and> al_inv h G2 \<and> al_array G2 = Some xs"
proof -
  have n: "al_numentries G = length xs" "distinct (map e_msr xs)"
    using assms(2,3) by (simp_all add: al_inv_def tab_inv_def)
  have "cat_device fuel count 0 G = Some (device_text xs)"
    using cat_device_from [OF assms(3) n(1) assms(5,6), of 0 fuel] assms(7)
    by (simp add: device_text_eq)
  moreover have tw: "takeWhile (\<lambda>c. c \<noteq> NUL) (device_text xs) = device_text xs"
    using NUL_notin_device_text [of xs] by (auto simp: takeWhile_eq_all_conv)
  have "spec_parse K (device_text xs) = Inr xs"
    using assms(4) by (simp add: device_text_def spec_parse_header [OF assms(1)] spec_parse_lines [OF assms(1)])
  then have "spec_parse K (takeWhile (\<lambda>c. c \<noteq> NUL) (device_text xs)) = Inr xs"
    by (simp only: tw)
  moreover have "2 < length (device_text xs)"
    using assms(4) by (simp add: device_text_def length_header_line)
  ultimately show ?thesis
    using write_success [of K "device_text xs" all_ok xs h G1] assms(1,4,8) n(2)
    by (auto simp: klib_doc_def all_ok_def)
qed

theorem cat_then_write_restores_witness:
  "\<exists>G text G2. al_array G = Some sample_entries \<and> cat_device 3 4096 0 G = Some text
    \<and> write_allowlist linux_klib ucast all_ok text al_initial = Some (Inr (length text), G2)
    \<and> al_array G2 = Some sample_entries"
proof -
  have ok: "2 < length sample_text" "length sample_text < MAX_WLIST_BSIZE"
    "kzalloc_ok all_ok" "copy_in_ok all_ok" "kcalloc_ok all_ok"
    by (simp_all add: sample_length MAX_WLIST_BSIZE_def all_ok_def)
  have d: "sample_entries \<noteq> []" "distinct (map e_msr sample_entries)"
    by (simp_all add: sample_entries_def)
  obtain G where G: "al_inv ucast G" "al_array G = Some sample_entries"
    using write_success [OF linux_klib_ok ok sample_parse d, of ucast al_initial] by blast
  have "length (entry_line e) \<le> 38" for e
    using length_sprintf_0X [of 8 "e_msr e"] by (simp add: length_entry_line)
  then have "length (device_text [e, e']) \<le> 30 + (38 + 38)" for e e'
    unfolding device_text_def by (simp add: length_header_line add_mono [of _ 38 _ 38, simplified])
  then have "length (device_text sample_entries) \<le> 106" by (simp add: sample_entries_def)
  then have "length (device_text sample_entries) < MAX_WLIST_BSIZE" by (simp add: MAX_WLIST_BSIZE_def)
  from cat_then_write_restores [OF linux_klib_doc G d(1) _ _ _ this, of 4096 3 al_initial] G
  show ?thesis by (auto simp: sample_entries_def)
qed

text \<open>
  C33: the text that one read prints, with the terminating NUL, fits in the 200 bytes of
  \<open>kbuf\<close>, and the first read, which carries the header, prints at least the 60 bytes that
  the manual asks a reader to provide.
\<close>

theorem read_buffer_bounds:
  "length (allowlist_kbuf idx e) + 1 \<le> 200 \<and> 30 \<le> length (allowlist_kbuf idx e)
    \<and> 60 \<le> length (allowlist_kbuf 0 e)"
  using kbuf_bounds(1,2) [of idx e] kbuf_bounds(3) [of e] by simp

end
