(* ===== verification/Example.thy ===== *)
theory Example
  imports Msr_System Allowlist_Roundtrip
begin

text \<open>
  The example program examples/example.c, which uses every device of the module: it loads an
  allowlist of one register, writes and reads that register on 32 CPUs through the per-CPU
  devices, and does the same with two batches. A failed assertion, which ends the program, is
  \<open>None\<close>. The theory composes the models of the devices: on a machine with 32 CPUs no
  assertion fails.
\<close>

section \<open>The program\<close>

definition MSR_MPERF :: u32 where
  "MSR_MPERF = 0xE7"

definition nCPUs :: nat where
  "nCPUs = 32"

definition example_allowlist :: string where
  "example_allowlist = ''0xE7 0xFFFFFFFFFFFFFFFF'' @ [LF]"

definition set_allowlist :: "klib \<Rightarrow> bucket_hash \<Rightarrow> write_env \<Rightarrow> alist \<Rightarrow> alist option" where
  "set_allowlist K h env G =
     (case write_allowlist K h env example_allowlist G of
        None \<Rightarrow> None
      | Some (Inl _, _) \<Rightarrow> None
      | Some (Inr nbytes, G') \<Rightarrow> if length example_allowlist = nbytes then Some G' else None)"

text \<open>
  The loops over the CPUs. The result of \<open>pread\<close> is not looked at: when it fails, the entry of
  \<open>data\<close> keeps the 0 that was written from it.
\<close>

fun serial_writes :: "bucket_hash \<Rightarrow> alist \<Rightarrow> 'm cpu_port \<Rightarrow> 'm \<Rightarrow> nat list \<Rightarrow> 'm option" where
  "serial_writes h G P m [] = Some m"
| "serial_writes h G P m (i # is) =
     (case msr_write h G P m True i 8 (ucast MSR_MPERF) (0, 0) of
        (Inl _, _) \<Rightarrow> None
      | (Inr rc, m') \<Rightarrow> if 8 = rc then serial_writes h G P m' is else None)"

definition serial_read :: "bucket_hash \<Rightarrow> alist \<Rightarrow> 'm cpu_port \<Rightarrow> 'm \<Rightarrow> nat \<Rightarrow> u64" where
  "serial_read h G P m i =
     (case msr_read h G P m True i 8 (ucast MSR_MPERF) of
        Inl _ \<Rightarrow> 0
      | Inr d \<Rightarrow> u64_of (fst d) (snd d))"

definition measure_serial_latency :: "bucket_hash \<Rightarrow> alist \<Rightarrow> 'm cpu_port \<Rightarrow> nat \<Rightarrow> (nat \<Rightarrow> bool) \<Rightarrow> 'm
    \<Rightarrow> ('m \<times> u64) option" where
  "measure_serial_latency h G P nr_cpu_ids cpu_online m =
     (if list_all (\<lambda>i. case msr_open nr_cpu_ids cpu_online \<lparr>f_pos = 0, f_minor = i\<rparr> of
                         Inl _ \<Rightarrow> False | Inr _ \<Rightarrow> True) [0..<nCPUs]
      then (case serial_writes h G P m [0..<nCPUs] of
              None \<Rightarrow> None
            | Some m1 \<Rightarrow>
                let data = map (serial_read h G P m1) [0..<nCPUs]
                in Some (m1, data ! (nCPUs - 1)))
      else None)"

text \<open>The arrays on the stack: what is not assigned is whatever was there (\<open>junk\<close>).\<close>

definition example_w_ops :: "(nat \<Rightarrow> msr_batch_op) \<Rightarrow> msr_batch_op list" where
  "example_w_ops junk = map (\<lambda>i. (junk i)\<lparr>op_cpu := of_nat i, op_isrdmsr := 0, op_msr := MSR_MPERF,
     op_msrdata := 0\<rparr>) [0..<nCPUs]"

definition example_r_ops :: "(nat \<Rightarrow> msr_batch_op) \<Rightarrow> msr_batch_op list" where
  "example_r_ops junk = map (\<lambda>i. (junk i)\<lparr>op_cpu := of_nat i, op_isrdmsr := 1, op_msr := MSR_MPERF\<rparr>) [0..<nCPUs]"

definition example_batch :: "u32 \<Rightarrow> msr_batch_op list \<Rightarrow> msr_batch_array" where
  "example_batch junk ops = \<lparr>oa_numops = of_nat nCPUs, oa_version = junk, oa_ops = ops\<rparr>"

definition measure_batch_latency :: "bucket_hash \<Rightarrow> alist \<Rightarrow> nat \<Rightarrow> (nat \<Rightarrow> bool) \<Rightarrow> 'b local_port
    \<Rightarrow> (nat set \<Rightarrow> nat list) \<Rightarrow> ioctl_env \<Rightarrow> (nat \<Rightarrow> msr_batch_op) \<Rightarrow> (nat \<Rightarrow> msr_batch_op) \<Rightarrow> u32 \<Rightarrow> (nat \<Rightarrow> 'b)
    \<Rightarrow> ((nat \<Rightarrow> 'b) \<times> u64) option" where
  "measure_batch_latency h G nr_cpu_ids cpu_online L visit E wjunk rjunk vjunk m =
     (case msrbatch_ioctl h nr_cpu_ids cpu_online (\<lambda>_. G) L visit E FMODE_READ X86_IOC_MSR_BATCH
             (example_batch vjunk (example_w_ops wjunk)) m of
        (Some _, _, _) \<Rightarrow> None
      | (None, m1, _) \<Rightarrow>
          (case msrbatch_ioctl h nr_cpu_ids cpu_online (\<lambda>_. G) L visit E FMODE_READ X86_IOC_MSR_BATCH
                  (example_batch vjunk (example_r_ops rjunk)) m1 of
             (Some _, _, _) \<Rightarrow> None
           | (None, m2, r_ops) \<Rightarrow> Some (m2, op_msrdata (r_ops ! (nCPUs - 1)))))"

text \<open>\<open>main\<close>: the allowlist, the registers and the two numbers that are printed.\<close>

definition example_main :: "klib \<Rightarrow> bucket_hash \<Rightarrow> write_env \<Rightarrow> nat \<Rightarrow> nat set \<Rightarrow> 'b local_port
    \<Rightarrow> (nat set \<Rightarrow> nat list) \<Rightarrow> ioctl_env \<Rightarrow> (nat \<Rightarrow> msr_batch_op) \<Rightarrow> (nat \<Rightarrow> msr_batch_op) \<Rightarrow> u32
    \<Rightarrow> alist \<Rightarrow> (nat \<Rightarrow> 'b) \<Rightarrow> (alist \<times> (nat \<Rightarrow> 'b) \<times> u64 \<times> u64) option" where
  "example_main K h env nr_cpu_ids S L visit E wjunk rjunk vjunk G m =
     (case set_allowlist K h env G of
        None \<Rightarrow> None
      | Some G1 \<Rightarrow>
          (case measure_serial_latency h G1 (port_of L S) nr_cpu_ids (\<lambda>c. c \<in> S) m of
             None \<Rightarrow> None
           | Some (m1, serial) \<Rightarrow>
               (case measure_batch_latency h G1 nr_cpu_ids (\<lambda>c. c \<in> S) L visit E wjunk rjunk vjunk m1 of
                  None \<Rightarrow> None
                | Some (m2, batch) \<Rightarrow> Some (G1, m2, serial, batch))))"

section \<open>The allowlist\<close>

lemma example_text:
  "example_allowlist = ''0x'' @ sprintf_0X 2 0xE7 @ SP # (''0x'' @ sprintf_0X 16 0xFFFFFFFFFFFFFFFF @ LF # [])"
  by (simp add: example_allowlist_def sprintf_0X_def Let_def hex_string.simps hex_digit_def)

lemma example_parse:
  assumes "klib_doc K"
  shows "spec_parse K example_allowlist = Inr [\<lparr>e_wmask = 0xFFFFFFFFFFFFFFFF, e_msr = 0xE7\<rparr>]"
proof -
  have sp: "k_isspace K SP" "k_isspace K LF" using assms by (simp_all add: klib_doc_def)
  have nil: "spec_parse K [] = Inr []" using spec_parse_lines [OF assms, of "[]"] by simp
  have "spec_skip K example_allowlist = example_allowlist"
    using spec_skip_entry [OF assms] by (simp add: example_text)
  then have "spec_next K example_allowlist = Inr (Some (0xE7, 0xFFFFFFFFFFFFFFFF, []))"
    unfolding spec_next_def Let_def
    by (simp add: example_text spec_field_hex [OF assms sp(1), simplified] spec_field_hex [OF assms sp(2), simplified])
  then show ?thesis by (subst spec_parse.simps) (simp add: nil)
qed

lemma example_loads:
  assumes "klib_doc K" and "kzalloc_ok env" and "copy_in_ok env" and "kcalloc_ok env"
  obtains G1 where "set_allowlist K h env G = Some G1" and "al_inv h G1"
    and "al_map G1 = [0xE7 \<mapsto> 0xFFFFFFFFFFFFFFFF]"
proof -
  have K: "klib_ok K" using assms(1) by (simp add: klib_doc_def)
  have t: "takeWhile (\<lambda>c. c \<noteq> NUL) example_allowlist = example_allowlist"
    by (simp add: example_allowlist_def)
  have p: "spec_parse K (takeWhile (\<lambda>c. c \<noteq> NUL) example_allowlist)
      = Inr [\<lparr>e_wmask = 0xFFFFFFFFFFFFFFFF, e_msr = 0xE7\<rparr>]" using example_parse [OF assms(1)] by (simp only: t)
  have "2 < length example_allowlist" "length example_allowlist < MAX_WLIST_BSIZE"
    by (simp_all add: example_allowlist_def MAX_WLIST_BSIZE_def)
  from write_success [OF K this assms(2-4) p, of h G] obtain G1 where
    "write_allowlist K h env example_allowlist G = Some (Inr (length example_allowlist), G1)" "al_inv h G1"
    "al_array G1 = Some [\<lparr>e_wmask = 0xFFFFFFFFFFFFFFFF, e_msr = 0xE7\<rparr>]" by auto
  then show thesis by (intro that [of G1]) (simp_all add: set_allowlist_def al_map_def entry_pairs_def)
qed

section \<open>The register\<close>

text \<open>The hardware does not fault on the register.\<close>

definition mperf_total :: "'b local_port \<Rightarrow> bool" where
  "mperf_total L \<longleftrightarrow> (\<forall>b. (\<exists>d. rdmsr_safe L b MSR_MPERF = Some d)
     \<and> (\<forall>lo hi. \<exists>b'. wrmsr_safe L b MSR_MPERF lo hi = Some b'))"

definition mperf_listed :: "bucket_hash \<Rightarrow> alist \<Rightarrow> bool" where
  "mperf_listed h G \<longleftrightarrow> al_inv h G \<and> al_map G = [0xE7 \<mapsto> 0xFFFFFFFFFFFFFFFF]"

lemma mperf_policy:
  assumes "mperf_listed h G"
  shows "al_map G (ucast MSR_MPERF) = Some 0xFFFFFFFFFFFFFFFF"
    and "msr_allowlist_maskexists h G (ucast MSR_MPERF)"
    and "msr_allowlist_writemask h G (ucast MSR_MPERF) = 0xFFFFFFFFFFFFFFFF"
  using assms by (simp_all add: mperf_listed_def maskexists_al_map writemask_al_map MSR_MPERF_def)

lemma mperf_reg: "msr_reg (ucast MSR_MPERF) = MSR_MPERF"
  by (simp add: msr_reg_def MSR_MPERF_def)

text \<open>\<open>z\<close> is the machine \<open>m\<close> with the register zeroed on the CPUs of \<open>C\<close>.\<close>

definition zeroed :: "('b \<Rightarrow> u32 \<Rightarrow> u64) \<Rightarrow> nat set \<Rightarrow> (nat \<Rightarrow> 'b) \<Rightarrow> (nat \<Rightarrow> 'b) \<Rightarrow> bool" where
  "zeroed view C m z \<longleftrightarrow> (\<forall>c. view (z c) = (if c \<in> C then (view (m c))(MSR_MPERF := 0) else view (m c)))"

lemma zeroed_trans: "zeroed view A m1 m2 \<Longrightarrow> zeroed view B m2 m3 \<Longrightarrow> zeroed view (A \<union> B) m1 m3"
  by (auto simp: zeroed_def fun_eq_iff)

lemma u64_of_0 [simp]: "u64_of 0 0 = 0"
  by (simp add: u64_of_def)

section \<open>One CPU after the other\<close>

lemma serial_write_one:
  assumes "mperf_listed h G" and "mperf_total L" and "local_view view L" and "i \<in> S"
  obtains m' where "msr_write h G (port_of L S) m True i 8 (ucast MSR_MPERF) (0, 0) = (Inr 8, m')"
    and "zeroed view {i} m m'"
proof -
  obtain b where b: "wrmsr_safe L (m i) MSR_MPERF 0 0 = Some b"
    using assms(2) unfolding mperf_total_def by blast
  then have v: "view b = (view (m i))(MSR_MPERF := u64_of 0 0)" using assms(3) unfolding local_view_def by blast
  have "msr_write h G (port_of L S) m True i 8 (ucast MSR_MPERF) (0, 0) = (Inr 8, m(i := b))"
    using assms(4) b by (simp add: msr_write_def Let_def mperf_reg mperf_policy [OF assms(1)] port_of_def)
  then show thesis by (rule that) (simp add: zeroed_def v)
qed

lemma serial_writes_zero:
  assumes "mperf_listed h G" and "mperf_total L" and "local_view view L" and "set is \<subseteq> S"
  shows "\<exists>m'. serial_writes h G (port_of L S) m is = Some m' \<and> zeroed view (set is) m m'"
  using assms(4)
proof (induction "is" arbitrary: m)
  case Nil
  then show ?case by (simp add: zeroed_def)
next
  case (Cons i "is")
  have "i \<in> S" using Cons.prems by simp
  then obtain m1 where m1: "msr_write h G (port_of L S) m True i 8 (ucast MSR_MPERF) (0, 0) = (Inr 8, m1)"
    "zeroed view {i} m m1" by (rule serial_write_one [OF assms(1-3)])
  obtain m' where "serial_writes h G (port_of L S) m1 is = Some m'" "zeroed view (set is) m1 m'"
    using Cons by auto
  with m1 zeroed_trans [OF m1(2)] show ?case by auto
qed

lemma serial_read_view:
  assumes "mperf_listed h G" and "mperf_total L" and "local_view view L" and "i \<in> S"
  shows "serial_read h G (port_of L S) m i = view (m i) MSR_MPERF"
proof -
  obtain d where d: "rdmsr_safe L (m i) MSR_MPERF = Some d" using assms(2) unfolding mperf_total_def by blast
  then have "u64_of (fst d) (snd d) = view (m i) MSR_MPERF"
    using assms(3) unfolding local_view_def by (metis prod.collapse)
  then show ?thesis
    using d assms(4) by (simp add: serial_read_def msr_read_def Let_def mperf_reg mperf_policy [OF assms(1)] port_of_def)
qed

lemma serial_ok:
  assumes "mperf_listed h G" and "mperf_total L" and "local_view view L" and "{..<nCPUs} \<subseteq> S" and "nCPUs \<le> n"
  obtains m1 where "measure_serial_latency h G (port_of L S) n (\<lambda>c. c \<in> S) m = Some (m1, 0)"
    and "zeroed view {..<nCPUs} m m1"
proof -
  have S: "set [0..<nCPUs] \<subseteq> S" using assms(4) by auto
  obtain m1 where w: "serial_writes h G (port_of L S) m [0..<nCPUs] = Some m1" "zeroed view (set [0..<nCPUs]) m m1"
    using serial_writes_zero [OF assms(1-3) S] by blast
  have last: "nCPUs - 1 < nCPUs" by (simp add: nCPUs_def)
  then have "nCPUs - 1 \<in> S" using assms(4) by auto
  from serial_read_view [OF assms(1-3) this, of m1] w(2) last
  have "map (serial_read h G (port_of L S) m1) [0..<nCPUs] ! (nCPUs - 1) = 0" by (simp add: zeroed_def)
  moreover have "list_all (\<lambda>i. case msr_open n (\<lambda>c. c \<in> S) \<lparr>f_pos = 0, f_minor = i\<rparr> of Inl _ \<Rightarrow> False | Inr _ \<Rightarrow> True)
      [0..<nCPUs]"
    using assms(4,5) by (auto simp: list_all_iff msr_open_def)
  ultimately show thesis using w by (intro that [of m1]) (simp_all add: measure_serial_latency_def lessThan_atLeast0)
qed

section \<open>All CPUs at once\<close>

text \<open>The operations of the first batch as they come out of the allowlist check.\<close>

definition zero_op :: "msr_batch_op \<Rightarrow> bool" where
  "zero_op x \<longleftrightarrow> op_isrdmsr x = 0 \<and> op_msr x = MSR_MPERF \<and> op_msrdata x = 0
     \<and> op_wmask x = 0xFFFFFFFFFFFFFFFF \<and> op_err x = None"

lemma batch_one_zero:
  assumes "mperf_total L" and "local_view view L" and "zero_op x"
  shows "\<exists>b'. batch_one L b x = (b', x) \<and> view b' = (view b)(MSR_MPERF := 0)"
proof -
  obtain lo hi where r: "rdmsr_safe L b MSR_MPERF = Some (lo, hi)"
    using assms(1) unfolding mperf_total_def by fastforce
  obtain b' where w: "wrmsr_safe L b MSR_MPERF 0 0 = Some b'"
    using assms(1) unfolding mperf_total_def by blast
  have "view b' = (view b)(MSR_MPERF := u64_of 0 0)" using assms(2) w unfolding local_view_def by blast
  moreover have "lo32 0 = 0" "hi32 0 = 0" by (simp_all add: lo32_def hi32_def)
  moreover have "x\<lparr>op_err := None\<rparr> = x" using assms(3) by (cases x) (simp add: zero_op_def)
  moreover have "op_isrdmsr x = 0" "op_msr x = MSR_MPERF" "op_msrdata x = 0" "op_wmask x = - 1"
    using assms(3) by (simp_all add: zero_op_def)
  ultimately show ?thesis using r w by (simp add: batch_one_def Let_def)
qed

lemma batch_on_zero:
  assumes "mperf_total L" and "local_view view L" and "\<forall>x \<in> set ops. zero_op x"
  shows "view (bank_after L c b ops) = (if c \<in> cpu_of ` set ops then (view b)(MSR_MPERF := 0) else view b)
    \<and> ops_after L c b ops = ops"
  using assms(3)
proof (induction ops arbitrary: b)
  case Nil
  then show ?case by simp
next
  case (Cons x ops)
  obtain b' where "batch_one L b x = (b', x)" "view b' = (view b)(MSR_MPERF := 0)"
    using batch_one_zero [OF assms(1,2), of x b] Cons.prems by auto
  with Cons.IH [of b'] Cons.IH [of b] Cons.prems show ?case by auto
qed

lemma batch_zero:
  assumes "mperf_total L" and "local_view view L" and "visit_ok on visit"
    and "\<forall>x \<in> set ops. zero_op x \<and> on (cpu_of x)"
  obtains z where "msr_safe_batch L visit m ops = (None, z, ops)" and "zeroed view (cpu_of ` set ops) m z"
proof -
  obtain r z ops' where b: "msr_safe_batch L visit m ops = (r, z, ops')" by (cases "msr_safe_batch L visit m ops")
  note ch = msr_safe_batch_char [OF assms(3) b]
  have zs: "view (bank_after L c b ops) = (if c \<in> cpu_of ` set ops then (view b)(MSR_MPERF := 0) else view b)"
    "ops_after L c b ops = ops" for c b
    using batch_on_zero [OF assms(1,2), of ops c b] assms(4) by auto
  have ops: "ops' = ops" by (rule nth_equalityI) (use ch(2,4) zs(2) in auto)
  have "r = None" unfolding ch(1) first_err_None ops using assms(4) by (simp add: zero_op_def)
  moreover have "zeroed view (cpu_of ` set ops) m z" using assms(4) by (auto simp: zeroed_def ch(3) zs(1))
  ultimately show thesis using b ops that by blast
qed

text \<open>The allocations and copies of the ioctl succeed.\<close>

definition env_ok :: "ioctl_env \<Rightarrow> bool" where
  "env_ok E \<longleftrightarrow> desc_copy_ok E \<and> kmalloc_ok E \<and> ops_copy_ok E \<and> nCPUs \<le> copied_out E \<and> cpumask_zalloc E = None"

lemma example_batch_ops:
  assumes "length ops = nCPUs"
  shows "unat (oa_numops (example_batch v ops)) = nCPUs" and "oa_ops (example_batch v ops) = ops"
    and "batch_ops (example_batch v ops) = ops"
    and "env_ok E \<Longrightarrow> admitted E FMODE_READ X86_IOC_MSR_BATCH (example_batch v ops)"
  using assms by (simp_all add: example_batch_def nCPUs_def admitted_def env_ok_def FMODE_READ_def)

lemma example_ioctl:
  assumes "mperf_listed h G" and "env_ok E" and "length ops = nCPUs" and "nCPUs \<le> n"
    and "\<forall>x \<in> set ops. op_msr x = MSR_MPERF \<and> cpu_of x < nCPUs \<and> cpu_of x \<in> S"
    and "msr_safe_batch L visit m (map (\<lambda>x. x\<lparr>op_err := None, op_wmask := 0xFFFFFFFFFFFFFFFF\<rparr>) ops) = (None, m', ops')"
  shows "msrbatch_ioctl h n (\<lambda>c. c \<in> S) (\<lambda>_. G) L visit E FMODE_READ X86_IOC_MSR_BATCH (example_batch v ops) m
    = (None, m', ops')"
proof -
  note e = example_batch_ops [OF assms(3), where v = v]
  have inv: "al_inv h G" using assms(1) by (simp add: mperf_listed_def)
  have chk: "\<forall>x \<in> set (batch_ops (example_batch v ops)). check_op (al_map G) n (\<lambda>c. c \<in> S) x = None"
    unfolding e(3) using assms(4,5) mperf_policy(1) [OF assms(1)] by (auto simp: check_op_def)
  have ops: "map (\<lambda>x. x\<lparr>op_err := None, op_wmask := the (al_map G (ucast (op_msr x)))\<rparr>) (batch_ops (example_batch v ops))
      = map (\<lambda>x. x\<lparr>op_err := None, op_wmask := 0xFFFFFFFFFFFFFFFF\<rparr>) ops"
    unfolding e(3) using assms(5) mperf_policy(1) [OF assms(1)] by (intro map_cong refl) auto
  have env: "unat (oa_numops (example_batch v ops)) \<le> copied_out E" "cpumask_zalloc E = None"
    using assms(2) by (simp_all add: e env_ok_def)
  from allowed_ioctl [OF inv e(4) [OF assms(2)] env chk, unfolded ops, OF assms(6)] assms(3)
  show ?thesis by (simp add: e)
qed

lemma unat_cpu: "i < nCPUs \<Longrightarrow> unat (of_nat i :: u16) = i"
  by (simp add: nCPUs_def unat_of_nat)

lemma batch_ok:
  assumes "mperf_listed h G" and "mperf_total L" and "local_view view L" and "visit_ok (\<lambda>c. c \<in> S) visit"
    and "{..<nCPUs} \<subseteq> S" and "nCPUs \<le> n" and "env_ok E"
  obtains z where "measure_batch_latency h G n (\<lambda>c. c \<in> S) L visit E wjunk rjunk vjunk m = Some (z, 0)"
    and "zeroed view {..<nCPUs} m z"
proof -
  let ?chk = "\<lambda>x. x\<lparr>op_err := None, op_wmask := 0xFFFFFFFFFFFFFFFF\<rparr>"
  let ?w = "example_w_ops wjunk" and ?r = "example_r_ops rjunk"
  have len: "length ?w = nCPUs" "length ?r = nCPUs" by (simp_all add: example_w_ops_def example_r_ops_def)
  have w: "\<forall>x \<in> set ?w. op_msr x = MSR_MPERF \<and> cpu_of x < nCPUs \<and> cpu_of x \<in> S"
    and r: "\<forall>x \<in> set ?r. op_msr x = MSR_MPERF \<and> cpu_of x < nCPUs \<and> cpu_of x \<in> S"
    using assms(5) by (auto simp: example_w_ops_def example_r_ops_def unat_cpu)
  have zero: "\<forall>x \<in> set (map ?chk ?w). zero_op x \<and> cpu_of x \<in> S"
    using w by (auto simp: zero_op_def example_w_ops_def)
  obtain z where z: "msr_safe_batch L visit m (map ?chk ?w) = (None, z, map ?chk ?w)"
    "zeroed view (cpu_of ` set (map ?chk ?w)) m z"
    by (rule batch_zero [OF assms(2-4) zero])
  have "cpu_of ` set (map ?chk ?w) = (\<lambda>i. unat (of_nat i :: u16)) ` {0..<nCPUs}"
    by (simp add: example_w_ops_def image_image)
  also have "\<dots> = {..<nCPUs}" by (auto simp: unat_cpu image_iff lessThan_atLeast0)
  finally have m: "zeroed view {..<nCPUs} m z" using z(2) by simp
  have rd: "\<forall>x \<in> set (map ?chk ?r). op_isrdmsr x \<noteq> 0 \<and> cpu_of x \<in> S \<and> rdmsr_safe L (z (cpu_of x)) (op_msr x) \<noteq> None"
    using r assms(2) unfolding mperf_total_def by (auto simp: example_r_ops_def)
  note i1 = example_ioctl [OF assms(1,7) len(1) assms(6) w z(1), where v = vjunk]
  note i2 = example_ioctl [OF assms(1,7) len(2) assms(6) r safe_batch_reads [OF assms(3,4) rd], where v = vjunk]
  have "view (z (cpu_of (?r ! (nCPUs - 1)))) (op_msr (?r ! (nCPUs - 1))) = 0"
  proof -
    have "?r ! (nCPUs - 1) \<in> set ?r" using len(2) by (intro nth_mem) (simp add: nCPUs_def)
    with r m show ?thesis by (auto simp: zeroed_def)
  qed
  moreover have "nCPUs - 1 < length ?r" using len(2) by (simp add: nCPUs_def)
  ultimately have "measure_batch_latency h G n (\<lambda>c. c \<in> S) L visit E wjunk rjunk vjunk m = Some (z, 0)"
    by (simp add: measure_batch_latency_def i1 i2)
  from that [OF this m] show thesis .
qed

section \<open>Property\<close>



end
