(* ===== verification/Msrsave_Parse.thy ===== *)
theory Msrsave_Parse
  imports Klib_Instance
begin

text \<open>
  The allowlist parser of the user space tool, \<open>msr_parse_allowlist\<close> of msrsave/msrsave.c. It
  is another parser than the kernel's: it counts the lines that do not start with a hash
  sign and has \<open>sscanf\<close> read two numbers from each. A pointer into the text is the rest of
  the text. The theory shows that the second loop visits exactly the lines that the first has
  counted, so that it never follows the pointer it computes from a failed \<open>strchr\<close>.
\<close>

section \<open>The two loops\<close>

text \<open>\<open>strchr(p, '\n')\<close> followed by the increment; \<open>None\<close> is the null pointer.\<close>

definition next_line :: "string \<Rightarrow> string option" where
  "next_line s = (case dropWhile (\<lambda>c. c \<noteq> LF) s of [] \<Rightarrow> None | _ # r \<Rightarrow> Some r)"

lemma next_line_shorter: "next_line s = Some r \<Longrightarrow> length r < length s"
  using length_dropWhile_le [of "\<lambda>c. c \<noteq> LF" s] by (auto simp: next_line_def split: list.splits)

text \<open>The loop that counts.\<close>

function count_msr :: "string \<Rightarrow> nat" where
  "count_msr s =
     (case s of
        [] \<Rightarrow> 0
      | c # _ \<Rightarrow> (if c \<noteq> CHR ''#'' then 1 else 0) + (case next_line s of None \<Rightarrow> 0 | Some r \<Rightarrow> count_msr r))"
  by pat_completeness auto
termination
  by (relation "measure length") (auto dest: next_line_shorter)

declare count_msr.simps [simp del]

text \<open>The inner loop over comment lines; \<open>None\<close> is its error exit.\<close>

function skip_comment_lines :: "string \<Rightarrow> string option" where
  "skip_comment_lines s =
     (if s \<noteq> [] \<and> hd s = CHR ''#''
      then (case next_line s of None \<Rightarrow> None | Some r \<Rightarrow> skip_comment_lines r)
      else Some s)"
  by pat_completeness auto
termination
  by (relation "measure length") (auto dest: next_line_shorter)

declare skip_comment_lines.simps [simp del]

text \<open>
  The loop that parses, for \<open>n\<close> more lines. \<open>scan\<close> is \<open>sscanf(p, "%zX %zX\n", &off, &mask)\<close>,
  \<open>None\<close> when it does not return 2. After a failed \<open>strchr\<close> the incremented pointer is not
  null, the test that follows does not see it, and the next turn would read through it:
  \<open>Stray\<close>.
\<close>

datatype 'a scan_result = Parsed 'a | Failed | Stray

type_synonym scanner = "string \<Rightarrow> (u64 \<times> u64) option"

fun parse_lines :: "scanner \<Rightarrow> nat \<Rightarrow> string option \<Rightarrow> (u64 \<times> u64) list scan_result" where
  "parse_lines scan 0 p = Parsed []"
| "parse_lines scan (Suc n) None = Stray"
| "parse_lines scan (Suc n) (Some s) =
     (case skip_comment_lines s of
        None \<Rightarrow> Failed
      | Some s1 \<Rightarrow>
          (case scan s1 of
             None \<Rightarrow> Failed
           | Some entry \<Rightarrow>
               (case parse_lines scan n (next_line s1) of
                  Parsed es \<Rightarrow> Parsed (entry # es)
                | Failed \<Rightarrow> Failed
                | Stray \<Rightarrow> Stray)))"

section \<open>The copy of the allowlist\<close>

text \<open>\<open>err = errno ? errno : -1\<close>\<close>

definition fail_code :: "int \<Rightarrow> int" where
  "fail_code e = (if e \<noteq> 0 then e else - 1)"

text \<open>
  The loop that copies the allowlist into a temporary file, \<open>BUFFER_SIZE\<close> bytes at a time. \<open>rd\<close>
  is a \<open>read\<close> on the open allowlist, with errno, or with the bytes it returns, none at the end,
  and the state of the file afterwards; its \<open>None\<close> is a call that does not return. \<open>wr i\<close> is the
  outcome of the \<open>i\<close>-th \<open>write\<close>: \<open>None\<close> when it takes all bytes, errno when it does not. The
  result is the error of the loop, if any, and the text of the temporary file; the loop may run
  for ever on a file without an end.
\<close>

definition BUFFER_SIZE :: nat where
  "BUFFER_SIZE = 8192"

type_synonym 'f reader = "nat \<Rightarrow> 'f \<Rightarrow> ((int + string) \<times> 'f) option"

partial_function (option) copy_loop ::
  "'f reader \<Rightarrow> (nat \<Rightarrow> int option) \<Rightarrow> nat \<Rightarrow> 'f \<Rightarrow> string \<Rightarrow> (int option \<times> string) option" where
  "copy_loop rd wr i f tmp =
     (case rd BUFFER_SIZE f of
        None \<Rightarrow> None
      | Some (Inl e, f1) \<Rightarrow> Some (Some e, tmp)
      | Some (Inr bytes, f1) \<Rightarrow>
          if bytes = [] then Some (None, tmp)
          else (case wr i of
                  Some e \<Rightarrow> Some (Some e, tmp)
                | None \<Rightarrow> copy_loop rd wr (Suc i) f1 (tmp @ bytes)))"

section \<open>\<open>msr_parse_allowlist\<close>\<close>

text \<open>
  The outcome of the system calls and allocations in the order they are made: \<open>None\<close> is
  success, \<open>Some e\<close> a failure with the value \<open>e\<close> of errno (the copy loop and the final read
  may also come up short with errno 0). \<open>p_errno\<close> is errno when the size is looked at.
\<close>

record parse_os =
  p_mkstemp :: "int option"
  p_open :: "int option"
  p_copy :: "int option"
  p_close_tmp :: "int option"
  p_close_allowlist :: "int option"
  p_stat :: "int option"
  p_errno :: int
  p_malloc :: "int option"
  p_open_tmp :: "int option"
  p_read_tmp :: "int option"
  p_close :: "int option"
  p_malloc_offset :: "int option"
  p_malloc_mask :: "int option"

fun first_failure :: "int option list \<Rightarrow> int option" where
  "first_failure [] = None"
| "first_failure (None # os) = first_failure os"
| "first_failure (Some e # os) = Some (fail_code e)"

text \<open>
  The result is the non-zero error code or the arrays \<open>msr_offset\<close> and \<open>msr_mask\<close>; \<open>None\<close> is a
  read through the stray pointer. \<open>content\<close> is the file's content.
\<close>

definition msr_parse_allowlist :: "parse_os \<Rightarrow> scanner \<Rightarrow> string \<Rightarrow> (int + (u64 \<times> u64) list) option" where
  "msr_parse_allowlist os scan content =
     (case first_failure [p_mkstemp os, p_open os, p_copy os, p_close_tmp os, p_close_allowlist os, p_stat os] of
        Some err \<Rightarrow> Some (Inl err)
      | None \<Rightarrow>
          if content = [] then Some (Inl (fail_code (p_errno os)))
          else case first_failure [p_malloc os, p_open_tmp os, p_read_tmp os, p_close os] of
            Some err \<Rightarrow> Some (Inl err)
          | None \<Rightarrow>
              let allowlist_buffer = cstr content 0; num_msr = count_msr allowlist_buffer
              in case first_failure [p_malloc_offset os, p_malloc_mask os] of
                   Some err \<Rightarrow> Some (Inl err)
                 | None \<Rightarrow>
                     (case parse_lines scan num_msr (Some allowlist_buffer) of
                        Parsed es \<Rightarrow> Some (Inr es)
                      | Failed \<Rightarrow> Some (Inl (- 1))
                      | Stray \<Rightarrow> None))"

text \<open>The function on a file: the text that it parses is what the copy loop has written.\<close>

definition msr_parse_file :: "parse_os \<Rightarrow> scanner \<Rightarrow> 'f reader \<Rightarrow> (nat \<Rightarrow> int option) \<Rightarrow> 'f
    \<Rightarrow> (int + (u64 \<times> u64) list) option" where
  "msr_parse_file os scan rd wr f =
     (case first_failure [p_mkstemp os, p_open os] of
        Some err \<Rightarrow> Some (Inl err)
      | None \<Rightarrow>
          (case copy_loop rd wr 0 f [] of
             None \<Rightarrow> None
           | Some (e, tmp) \<Rightarrow> msr_parse_allowlist (os\<lparr>p_copy := e\<rparr>) scan tmp))"

section \<open>The lines that are visited\<close>

text \<open>The rests of the text that start at a line without a hash sign at its front.\<close>

function msr_lines :: "string \<Rightarrow> string list" where
  "msr_lines s =
     (case s of
        [] \<Rightarrow> []
      | c # _ \<Rightarrow> (if c \<noteq> CHR ''#'' then [s] else []) @ (case next_line s of None \<Rightarrow> [] | Some r \<Rightarrow> msr_lines r))"
  by pat_completeness auto
termination
  by (relation "measure length") (auto dest: next_line_shorter)

declare msr_lines.simps [simp del]

lemma count_msr_lines: "count_msr s = length (msr_lines s)"
proof (induction s rule: msr_lines.induct)
  case (1 s)
  then show ?case
    by (subst count_msr.simps, subst msr_lines.simps) (auto split: list.splits option.splits)
qed

lemma skip_hash:
  "skip_comment_lines (CHR ''#'' # t) =
     (case next_line (CHR ''#'' # t) of None \<Rightarrow> None | Some r \<Rightarrow> skip_comment_lines r)"
  "msr_lines (CHR ''#'' # t) = (case next_line (CHR ''#'' # t) of None \<Rightarrow> [] | Some r \<Rightarrow> msr_lines r)"
  by (simp_all add: skip_comment_lines.simps [of "CHR ''#'' # t"] msr_lines.simps [of "CHR ''#'' # t"])

lemma skip_no_hash: "s = [] \<or> hd s \<noteq> CHR ''#'' \<Longrightarrow> skip_comment_lines s = Some s"
  by (subst skip_comment_lines.simps) auto

lemma skip_comment_lines_None: "skip_comment_lines s = None \<Longrightarrow> msr_lines s = []"
proof (induction s rule: skip_comment_lines.induct)
  case (1 s)
  then have "s \<noteq> [] \<and> hd s = CHR ''#''" using skip_no_hash [of s] by auto
  moreover from this obtain t where "s = CHR ''#'' # t" by (cases s) auto
  ultimately show ?case using 1 by (auto simp: skip_hash split: option.splits)
qed

lemma skip_comment_lines_Some:
  "skip_comment_lines s = Some s1 \<Longrightarrow>
     msr_lines s = (if s1 = [] then [] else s1 # (case next_line s1 of None \<Rightarrow> [] | Some r \<Rightarrow> msr_lines r))"
proof (induction s rule: skip_comment_lines.induct)
  case (1 s)
  show ?case
  proof (cases "s \<noteq> [] \<and> hd s = CHR ''#''")
    case True
    then obtain t where s: "s = CHR ''#'' # t" by (cases s) auto
    then obtain r where r: "next_line s = Some r" "skip_comment_lines r = Some s1"
      using 1(2) by (auto simp: skip_hash split: option.splits)
    then have "msr_lines s = msr_lines r" by (simp add: s skip_hash)
    with 1(1) [OF True r] show ?thesis by simp
  next
    case False
    with 1(2) skip_no_hash [of s] have "s1 = s" by auto
    with False show ?thesis by (subst msr_lines.simps) (auto split: list.splits)
  qed
qed

text \<open>The two loops together: each counted line is scanned once, in order.\<close>

fun scan_all :: "scanner \<Rightarrow> string list \<Rightarrow> (u64 \<times> u64) list scan_result" where
  "scan_all scan [] = Parsed []"
| "scan_all scan (l # ls) =
     (case scan l of
        None \<Rightarrow> Failed
      | Some e \<Rightarrow> (case scan_all scan ls of Parsed es \<Rightarrow> Parsed (e # es) | Failed \<Rightarrow> Failed | Stray \<Rightarrow> Stray))"

lemma scan_all_no_stray [simp]: "scan_all scan ls \<noteq> Stray"
  by (induction ls) (auto split: option.splits scan_result.splits)

lemma parse_lines_scan_all:
  "parse_lines scan (length (case p of None \<Rightarrow> [] | Some s \<Rightarrow> msr_lines s)) p
     = scan_all scan (case p of None \<Rightarrow> [] | Some s \<Rightarrow> msr_lines s)"
proof (induction "length (case p of None \<Rightarrow> [] | Some s \<Rightarrow> msr_lines s)" arbitrary: p)
  case 0
  then show ?case by (metis parse_lines.simps(1) length_0_conv scan_all.simps(1))
next
  case (Suc n)
  then obtain s where p: "p = Some s" by (cases p) auto
  obtain s1 where s1: "skip_comment_lines s = Some s1"
    using Suc(2) p skip_comment_lines_None [of s] by (cases "skip_comment_lines s") auto
  note ml = skip_comment_lines_Some [OF s1]
  then have ml': "msr_lines s = s1 # (case next_line s1 of None \<Rightarrow> [] | Some r \<Rightarrow> msr_lines r)"
    using Suc(2) p by (simp split: if_splits)
  then have n: "n = length (case next_line s1 of None \<Rightarrow> [] | Some r \<Rightarrow> msr_lines r)"
    using Suc(2) p by simp
  from Suc(1) [OF n] n s1 ml' p show ?case by (auto split: option.splits)
qed

lemma parse_lines_spec: "parse_lines scan (count_msr s) (Some s) = scan_all scan (msr_lines s)"
  using parse_lines_scan_all [of scan "Some s"] by (simp add: count_msr_lines)

lemma scan_all_eq:
  "scan_all scan ls = (if \<exists>l \<in> set ls. scan l = None then Failed else Parsed (map (the \<circ> scan) ls))"
proof (induction ls)
  case Nil
  then show ?case by simp
next
  case (Cons l ls)
  then show ?case by (cases "scan l") (simp_all del: not_None_eq)
qed

lemma scan_all_Parsed: "scan_all scan ls = Parsed es \<longleftrightarrow> (\<forall>l \<in> set ls. scan l \<noteq> None) \<and> es = map (the \<circ> scan) ls"
  by (auto simp: scan_all_eq simp del: not_None_eq)

lemma scan_all_Failed: "scan_all scan ls = Failed \<longleftrightarrow> (\<exists>l \<in> set ls. scan l = None)"
  by (simp add: scan_all_eq)

lemma parse_defined: "\<exists>r. msr_parse_allowlist os scan content = Some r"
  by (auto simp: msr_parse_allowlist_def Let_def parse_lines_spec split: option.splits scan_result.splits)

lemma first_failure_nonzero: "first_failure os = Some e \<Longrightarrow> e \<noteq> 0"
  by (induction os rule: first_failure.induct) (auto simp: fail_code_def split: if_splits)

definition parse_ok :: parse_os where
  "parse_ok = \<lparr>p_mkstemp = None, p_open = None, p_copy = None, p_close_tmp = None, p_close_allowlist = None,
     p_stat = None, p_errno = 0, p_malloc = None, p_open_tmp = None, p_read_tmp = None, p_close = None,
     p_malloc_offset = None, p_malloc_mask = None\<rparr>"

lemma parse_ok_result:
  assumes "content \<noteq> []"
  shows "msr_parse_allowlist parse_ok scan content =
    (case scan_all scan (msr_lines (cstr content 0)) of
       Parsed es \<Rightarrow> Some (Inr es) | Failed \<Rightarrow> Some (Inl (- 1)) | Stray \<Rightarrow> None)"
  using assms by (simp add: msr_parse_allowlist_def parse_ok_def Let_def parse_lines_spec)

text \<open>A text that ends with an empty line has a last line of its own.\<close>

lemma next_line_append:
  "next_line (s @ [LF, LF]) = Some (case next_line s of Some r \<Rightarrow> r @ [LF, LF] | None \<Rightarrow> [LF])"
proof (induction s)
  case Nil
  then show ?case by (simp add: next_line_def)
next
  case (Cons c s)
  then show ?case by (auto simp: next_line_def)
qed

lemma msr_lines_blank_end: "[LF] \<in> set (msr_lines (s @ [LF, LF]))"
proof (induction s rule: length_induct)
  case (1 s)
  have base: "msr_lines [LF] = [[LF]]"
    by (simp add: msr_lines.simps [of "[LF]"] next_line_def msr_lines.simps [of "[]"])
  have "set (msr_lines (case next_line s of Some r \<Rightarrow> r @ [LF, LF] | None \<Rightarrow> [LF])) \<subseteq> set (msr_lines (s @ [LF, LF]))"
    unfolding msr_lines.simps [of "s @ [LF, LF]"] next_line_append by (cases s) auto
  moreover have "[LF] \<in> set (msr_lines (case next_line s of Some r \<Rightarrow> r @ [LF, LF] | None \<Rightarrow> [LF]))"
    using 1 by (auto simp: base dest: next_line_shorter split: option.splits)
  ultimately show ?case by blast
qed

section \<open>Properties\<close>

text \<open>A concrete reading of two hexadecimal numbers, for the witnesses.\<close>

definition scan_number :: "string \<Rightarrow> (u64 \<times> string) option" where
  "scan_number s =
     (let s1 = dropWhile ascii_space s;
          s2 = (if take 2 s1 = ''0x'' \<or> take 2 s1 = ''0X'' then drop 2 s1 else s1);
          ds = takeWhile (\<lambda>c. digit_val c < 16) s2
      in case (if ds = [] then None else digits_val 16 0 ds) of
           None \<Rightarrow> None
         | Some n \<Rightarrow> Some (of_nat (min n (2 ^ 64 - 1)), dropWhile (\<lambda>c. digit_val c < 16) s2))"

definition linux_scan :: scanner where
  "linux_scan s =
     (case scan_number s of
        None \<Rightarrow> None
      | Some (a, r) \<Rightarrow> (case scan_number r of None \<Rightarrow> None | Some (b, _) \<Rightarrow> Some (a, b)))"

lemmas scan_eval = linux_scan_def scan_number_def Let_def digit_val_def



text \<open>
  The two parsers of an allowlist disagree on empty lines. If the scanner finds no
  number in an empty line at the end of the text, as the C library documents, msrsave refuses
  every text with an empty last line; the kernel's parser skips empty lines.
\<close>

theorem blank_last_line_refused:
  assumes "scan [LF] = None" and "NUL \<notin> set t"
  shows "msr_parse_allowlist parse_ok scan (t @ [LF, LF]) = Some (Inl (- 1))"
proof -
  have "cstr (t @ [LF, LF]) 0 = t @ [LF, LF]"
    using assms(2) by (auto simp: cstr_def takeWhile_eq_all_conv)
  moreover have "scan_all scan (msr_lines (t @ [LF, LF])) = Failed"
    unfolding scan_all_Failed using msr_lines_blank_end [of t] assms(1) by blast
  ultimately show ?thesis by (subst parse_ok_result) simp_all
qed

theorem blank_last_line_refused_witness:
  "msr_parse_allowlist parse_ok linux_scan (''0x10 0xFF'' @ [LF, LF]) = Some (Inl (- 1))
    \<and> spec_parse linux_klib (''0x10 0xFF'' @ [LF, LF]) = Inr [\<lparr>e_wmask = 0xFF, e_msr = 0x10\<rparr>]"
proof -
  have "linux_scan [LF] = None" by (simp add: scan_eval)
  from blank_last_line_refused [where scan = linux_scan and t = "''0x10 0xFF''", OF this] show ?thesis by (simp add: klib_eval)
qed

end
