(* ===== verification/Msrsave.thy ===== *)
theory Msrsave
  imports Msrsave_Parse Msr_Entry
begin

text \<open>
  The user space tool of msrsave/msrsave.c: \<open>is_good_value\<close>, \<open>msr_save\<close>, which stores the
  masked value of every listed register of every CPU, and \<open>msr_restore\<close>, which puts the
  stored bits back. The MSR files are a parameter with a contract, the locale
  \<open>register_file\<close>, under which the round trip and the frame of a restore are proved; the
  per-CPU device of the kernel module is an instance of it.
\<close>

section \<open>Values in a save file\<close>

definition G_COOKIE_BAD_READ :: u64 where
  "G_COOKIE_BAD_READ = 0xFB6A58813AEA28CF"

definition is_good_value :: "u64 \<Rightarrow> u64 \<Rightarrow> bool" where
  "is_good_value write_val msk =
     (if NOT msk \<noteq> 0 then write_val = (msk AND write_val) else write_val \<noteq> G_COOKIE_BAD_READ)"

text \<open>
  The MSR file of a CPU: \<open>open\<close> and \<open>close\<close> with the errno of a failure, \<open>pread\<close> and \<open>pwrite\<close>
  of eight bytes at an offset, \<open>None\<close> when another count comes back.
\<close>

record 'm msr_io =
  io_open :: "'m \<Rightarrow> nat \<Rightarrow> int option"
  io_pread :: "'m \<Rightarrow> nat \<Rightarrow> u64 \<Rightarrow> u64 option"
  io_pwrite :: "'m \<Rightarrow> nat \<Rightarrow> u64 \<Rightarrow> u64 \<Rightarrow> 'm option"
  io_close :: "'m \<Rightarrow> nat \<Rightarrow> int option"

section \<open>\<open>msr_save\<close>\<close>

text \<open>The body of the inner loop: what goes into the buffer, or the error of the collision.\<close>

definition save_value :: "'m msr_io \<Rightarrow> 'm \<Rightarrow> nat \<Rightarrow> u64 \<times> u64 \<Rightarrow> int + u64" where
  "save_value io m cpu e =
     (case e of (offset, msk) \<Rightarrow>
        case io_pread io m cpu offset of
          None \<Rightarrow> Inr (if NOT msk \<noteq> 0 then NOT msk else G_COOKIE_BAD_READ)
        | Some v \<Rightarrow>
            let w = v AND msk
            in if NOT msk = 0 \<and> w = G_COOKIE_BAD_READ then Inl (- 1) else Inr w)"

fun save_msrs :: "'m msr_io \<Rightarrow> 'm \<Rightarrow> nat \<Rightarrow> (u64 \<times> u64) list \<Rightarrow> int + u64 list" where
  "save_msrs io m cpu [] = Inr []"
| "save_msrs io m cpu (e # es) =
     (case save_value io m cpu e of
        Inl err \<Rightarrow> Inl err
      | Inr w \<Rightarrow> (case save_msrs io m cpu es of Inl err \<Rightarrow> Inl err | Inr ws \<Rightarrow> Inr (w # ws)))"

text \<open>The loop over the CPUs; the rows of the buffer follow one another.\<close>

fun save_cpus :: "'m msr_io \<Rightarrow> 'm \<Rightarrow> (u64 \<times> u64) list \<Rightarrow> nat list \<Rightarrow> int + u64 list" where
  "save_cpus io m es [] = Inr []"
| "save_cpus io m es (c # cs) =
     (case io_open io m c of
        Some e \<Rightarrow> Inl (fail_code e)
      | None \<Rightarrow>
          (case save_msrs io m c es of
             Inl err \<Rightarrow> Inl err
           | Inr row \<Rightarrow>
               (case io_close io m c of
                  Some e \<Rightarrow> Inl (fail_code e)
                | None \<Rightarrow>
                    (case save_cpus io m es cs of Inl err \<Rightarrow> Inl err | Inr buf \<Rightarrow> Inr (row @ buf)))))"

text \<open>
  Outcomes of the allocation and of the calls on the save file; \<open>s_written\<close> is the number of
  values that \<open>fwrite\<close> writes before it fails, \<open>s_errno\<close> errno then.
\<close>

record save_os =
  s_malloc :: "int option"
  s_fopen :: "int option"
  s_written :: nat
  s_errno :: int
  s_fclose :: "int option"

text \<open>The function after the allowlist has been parsed: the return value and the save file.\<close>

definition save_state :: "save_os \<Rightarrow> 'm msr_io \<Rightarrow> 'm \<Rightarrow> nat \<Rightarrow> (u64 \<times> u64) list \<Rightarrow> int \<times> u64 list option" where
  "save_state os io m num_cpu es =
     (case s_malloc os of
        Some e \<Rightarrow> (fail_code e, None)
      | None \<Rightarrow>
     (case save_cpus io m es [0..<num_cpu] of
        Inl err \<Rightarrow> (err, None)
      | Inr save_buffer \<Rightarrow>
     (case s_fopen os of
        Some e \<Rightarrow> (fail_code e, None)
      | None \<Rightarrow>
          if s_written os < length save_buffer
          then (fail_code (s_errno os), Some (take (s_written os) save_buffer))
          else (case s_fclose os of
                  Some e \<Rightarrow> (fail_code e, Some save_buffer)
                | None \<Rightarrow> (0, Some save_buffer)))))"

definition msr_save :: "parse_os \<Rightarrow> scanner \<Rightarrow> string \<Rightarrow> save_os \<Rightarrow> 'm msr_io \<Rightarrow> 'm \<Rightarrow> nat
    \<Rightarrow> (int \<times> u64 list option) option" where
  "msr_save pos scan content os io m num_cpu =
     (case msr_parse_allowlist pos scan content of
        None \<Rightarrow> None
      | Some (Inl err) \<Rightarrow> Some (err, None)
      | Some (Inr es) \<Rightarrow> Some (save_state os io m num_cpu es))"

section \<open>\<open>msr_restore\<close>\<close>

text \<open>A line of the output log.\<close>

datatype out_line = Header | Restored u64 u64 u64

fun out_text :: "out_line \<Rightarrow> string" where
  "out_text Header = ''offset, read, restored'' @ [LF]"
| "out_text (Restored offset read_val write_val) =
     ''0x'' @ sprintf_0X 16 offset @ '', 0x'' @ sprintf_0X 16 read_val @ '', 0x'' @ sprintf_0X 16 write_val @ [LF]"

record 'm restore_state =
  rs_machine :: 'm
  rs_print_header :: bool
  rs_output :: "out_line list"

text \<open>The body of the inner loop.\<close>

definition restore_one :: "'m msr_io \<Rightarrow> nat \<Rightarrow> u64 \<times> u64 \<Rightarrow> u64 \<Rightarrow> 'm restore_state \<Rightarrow> 'm restore_state" where
  "restore_one io cpu e write_val st =
     (case e of (offset, msk) \<Rightarrow>
        if \<not> is_good_value write_val msk then st
        else case io_pread io (rs_machine st) cpu offset of
               None \<Rightarrow> st
             | Some read_val \<Rightarrow>
                 let masked_val = read_val AND msk
                 in if write_val = masked_val then st
                    else let write_val1 = write_val OR (read_val AND NOT msk)
                         in case io_pwrite io (rs_machine st) cpu offset write_val1 of
                              None \<Rightarrow> st
                            | Some m' \<Rightarrow>
                                st\<lparr>rs_machine := m', rs_print_header := False,
                                   rs_output := rs_output st @ (if rs_print_header st then [Header] else [])
                                     @ [Restored offset read_val write_val1]\<rparr>)"

fun restore_msrs :: "'m msr_io \<Rightarrow> nat \<Rightarrow> (u64 \<times> u64) list \<Rightarrow> u64 list \<Rightarrow> 'm restore_state \<Rightarrow> 'm restore_state" where
  "restore_msrs io cpu (e # es) (w # ws) st = restore_msrs io cpu es ws (restore_one io cpu e w st)"
| "restore_msrs io cpu _ _ st = st"

text \<open>The loop over the CPUs; \<open>buf\<close> is the rest of the buffer, from the row of the first CPU on.\<close>

fun restore_cpus :: "'m msr_io \<Rightarrow> (u64 \<times> u64) list \<Rightarrow> u64 list \<Rightarrow> nat list \<Rightarrow> 'm restore_state
    \<Rightarrow> int \<times> 'm restore_state" where
  "restore_cpus io es buf [] st = (0, st)"
| "restore_cpus io es buf (c # cs) st =
     (case io_open io (rs_machine st) c of
        Some e \<Rightarrow> (fail_code e, st)
      | None \<Rightarrow>
          let st1 = restore_msrs io c es (take (length es) buf) st
          in case io_close io (rs_machine st1) c of
               Some e \<Rightarrow> (fail_code e, st1)
             | None \<Rightarrow> restore_cpus io es (drop (length es) buf) cs st1)"

text \<open>
  Outcomes of the calls before the first MSR file is opened, and the two time stamps;
  \<open>r_errno\<close> is errno when the file has another length than the buffer.
\<close>

record restore_os =
  r_stat_restore :: "int option"
  r_stat_allowlist :: "int option"
  restore_mtime :: int
  allowlist_mtime :: int
  r_malloc :: "int option"
  r_fopen :: "int option"
  r_errno :: int
  r_fclose :: "int option"

definition restore_start :: "'m \<Rightarrow> 'm restore_state" where
  "restore_start m = \<lparr>rs_machine = m, rs_print_header = True, rs_output = []\<rparr>"

definition restore_saved :: "restore_os \<Rightarrow> 'm msr_io \<Rightarrow> 'm \<Rightarrow> nat \<Rightarrow> (u64 \<times> u64) list \<Rightarrow> u64 list
    \<Rightarrow> int \<times> 'm restore_state" where
  "restore_saved os io m num_cpu es restore_file =
     (let st = restore_start m
      in case first_failure [r_stat_restore os, r_stat_allowlist os] of
           Some err \<Rightarrow> (err, st)
         | None \<Rightarrow>
             if restore_mtime os < allowlist_mtime os then (- 1, st)
             else case first_failure [r_malloc os, r_fopen os] of
               Some err \<Rightarrow> (err, st)
             | None \<Rightarrow>
                 if length restore_file \<noteq> length es * num_cpu then (fail_code (r_errno os), st)
                 else case r_fclose os of
                        Some e \<Rightarrow> (fail_code e, st)
                      | None \<Rightarrow> restore_cpus io es restore_file [0..<num_cpu] st)"

definition msr_restore :: "parse_os \<Rightarrow> scanner \<Rightarrow> string \<Rightarrow> restore_os \<Rightarrow> 'm msr_io \<Rightarrow> 'm \<Rightarrow> nat \<Rightarrow> u64 list
    \<Rightarrow> (int \<times> 'm restore_state) option" where
  "msr_restore pos scan content os io m num_cpu restore_file =
     (case msr_parse_allowlist pos scan content of
        None \<Rightarrow> None
      | Some (Inl err) \<Rightarrow> Some (err, restore_start m)
      | Some (Inr es) \<Rightarrow> Some (restore_saved os io m num_cpu es restore_file))"

section \<open>Good values and bad reads\<close>

lemma good_value_subset: "is_good_value w msk \<Longrightarrow> w AND msk = w"
proof (cases "NOT msk = 0")
  case True
  then have "msk = NOT 0" by (metis bit.double_compl)
  then show ?thesis by simp
next
  case False
  moreover assume "is_good_value w msk"
  ultimately show ?thesis by (simp add: is_good_value_def and.commute)
qed

text \<open>A value in a save file says whether the register could be read.\<close>

lemma saved_value:
  assumes "save_value io m cpu (offset, msk) = Inr w"
  shows "is_good_value w msk \<longleftrightarrow> io_pread io m cpu offset \<noteq> None"
    and "io_pread io m cpu offset = Some v \<Longrightarrow> w = v AND msk"
proof -
  show "is_good_value w msk \<longleftrightarrow> io_pread io m cpu offset \<noteq> None"
  proof (cases "NOT msk = 0")
    case True
    with assms show ?thesis
      by (auto simp: save_value_def is_good_value_def Let_def split: option.splits if_splits)
  next
    case False
    have "NOT msk \<noteq> msk AND NOT msk" using False by simp
    moreover have "v AND msk = msk AND (v AND msk)" for v :: u64
      by (simp add: and.left_commute and.commute)
    ultimately show ?thesis using assms False
      by (auto simp: save_value_def is_good_value_def Let_def split: option.splits)
  qed
  show "w = v AND msk" if "io_pread io m cpu offset = Some v"
    using assms that by (auto simp: save_value_def Let_def split: if_splits)
qed

lemma save_msrs_all2:
  "save_msrs io m cpu es = Inr ws \<Longrightarrow> list_all2 (\<lambda>e w. save_value io m cpu e = Inr w) es ws"
  by (induction es arbitrary: ws) (auto split: sum.splits)

lemma save_msrs_length: "save_msrs io m cpu es = Inr ws \<Longrightarrow> length ws = length es"
  by (drule save_msrs_all2) (simp add: list_all2_lengthD)

text \<open>The rows of a buffer, each matched against the entries of the allowlist.\<close>

fun rows_match :: "(nat \<Rightarrow> u64 \<times> u64 \<Rightarrow> u64 \<Rightarrow> bool) \<Rightarrow> (u64 \<times> u64) list \<Rightarrow> u64 list \<Rightarrow> nat list \<Rightarrow> bool" where
  "rows_match R es buf [] = True"
| "rows_match R es buf (c # cs) \<longleftrightarrow>
     list_all2 (R c) es (take (length es) buf) \<and> rows_match R es (drop (length es) buf) cs"

lemma save_cpus_rows:
  "save_cpus io m es cs = Inr buf \<Longrightarrow> rows_match (\<lambda>c e w. save_value io m c e = Inr w) es buf cs"
proof (induction cs arbitrary: buf)
  case Nil
  then show ?case by simp
next
  case (Cons c cs)
  then obtain row buf' where r: "save_msrs io m c es = Inr row" "save_cpus io m es cs = Inr buf'"
    "buf = row @ buf'"
    by (auto split: option.splits sum.splits)
  with Cons.IH save_msrs_length [OF r(1)] save_msrs_all2 [OF r(1)] show ?case by simp
qed

lemma save_cpus_length: "save_cpus io m es cs = Inr buf \<Longrightarrow> length buf = length es * length cs"
  by (induction cs arbitrary: buf) (auto simp: save_msrs_length split: option.splits sum.splits)

lemma rows_match_any: "length buf = length es * length cs \<Longrightarrow> rows_match (\<lambda>_ _ _. True) es buf cs"
  by (induction cs arbitrary: buf) (auto simp: list_all2_conv_all_nth)

text \<open>
  How a bit can change in a restore, where \<open>R\<close> relates the entries to the values of the file;
  and an entry whose accesses on a CPU never fail and whose mask the file lets its user write.
  \<open>reg\<close> is the register an offset stands for, \<open>wm\<close> the bits the file lets its user write.
\<close>

definition moved :: "(u64 \<Rightarrow> 'r) \<Rightarrow> ('r \<Rightarrow> u64) \<Rightarrow> (nat \<Rightarrow> u64 \<times> u64 \<Rightarrow> u64 \<Rightarrow> bool) \<Rightarrow> (u64 \<times> u64) list
    \<Rightarrow> nat set \<Rightarrow> nat \<Rightarrow> 'r \<Rightarrow> nat \<Rightarrow> bool \<Rightarrow> bool"
where
  "moved reg wm R es C c r k b \<longleftrightarrow> c \<in> C \<and> (\<exists>off msk w. (off, msk) \<in> set es \<and> R c (off, msk) w \<and> r = reg off
     \<and> bit msk k \<and> bit (wm r) k \<and> is_good_value w msk \<and> b = bit w k)"

definition accessible :: "(u64 \<Rightarrow> 'r) \<Rightarrow> ('r \<Rightarrow> u64) \<Rightarrow> 'm msr_io \<Rightarrow> nat \<Rightarrow> u64 \<Rightarrow> u64 \<Rightarrow> bool" where
  "accessible reg wm io c off msk \<longleftrightarrow> msk AND NOT (wm (reg off)) = 0 \<and>
     (\<forall>m. io_pread io m c off \<noteq> None) \<and> (\<forall>m v. io_pwrite io m c off v \<noteq> None)"

section \<open>The contract of an MSR file\<close>

text \<open>
  What the tool relies on: a successful \<open>pread\<close> returns the register that the offset stands
  for, a successful \<open>pwrite\<close> changes the bits of that register that the file lets its user
  write, and nothing else. \<open>ok\<close> stands for the conditions under which the file behaves so.
\<close>

locale register_file =
  fixes ok :: bool
    and view :: "'m \<Rightarrow> nat \<Rightarrow> 'r \<Rightarrow> u64"
    and reg :: "u64 \<Rightarrow> 'r"
    and wm :: "'r \<Rightarrow> u64"
    and io :: "'m msr_io"
  assumes pread_view: "\<lbrakk>ok; io_pread io m c off = Some v\<rbrakk> \<Longrightarrow> v = view m c (reg off)"
    and pwrite_view: "\<lbrakk>ok; io_pwrite io m c off v = Some m'\<rbrakk> \<Longrightarrow>
      view m' = (view m)(c := (view m c)(reg off := merge_bits (wm (reg off)) (view m c (reg off)) v))"
begin

lemma restore_one_view:
  assumes "ok"
  shows "view (rs_machine (restore_one io c (off, msk) w st)) = view (rs_machine st)
    \<or> is_good_value w msk \<and> view (rs_machine (restore_one io c (off, msk) w st)) =
        (view (rs_machine st))(c := (view (rs_machine st) c)(reg off :=
          merge_bits (wm (reg off) AND msk) (view (rs_machine st) c (reg off)) w))"
proof (cases "\<exists>v m'. is_good_value w msk \<and> io_pread io (rs_machine st) c off = Some v \<and> w \<noteq> v AND msk
    \<and> io_pwrite io (rs_machine st) c off (w OR (v AND NOT msk)) = Some m'")
  case False
  then have "restore_one io c (off, msk) w st = st"
    by (auto simp: restore_one_def Let_def split: option.splits)
  then show ?thesis by simp
next
  case True
  then obtain v m' where v: "is_good_value w msk" "io_pread io (rs_machine st) c off = Some v"
    "w \<noteq> v AND msk" "io_pwrite io (rs_machine st) c off (w OR (v AND NOT msk)) = Some m'" by blast
  define old where "old = view (rs_machine st) c (reg off)"
  have old: "v = old" using pread_view [OF assms v(2)] by (simp add: old_def)
  have "merge_bits (wm (reg off)) old (w OR (old AND NOT msk)) = merge_bits (wm (reg off) AND msk) old w"
  proof (rule bit_word_eqI)
    fix k assume k: "k < LENGTH(64)"
    have "bit w k \<Longrightarrow> bit msk k" using good_value_subset [OF v(1)] by (metis bit_and_iff)
    with k show "bit (merge_bits (wm (reg off)) old (w OR (old AND NOT msk))) k
        = bit (merge_bits (wm (reg off) AND msk) old w) k"
      by (auto simp: bit_merge_bits bit_simps split: if_splits)
  qed
  with pwrite_view [OF assms v(4)] v old show ?thesis
    by (simp add: restore_one_def Let_def old_def)
qed

text \<open>A bit changes only under the entry's mask, and then to the bit in the file.\<close>

lemma restore_one_bit:
  assumes "ok" and "k < 64"
  shows "bit (view (rs_machine (restore_one io c (off, msk) w st)) c' r) k = bit (view (rs_machine st) c' r) k
    \<or> c' = c \<and> r = reg off \<and> bit msk k \<and> bit (wm r) k \<and> is_good_value w msk
      \<and> bit (view (rs_machine (restore_one io c (off, msk) w st)) c' r) k = bit w k"
  using restore_one_view [OF assms(1), of c off msk w st] assms(2)
  by (cases "c' = c"; cases "r = reg off") (auto simp: bit_merge_bits bit_simps split: if_splits)

lemma restore_msrs_bit:
  assumes "ok" and "k < 64" and "list_all2 (R c) es ws"
  shows "bit (view (rs_machine (restore_msrs io c es ws st)) c' r) k = bit (view (rs_machine st) c' r) k
    \<or> moved reg wm R es {c} c' r k (bit (view (rs_machine (restore_msrs io c es ws st)) c' r) k)"
  using assms(3)
proof (induction arbitrary: st rule: list_all2_induct)
  case Nil
  then show ?case by simp
next
  case (Cons e es w ws)
  obtain off msk where e: "e = (off, msk)" by (cases e)
  show ?case
    using Cons.IH [of "restore_one io c e w st"] restore_one_bit [OF assms(1,2), of c off msk w st c' r] Cons.hyps(1)
    by (auto simp: e moved_def)
qed

lemma restore_cpus_bit:
  assumes "ok" and "k < 64" and "rows_match R es buf cs" and "restore_cpus io es buf cs st = (err, st')"
  shows "bit (view (rs_machine st') c' r) k = bit (view (rs_machine st) c' r) k
    \<or> moved reg wm R es (set cs) c' r k (bit (view (rs_machine st') c' r) k)"
  using assms(3,4)
proof (induction cs arbitrary: buf st)
  case Nil
  then show ?case by simp
next
  case (Cons c cs)
  show ?case
  proof (cases "io_open io (rs_machine st) c")
    case (Some e)
    with Cons.prems show ?thesis by simp
  next
    case None
    define st1 where "st1 = restore_msrs io c es (take (length es) buf) st"
    have 1: "bit (view (rs_machine st1) c' r) k = bit (view (rs_machine st) c' r) k
        \<or> moved reg wm R es {c} c' r k (bit (view (rs_machine st1) c' r) k)"
      unfolding st1_def using Cons.prems(1) by (intro restore_msrs_bit [OF assms(1,2)]) simp
    show ?thesis
    proof (cases "io_close io (rs_machine st1) c")
      case (Some e)
      with Cons.prems None have "st' = st1" by (simp add: st1_def Let_def)
      with 1 show ?thesis by (auto simp: moved_def)
    next
      case n2: None
      with Cons.prems None have "restore_cpus io es (drop (length es) buf) cs st1 = (err, st')"
        by (simp add: st1_def Let_def)
      from Cons.IH [OF _ this] Cons.prems(1) 1 show ?thesis by (auto simp: moved_def)
    qed
  qed
qed

text \<open>
  Restoring what was saved from the machine \<open>m0\<close>: a bit that moves gets the value it had in
  \<open>m0\<close>, so a bit that has it keeps it.
\<close>

lemma moved_saved:
  assumes "ok" and "k < 64" and "moved reg wm (\<lambda>c e w. save_value io m0 c e = Inr w) es C c r k b"
  shows "b = bit (view m0 c r) k"
proof -
  from assms(3) obtain off msk w where w: "save_value io m0 c (off, msk) = Inr w" "r = reg off" "bit msk k"
    "is_good_value w msk" "b = bit w k" by (auto simp: moved_def)
  from saved_value(1) [OF w(1)] w(4) obtain v where v: "io_pread io m0 c off = Some v" by auto
  from saved_value(2) [OF w(1) v] pread_view [OF assms(1) v] w show ?thesis
    by (simp add: bit_simps)
qed

lemma restore_msrs_keeps:
  assumes "ok" and "k < 64" and "list_all2 (\<lambda>e w. save_value io m0 c e = Inr w) es ws"
    and "bit (view (rs_machine st) c' r) k = bit (view m0 c' r) k"
  shows "bit (view (rs_machine (restore_msrs io c es ws st)) c' r) k = bit (view m0 c' r) k"
  using restore_msrs_bit [OF assms(1,2), of "\<lambda>c e w. save_value io m0 c e = Inr w" c es ws st c' r] assms(3,4)
    moved_saved [OF assms(1,2), of m0 es "{c}" c' r] by blast

lemma restore_cpus_keeps:
  assumes "ok" and "k < 64" and "rows_match (\<lambda>c e w. save_value io m0 c e = Inr w) es buf cs"
    and "restore_cpus io es buf cs st = (err, st')"
    and "bit (view (rs_machine st) c' r) k = bit (view m0 c' r) k"
  shows "bit (view (rs_machine st') c' r) k = bit (view m0 c' r) k"
  using restore_cpus_bit [OF assms(1-4), of c' r] assms(5)
    moved_saved [OF assms(1,2), of m0 es "set cs" c' r] by blast

lemma restore_one_agrees:
  assumes "ok" and "save_value io m0 c (off, msk) = Inr w" and "accessible reg wm io c off msk" and "bit msk k" and "k < 64"
  shows "bit (view (rs_machine (restore_one io c (off, msk) w st)) c (reg off)) k = bit (view m0 c (reg off)) k"
proof -
  obtain v0 where v0: "io_pread io m0 c off = Some v0" using assms(3) unfolding accessible_def by blast
  have good: "is_good_value w msk" using saved_value(1) [OF assms(2)] v0 by simp
  have w: "w = view m0 c (reg off) AND msk" using saved_value(2) [OF assms(2) v0] pread_view [OF assms(1) v0] by simp
  obtain v where v: "io_pread io (rs_machine st) c off = Some v" using assms(3) unfolding accessible_def by blast
  have view: "v = view (rs_machine st) c (reg off)" by (rule pread_view [OF assms(1) v])
  show ?thesis
  proof (cases "w = v AND msk")
    case True
    then have "restore_one io c (off, msk) w st = st" using good v by (simp add: restore_one_def Let_def)
    moreover have "bit (v AND msk) k = bit (view m0 c (reg off) AND msk) k" using True w by simp
    ultimately show ?thesis using assms(4) view by (simp add: bit_simps)
  next
    case False
    obtain m' where m': "io_pwrite io (rs_machine st) c off (w OR (v AND NOT msk)) = Some m'"
      using assms(3) unfolding accessible_def by blast
    have "bit (msk AND NOT (wm (reg off))) k = False" using assms(3) by (simp add: accessible_def)
    then have "bit (wm (reg off)) k" using assms(4,5) by (simp add: bit_simps)
    with pwrite_view [OF assms(1) m'] good v False m' assms(4,5) w show ?thesis
      by (simp add: restore_one_def Let_def bit_merge_bits bit_simps)
  qed
qed

lemma restore_msrs_agrees:
  assumes "ok" and "k < 64" and "list_all2 (\<lambda>e w. save_value io m0 c e = Inr w) es ws"
    and "(off, msk) \<in> set es" and "accessible reg wm io c off msk" and "bit msk k"
  shows "bit (view (rs_machine (restore_msrs io c es ws st)) c (reg off)) k = bit (view m0 c (reg off)) k"
  using assms(3,4)
proof (induction arbitrary: st rule: list_all2_induct)
  case Nil
  then show ?case by simp
next
  case (Cons e es w ws)
  show ?case
  proof (cases "e = (off, msk)")
    case True
    have "bit (view (rs_machine (restore_one io c e w st)) c (reg off)) k = bit (view m0 c (reg off)) k"
      unfolding True using Cons.hyps(1) True by (intro restore_one_agrees [OF assms(1) _ assms(5,6,2)]) simp
    from restore_msrs_keeps [OF assms(1,2) Cons.hyps(2) this] show ?thesis by simp
  next
    case False
    with Cons.IH Cons.prems show ?thesis by simp
  qed
qed

lemma restore_cpus_agrees:
  assumes "ok" and "k < 64" and "rows_match (\<lambda>c e w. save_value io m0 c e = Inr w) es buf cs"
    and "restore_cpus io es buf cs st = (0, st')"
    and "c \<in> set cs" and "(off, msk) \<in> set es" and "accessible reg wm io c off msk" and "bit msk k"
  shows "bit (view (rs_machine st') c (reg off)) k = bit (view m0 c (reg off)) k"
  using assms(3-5)
proof (induction cs arbitrary: buf st)
  case Nil
  then show ?case by simp
next
  case (Cons d cs)
  define st1 where "st1 = restore_msrs io d es (take (length es) buf) st"
  have f: "fail_code e \<noteq> 0" for e by (simp add: fail_code_def)
  have rest: "restore_cpus io es (drop (length es) buf) cs st1 = (0, st')"
    using Cons.prems(2) f by (auto simp: st1_def Let_def split: option.splits)
  have rows: "rows_match (\<lambda>c e w. save_value io m0 c e = Inr w) es (drop (length es) buf) cs"
    using Cons.prems(1) by simp
  show ?case
  proof (cases "c = d")
    case True
    have "bit (view (rs_machine st1) c (reg off)) k = bit (view m0 c (reg off)) k"
      unfolding st1_def True using Cons.prems(1) assms(6,7,8) True
      by (intro restore_msrs_agrees [OF assms(1,2)]) simp_all
    from restore_cpus_keeps [OF assms(1,2) rows rest this] show ?thesis .
  next
    case False
    with Cons.IH [OF rows rest] Cons.prems(3) show ?thesis by simp
  qed
qed

end

section \<open>The per-CPU device as an MSR file\<close>

text \<open>
  \<open>open\<close>, \<open>pread\<close>, \<open>pwrite\<close> and \<open>close\<close> on /dev/cpu/<cpu>/msr_safe: the kernel refuses a
  negative offset and calls the module's \<open>msr_open\<close>, \<open>msr_read\<close>, \<open>msr_write\<close> and
  \<open>msr_close\<close> for the rest. The user's buffer can be accessed; 6 is ENXIO.
\<close>

definition safe_io :: "bucket_hash \<Rightarrow> alist \<Rightarrow> 'm cpu_port \<Rightarrow> nat \<Rightarrow> (nat \<Rightarrow> bool) \<Rightarrow> 'm msr_io" where
  "safe_io h G P nr_cpu_ids cpu_online = \<lparr>
     io_open = (\<lambda>m c. case msr_open nr_cpu_ids cpu_online \<lparr>f_pos = 0, f_minor = c\<rparr> of
                        Inl e \<Rightarrow> Some (errno_num e) | Inr _ \<Rightarrow> None),
     io_pread = (\<lambda>m c off.
       if sint off < 0 then None
       else case msr_read h G P m True c 8 off of Inl _ \<Rightarrow> None | Inr d \<Rightarrow> Some (u64_of (fst d) (snd d))),
     io_pwrite = (\<lambda>m c off v.
       if sint off < 0 then None
       else case msr_write h G P m True c 8 off (lo32 v, hi32 v) of (Inl _, _) \<Rightarrow> None | (Inr _, m') \<Rightarrow> Some m'),
     io_close = (\<lambda>m c. None)\<rparr>"

interpretation safe: register_file "al_inv h G \<and> port_view view P" view msr_reg
  "\<lambda>r. msr_allowlist_writemask h G (ucast r)" "safe_io h G P nr_cpu_ids cpu_online"
  for h G view P nr_cpu_ids cpu_online
proof (unfold_locales, goal_cases)
  case (1 m c off v)
  then obtain lo hi where "rdmsr_safe_on_cpu P m c (msr_reg off) = Inr (lo, hi)" "v = u64_of lo hi"
    by (auto simp: safe_io_def msr_read_def Let_def split: if_splits sum.splits)
  with 1(1) show ?case by (auto simp: port_view_def)
next
  case (2 m c off v m')
  then obtain n where "msr_write h G P m True c 8 off (lo32 v, hi32 v) = (Inr n, m')"
    by (auto simp: safe_io_def split: if_splits sum.splits prod.splits)
  then obtain lo hi where w: "wrmsr_safe_on_cpu P m c (msr_reg off) lo hi = Inr m'"
    "u64_of lo hi = merge_bits (msr_allowlist_writemask h G (ucast (msr_reg off))) (view m c (msr_reg off))
       (u64_of (fst (lo32 v, hi32 v)) (snd (lo32 v, hi32 v)))"
    by (rule msr_write_ok) (use 2(1) in blast)
  have "view m' = (view m)(c := (view m c)(msr_reg off := u64_of lo hi))"
    using 2(1) w(1) by (simp add: port_view_def)
  then show ?case unfolding w(2) by simp
qed

text \<open>Hardware that never faults on a register of a CPU.\<close>

definition port_total :: "'m cpu_port \<Rightarrow> nat \<Rightarrow> u32 \<Rightarrow> bool" where
  "port_total P c r \<longleftrightarrow> (\<forall>m. \<exists>d. rdmsr_safe_on_cpu P m c r = Inr d)
     \<and> (\<forall>m lo hi. \<exists>m'. wrmsr_safe_on_cpu P m c r lo hi = Inr m')"

lemma safe_accessible:
  assumes "al_inv h G" and "port_total P c (msr_reg off)" and "0 \<le> sint off"
    and "al_map G (ucast (msr_reg off)) = Some w" and "msk AND NOT w = 0" and "msk \<noteq> 0"
  shows "accessible msr_reg (\<lambda>r. msr_allowlist_writemask h G (ucast r)) (safe_io h G P nr_cpu_ids cpu_online) c off msk"
proof -
  have ex: "msr_allowlist_maskexists h G (ucast (msr_reg off))" and wm: "msr_allowlist_writemask h G (ucast (msr_reg off)) = w"
    using assms(1,4) by (auto simp: maskexists_al_map writemask_al_map)
  have "w \<noteq> 0" using assms(5,6) by auto
  have "io_pread (safe_io h G P nr_cpu_ids cpu_online) m c off \<noteq> None" for m
  proof -
    obtain d where "rdmsr_safe_on_cpu P m c (msr_reg off) = Inr d"
      using assms(2) unfolding port_total_def by blast
    with assms(3) ex show ?thesis by (simp add: safe_io_def msr_read_def Let_def)
  qed
  moreover have "io_pwrite (safe_io h G P nr_cpu_ids cpu_online) m c off v \<noteq> None" for m v
  proof -
    obtain d where d: "rdmsr_safe_on_cpu P m c (msr_reg off) = Inr d"
      using assms(2) unfolding port_total_def by blast
    define data where "data = (if w \<noteq> 0xffffffffffffffff then write_merge w d (lo32 v, hi32 v) else (lo32 v, hi32 v))"
    obtain m' where "wrmsr_safe_on_cpu P m c (msr_reg off) (fst data) (snd data) = Inr m'"
      using assms(2) unfolding port_total_def by blast
    then have "msr_write h G P m True c 8 off (lo32 v, hi32 v) = (Inr 8, m')"
      using d \<open>w \<noteq> 0\<close> wm by (auto simp: msr_write_def Let_def data_def case_prod_beta split: if_splits)
    with assms(3) show ?thesis by (simp add: safe_io_def)
  qed
  ultimately show ?thesis using assms(5) wm by (simp add: accessible_def)
qed

lemma parse_entries:
  assumes "msr_parse_allowlist pos scan content = Some (Inr es)"
  shows "es = map (the \<circ> scan) (msr_lines (cstr content 0))"
  using assms
  by (auto simp: msr_parse_allowlist_def Let_def parse_lines_spec scan_all_Parsed
      split: option.splits scan_result.splits if_splits)

lemma parse_scanned:
  assumes "msr_parse_allowlist pos scan content = Some (Inr es)" and "e \<in> set es"
  shows "Some e \<in> scan ` set (msr_lines (cstr content 0))"
  using assms
  by (auto simp: msr_parse_allowlist_def Let_def parse_lines_spec scan_all_Parsed image_iff
      simp del: not_None_eq split: option.splits scan_result.splits if_splits) (metis option.exhaust_sel)

lemma msrsave_parse_nonzero: "msr_parse_allowlist pos scan content \<noteq> Some (Inl 0)"
  by (auto simp: msr_parse_allowlist_def Let_def fail_code_def
      dest: first_failure_nonzero split: option.splits scan_result.splits if_splits)

lemma save_state_ok:
  assumes "save_state os io m n es = (0, Some file)"
  shows "save_cpus io m es [0..<n] = Inr file"
  using assms by (auto simp: save_state_def fail_code_def split: option.splits sum.splits if_splits)

lemma restore_saved_ok:
  assumes "restore_saved os io m n es file = (err, st)"
  shows "(st = restore_start m \<and> err \<noteq> 0)
    \<or> length file = length es * n \<and> restore_cpus io es file [0..<n] (restore_start m) = (err, st)"
  using assms
  by (auto simp: restore_saved_def Let_def fail_code_def dest: first_failure_nonzero split: option.splits if_splits)

lemma first_failure_None: "first_failure os = None \<longleftrightarrow> (\<forall>x \<in> set os. x = None)"
  by (induction os rule: first_failure.induct) auto

section \<open>Save, then restore\<close>

lemma save_restore:
  assumes "al_inv h G" and "port_view view P"
    and "msr_save pos scan content sos (safe_io h G P ncpu on) m0 n = Some (0, Some file)"
    and "msr_restore pos' scan content ros (safe_io h G P ncpu on) m1 n file = Some (0, st)"
    and "c < n" and "Some (off, msk) \<in> scan ` set (msr_lines (cstr content 0))" and "0 \<le> sint off"
    and "al_map G (ucast (msr_reg off)) = Some w" and "msk AND NOT w = 0" and "port_total P c (msr_reg off)"
  shows "view (rs_machine st) c (msr_reg off) AND msk = view m0 c (msr_reg off) AND msk"
proof -
  obtain es where p: "msr_parse_allowlist pos scan content = Some (Inr es)"
    and s: "save_state sos (safe_io h G P ncpu on) m0 n es = (0, Some file)"
    using assms(3) by (auto simp: msr_save_def split: option.splits sum.splits)
  obtain es' where p': "msr_parse_allowlist pos' scan content = Some (Inr es')"
    and r: "restore_saved ros (safe_io h G P ncpu on) m1 n es' file = (0, st)"
    using assms(4) msrsave_parse_nonzero [of pos' scan content]
    by (auto simp: msr_restore_def split: option.splits sum.splits)
  have es: "es' = es" using parse_entries [OF p] parse_entries [OF p'] by simp
  have saved: "save_cpus (safe_io h G P ncpu on) m0 es [0..<n] = Inr file" using save_state_ok [OF s] by simp
  have restored: "restore_cpus (safe_io h G P ncpu on) es file [0..<n] (restore_start m1) = (0, st)"
    using restore_saved_ok [OF r] es by auto
  from assms(6) obtain l where l: "Some (off, msk) = scan l" "l \<in> set (msr_lines (cstr content 0))"
    by (rule imageE)
  have "(off, msk) = (the \<circ> scan) l" using l(1) [symmetric] by simp
  then have mem: "(off, msk) \<in> set es"
    unfolding parse_entries [OF p] set_map using l(2) by (rule image_eqI)
  have "bit (view (rs_machine st) c (msr_reg off)) k = bit (view m0 c (msr_reg off)) k"
    if "k < 64" and "bit msk k" for k
  proof -
    have "msk \<noteq> 0" using that(2) by auto
    then show ?thesis
      using safe.restore_cpus_agrees [OF _ that(1) save_cpus_rows [OF saved] restored _ mem, of view c]
        safe_accessible [OF assms(1,10,7,8,9)] assms(1,2,5) that(2) by simp
  qed
  then show ?thesis by (intro bit_word_eqI) (auto simp: bit_simps)
qed

section \<open>Properties\<close>

text \<open>One register of one CPU, for the witnesses.\<close>

definition save_ok :: save_os where
  "save_ok = \<lparr>s_malloc = None, s_fopen = None, s_written = 100, s_errno = 0, s_fclose = None\<rparr>"

definition restore_ok :: restore_os where
  "restore_ok = \<lparr>r_stat_restore = None, r_stat_allowlist = None, restore_mtime = 2, allowlist_mtime = 1,
     r_malloc = None, r_fopen = None, r_errno = 0, r_fclose = None\<rparr>"

definition one_line :: string where
  "one_line = ''0x199 0xFF''"

lemma one_line_eval:
  "cstr one_line 0 = one_line" "msr_lines one_line = [one_line]" "linux_scan one_line = Some (0x199, 0xFF)"
  by (simp_all add: one_line_def cstr_def msr_lines.simps next_line_def scan_eval)

lemma one_line_parse: "msr_parse_allowlist parse_ok linux_scan one_line = Some (Inr [(0x199, 0xFF)])"
proof -
  have "one_line \<noteq> []" by (simp add: one_line_def)
  then show ?thesis by (subst parse_ok_result) (simp_all add: one_line_eval)
qed

abbreviation sample_io :: "(nat \<Rightarrow> u32 \<Rightarrow> u64) msr_io" where
  "sample_io \<equiv> safe_io sample_hash sample_table plain_port 1 (\<lambda>_. True)"

lemma sample_save:
  "msr_save parse_ok linux_scan one_line save_ok sample_io (\<lambda>_ _. 0x12) 1 = Some (0, Some [0x12])"
  by (simp add: msr_save_def one_line_parse save_state_def save_ok_def save_value_def safe_io_def msr_open_def
      msr_read_def Let_def sample_policy msr_reg_def plain_port_def)

lemma sample_restore:
  "\<exists>st. msr_restore parse_ok linux_scan one_line restore_ok sample_io (\<lambda>_ _. 0x3456) 1 [0x12] = Some (0, st)
    \<and> bit (rs_machine st 0 0x199) 2 \<noteq> bit (0x3456 :: u64) 1"
  by (simp add: msr_restore_def one_line_parse restore_saved_def restore_ok_def restore_start_def safe_io_def
      msr_open_def Let_def restore_one_def is_good_value_def msr_read_def msr_write_def write_merge_def
      sample_policy msr_reg_def plain_port_def)

text \<open>
  C9: saving and restoring through the per-CPU devices of the module. If \<open>msr_save\<close> succeeds
  on one state of the machine and \<open>msr_restore\<close> with the same allowlist text and the saved
  file succeeds on another, then afterwards every listed register of every CPU has, in the
  bits of its mask, the values it had when they were saved; provided the loaded allowlist
  lets these bits be written and the hardware does not fault on the register.
\<close>

theorem save_restore_roundtrip:
  assumes "al_inv h G" and "port_view view P"
    and "msr_save pos scan content sos (safe_io h G P ncpu on) m0 n = Some (0, Some file)"
    and "msr_restore pos' scan content ros (safe_io h G P ncpu on) m1 n file = Some (0, st)"
    and "c < n" and "Some (off, msk) \<in> scan ` set (msr_lines (cstr content 0))" and "0 \<le> sint off"
    and "al_map G (ucast (msr_reg off)) = Some w" and "msk AND NOT w = 0" and "port_total P c (msr_reg off)"
  shows "view (rs_machine st) c (msr_reg off) AND msk = view m0 c (msr_reg off) AND msk"
  using assms by (rule save_restore)

theorem save_restore_roundtrip_witness:
  "\<exists>st. msr_restore parse_ok linux_scan one_line restore_ok sample_io (\<lambda>_ _. 0x3456) 1 [0x12] = Some (0, st)
    \<and> rs_machine st 0 0x199 AND 0xFF = 0x12"
proof -
  obtain st where st: "msr_restore parse_ok linux_scan one_line restore_ok sample_io (\<lambda>_ _. 0x3456) 1 [0x12]
      = Some (0, st)" using sample_restore by blast
  have tot: "port_total plain_port 0 (msr_reg 0x199)" by (simp add: port_total_def plain_port_def)
  have mem: "Some (0x199, 0xFF) \<in> linux_scan ` set (msr_lines (cstr one_line 0))"
    by (simp add: one_line_eval)
  have map: "al_map sample_table (ucast (msr_reg 0x199)) = Some 0xFF"
    by (simp add: sample_table_map msr_reg_def)
  have "rs_machine st 0 (msr_reg 0x199) AND 0xFF = 0x12 AND 0xFF"
    using save_restore_roundtrip [OF sample_table_inv plain_port_view sample_save st _ mem _ map _ tot] by simp
  with st show ?thesis by (simp add: msr_reg_def)
qed

text \<open>
  C19: the frame of a restore. Whatever the save file holds and whatever \<open>msr_restore\<close>
  returns, a bit of a register has changed only on one of the CPUs asked for, in a register
  that the allowlist text lists with the bit in its mask, and only if the loaded allowlist of
  the kernel allows the bit too.
\<close>

theorem restore_respects_masks:
  assumes "al_inv h G" and "port_view view P"
    and "msr_restore pos scan content ros (safe_io h G P ncpu on) m n file = Some (err, st)"
    and "k < 64" and "bit (view (rs_machine st) c r) k \<noteq> bit (view m c r) k"
  shows "c < n \<and> (\<exists>off msk. Some (off, msk) \<in> scan ` set (msr_lines (cstr content 0))
    \<and> r = msr_reg off \<and> bit msk k) \<and> (\<exists>w. al_map G (ucast r) = Some w \<and> bit w k)"
proof -
  have start: "rs_machine (restore_start m) = m" by (simp add: restore_start_def)
  obtain es where p: "msr_parse_allowlist pos scan content = Some (Inr es)"
    and rs: "restore_saved ros (safe_io h G P ncpu on) m n es file = (err, st)"
    using assms(3,5) start by (auto simp: msr_restore_def split: option.splits sum.splits)
  have rc: "length file = length es * n"
    "restore_cpus (safe_io h G P ncpu on) es file [0..<n] (restore_start m) = (err, st)"
    using restore_saved_ok [OF rs] assms(5) start by auto
  have rows: "rows_match (\<lambda>_ _ _. True) es file [0..<n]" using rc(1) by (intro rows_match_any) simp
  from safe.restore_cpus_bit [OF _ assms(4) rows rc(2), of view c r] assms(1,2,5) start
  have mv: "moved msr_reg (\<lambda>r. msr_allowlist_writemask h G (ucast r)) (\<lambda>_ _ _. True) es (set [0..<n]) c r k
      (bit (view (rs_machine st) c r) k)" by simp
  then obtain off msk where e: "(off, msk) \<in> set es" "r = msr_reg off" "bit msk k" "c < n"
    "bit (msr_allowlist_writemask h G (ucast r)) k" by (auto simp: moved_def)
  have "Some (off, msk) \<in> scan ` set (msr_lines (cstr content 0))"
    using e(1) parse_scanned [OF p] by (auto simp: image_iff)
  moreover have "\<exists>w. al_map G (ucast r) = Some w \<and> bit w k"
    using e(5) writemask_al_map [OF assms(1), of "ucast r"] by (auto split: option.splits)
  ultimately show ?thesis using e by blast
qed

theorem restore_respects_masks_witness:
  "\<exists>st. msr_restore parse_ok linux_scan one_line restore_ok sample_io (\<lambda>_ _. 0x3456) 1 [0x12] = Some (0, st)
    \<and> \<not> bit (rs_machine st 0 0x199 XOR 0x3456 :: u64) 8"
proof -
  obtain st where st: "msr_restore parse_ok linux_scan one_line restore_ok sample_io (\<lambda>_ _. 0x3456) 1 [0x12]
      = Some (0, st)" using sample_restore by blast
  from restore_respects_masks [OF sample_table_inv plain_port_view st, of 8 0 "0x199"]
  have "bit (rs_machine st 0 0x199) 8 = bit (0x3456 :: u64) 8"
    by (auto simp: sample_table_map split: if_splits)
  with st show ?thesis by (auto simp: bit_simps)
qed

text \<open>
  C30: what the save file tells about a register. A value that \<open>msr_save\<close> stores passes
  \<open>is_good_value\<close> exactly if the register could be read, and then it is the register's value
  under the mask; the marks for bad reads cannot be mistaken for values.
\<close>

theorem saved_value_exact:
  assumes "save_value io m cpu (offset, msk) = Inr w"
  shows "case io_pread io m cpu offset of
      None \<Rightarrow> \<not> is_good_value w msk
    | Some v \<Rightarrow> is_good_value w msk \<and> w = v AND msk"
  using saved_value [OF assms] by (cases "io_pread io m cpu offset") auto

theorem saved_value_exact_witness:
  "is_good_value 0x12 0xFF \<and> 0x12 = (0x3412 :: u64) AND 0xFF"
proof -
  have s: "save_value sample_io (\<lambda>_ _. 0x3412) 0 (0x199, 0xFF) = Inr 0x12"
    by (simp add: save_value_def safe_io_def msr_read_def Let_def sample_policy msr_reg_def plain_port_def)
  have p: "io_pread sample_io (\<lambda>_ _. 0x3412) 0 0x199 = Some 0x3412"
    by (simp add: safe_io_def msr_read_def Let_def sample_policy msr_reg_def plain_port_def)
  from saved_value_exact [OF s] show ?thesis unfolding p by simp
qed

text \<open>
  A restore that is refused, because the allowlist is newer than the save file, a file
  cannot be read or the save file has not one value for each register of each CPU, returns a
  non-zero code, writes no register and prints nothing.
\<close>

theorem restore_refuses:
  assumes "restore_mtime os < allowlist_mtime os \<or> length file \<noteq> length es * n
      \<or> r_stat_restore os \<noteq> None \<or> r_stat_allowlist os \<noteq> None \<or> r_fopen os \<noteq> None"
  shows "\<exists>err. restore_saved os io m n es file = (err, restore_start m) \<and> err \<noteq> 0"
  using assms
  by (auto simp: restore_saved_def Let_def fail_code_def first_failure_None dest: first_failure_nonzero
      split: option.splits if_splits)

theorem restore_refuses_witness:
  "\<exists>err. restore_saved (restore_ok\<lparr>allowlist_mtime := 3\<rparr>) sample_io (\<lambda>_ _. 0x3456) 1 [(0x199, 0xFF)] [0x12]
    = (err, restore_start (\<lambda>_ _. 0x3456)) \<and> err \<noteq> 0"
  by (rule restore_refuses) (simp add: restore_ok_def)

end
