(* ===== verification/Msrsave_Device.thy ===== *)
theory Msrsave_Device
  imports Msrsave Allowlist_Roundtrip
begin

text \<open>
  The tool and the module together: msrsave takes its allowlist from the allowlist device,
  whose text is printed by \<open>read_allowlist\<close> of the module and scanned by \<open>sscanf\<close> in
  \<open>msr_parse_allowlist\<close>. The theory shows that the tool gets exactly the loaded entries, so that
  a save and a restore cover what the module lets a program change.
\<close>

section \<open>Scanning what the device prints\<close>

lemma dropWhile_all_P: "\<forall>x \<in> set xs. P x \<Longrightarrow> dropWhile P (xs @ ys) = dropWhile P ys"
  by (induction xs) auto

lemma scan_number_hex:
  assumes "\<not> digit_val c < 16"
  shows "scan_number (''0x'' @ sprintf_0X w v @ c # rest) = Some (v, c # rest)"
proof -
  let ?ds = "sprintf_0X w v"
  have ds: "\<forall>x \<in> set ?ds. digit_val x < 16" using set_sprintf_0X [of w v] by auto
  have d: "digits_val 16 0 ?ds = Some (unat v)"
    by (simp add: sprintf_0X_def Let_def digits_val_zeros digits_val_hex_string)
  have "?ds \<noteq> []" by (simp add: sprintf_0X_def Let_def)
  moreover have "takeWhile (\<lambda>x. digit_val x < 16) (?ds @ c # rest) = ?ds"
    by (rule takeWhile_stop [OF ds assms])
  moreover have "dropWhile (\<lambda>x. digit_val x < 16) (?ds @ c # rest) = c # rest"
    by (rule dropWhile_stop [OF ds assms])
  moreover have "min (unat v) (2 ^ 64 - 1) = unat v"
  proof -
    have "unat v < 2 ^ 64" using unsigned_less [of v] by simp
    then show ?thesis by simp
  qed
  moreover have "\<not> ascii_space (CHR ''0'')" by code_simp
  ultimately show ?thesis by (simp add: scan_number_def Let_def d)
qed

lemma scan_number_blank: "scan_number (SP # s) = scan_number s"
proof -
  have "ascii_space SP" by code_simp
  then show ?thesis by (simp add: scan_number_def)
qed

lemma linux_scan_line: "linux_scan (entry_line e @ rest) = Some (e_msr e, e_wmask e)"
proof -
  have sp: "\<not> digit_val SP < 16" "\<not> digit_val LF < 16" by code_simp+
  have "entry_line e @ rest = ''0x'' @ sprintf_0X 8 (e_msr e) @ SP # (''0x'' @ sprintf_0X 16 (e_wmask e) @ LF # rest)"
    by (simp add: entry_line_def)
  then show ?thesis
    unfolding linux_scan_def using scan_number_hex [OF sp(1)] scan_number_hex [OF sp(2)]
    by (simp only: scan_number_blank option.case prod.case)
qed

lemma next_line_line: "LF \<notin> set l \<Longrightarrow> next_line (l @ LF # rest) = Some rest"
proof -
  assume "LF \<notin> set l"
  then have "\<forall>x \<in> set l. x \<noteq> LF" by blast
  from dropWhile_stop [of l "\<lambda>c. c \<noteq> LF", OF this] show ?thesis by (simp add: next_line_def)
qed

lemma LF_notin_hex: "LF \<notin> set (sprintf_0X w v)"
proof -
  have "\<not> digit_val LF < 16" by code_simp
  then show ?thesis using set_sprintf_0X [of w v] by auto
qed

lemma msr_lines_entries:
  "scan_all linux_scan (msr_lines (concat (map entry_line es))) = Parsed (entry_pairs es)"
proof (induction es)
  case Nil
  then show ?case by (simp add: msr_lines.simps entry_pairs_def)
next
  case (Cons e es)
  let ?rest = "concat (map entry_line es)"
  let ?l = "''0x'' @ sprintf_0X 8 (e_msr e) @ '' 0x'' @ sprintf_0X 16 (e_wmask e)"
  have l: "entry_line e @ ?rest = ?l @ LF # ?rest" by (simp add: entry_line_def)
  have "next_line (entry_line e @ ?rest) = Some ?rest"
    unfolding l by (rule next_line_line) (simp add: LF_notin_hex)
  moreover obtain t where "entry_line e @ ?rest = CHR ''0'' # t" by (simp add: l)
  ultimately have "msr_lines (entry_line e @ ?rest) = (entry_line e @ ?rest) # msr_lines ?rest"
    by (subst msr_lines.simps) simp
  then show ?case using Cons by (simp add: linux_scan_line entry_pairs_def)
qed

lemma msr_lines_header: "msr_lines (header_line @ xs) = msr_lines xs"
proof -
  have h: "header_line @ xs = CHR ''#'' # (''MSR       Write mask        '' @ LF # xs)"
    by (simp add: header_line_eq)
  have "next_line (header_line @ xs) = Some xs"
    using next_line_line [of "''#MSR       Write mask        ''" xs] by (simp add: header_line_eq)
  then show ?thesis unfolding h by (simp add: skip_hash(2))
qed

lemma scan_device_text: "scan_all linux_scan (msr_lines (device_text es)) = Parsed (entry_pairs es)"
  using msr_lines_entries [of es] msr_lines_header
  by (cases "es = []") (simp_all add: device_text_def)

lemma cstr_device_text: "cstr (device_text es) 0 = device_text es"
  using NUL_notin_device_text [of es] by (auto simp: cstr_def takeWhile_eq_all_conv)

section \<open>Copying the device\<close>

text \<open>
  \<open>read\<close> on the open allowlist device, with the file position; a read that follows a null pointer
  in the module does not return.
\<close>

definition device_reader :: "alist \<Rightarrow> loff_t reader" where
  "device_reader G count pos =
     (case read_allowlist True count pos G of
        None \<Rightarrow> None
      | Some r \<Rightarrow> Some (case rd_res r of
                         Inl er \<Rightarrow> (Inl (errno_num er), pos)
                       | Inr n \<Rightarrow> (Inr (rd_data r), rd_ppos r)))"

text \<open>The copy ends; unless a write fails it has the text of the loaded entries.\<close>

lemma copy_from:
  assumes "al_array G = Some xs" "al_numentries G = length xs" "length xs < 2 ^ 31" and "k \<le> length xs"
  shows "\<exists>e txt0. copy_loop (device_reader G) wr i (word_of_int (int k)) tmp = Some (e, txt0)
    \<and> (e = None \<longrightarrow> txt0 = tmp @ concat (map (\<lambda>i. allowlist_kbuf (int i) (xs ! i)) [k..<length xs]))
    \<and> ((\<forall>i. wr i = None) \<longrightarrow> e = None)"
  using assms(4)
proof (induction "length xs - k" arbitrary: k i tmp)
  case 0
  then have "k = length xs" by simp
  with read_end [OF assms(2,3)] show ?case
    by (subst copy_loop.simps) (simp add: device_reader_def)
next
  case (Suc n)
  then have k: "k < length xs" by simp
  let ?l = "allowlist_kbuf (int k) (xs ! k)"
  define p q :: loff_t where pq: "p = word_of_int (int k)" "q = word_of_int (int (Suc k))"
  have "?l \<noteq> []" using kbuf_bounds(1) [of "int k" "xs ! k"] by auto
  moreover have "device_reader G BUFFER_SIZE p = Some (Inr ?l, q)"
    unfolding pq using read_at [OF assms(1,2) k assms(3)] by (simp add: device_reader_def BUFFER_SIZE_def)
  ultimately have c: "copy_loop (device_reader G) wr i p tmp
      = (case wr i of Some e \<Rightarrow> Some (Some e, tmp)
         | None \<Rightarrow> copy_loop (device_reader G) wr (Suc i) q (tmp @ ?l))"
    by (subst copy_loop.simps) simp
  have "n = length xs - Suc k" "Suc k \<le> length xs" using Suc.hyps(2) k by simp_all
  from Suc.hyps(1) [OF this, of "Suc i" "tmp @ ?l"] obtain e txt0 where
    r: "copy_loop (device_reader G) wr (Suc i) q (tmp @ ?l) = Some (e, txt0)"
      "e = None \<longrightarrow> txt0 = (tmp @ ?l) @ concat (map (\<lambda>i. allowlist_kbuf (int i) (xs ! i)) [Suc k..<length xs])"
      "(\<forall>i. wr i = None) \<longrightarrow> e = None" unfolding pq by blast
  show ?case
  proof (cases "wr i")
    case None
    with c r show ?thesis by (simp add: upt_conv_Cons [OF k] pq)
  next
    case (Some e)
    with c show ?thesis by (auto simp: pq)
  qed
qed

lemma copy_device:
  assumes "al_inv h G" and "al_array G = Some xs" and "length xs < 2 ^ 31"
  obtains e txt0 where "copy_loop (device_reader G) wr 0 0 [] = Some (e, txt0)"
    and "e = None \<Longrightarrow> txt0 = device_text xs" and "\<forall>i. wr i = None \<Longrightarrow> e = None"
proof -
  have "al_numentries G = length xs" using assms(1,2) by (simp add: al_inv_def tab_inv_def)
  from copy_from [OF assms(2) this assms(3), of 0 wr 0 "[]"] that show thesis
    by (auto simp: device_text_eq)
qed

lemma device_text_lines:
  assumes "msr_parse_allowlist pos linux_scan (device_text xs) = Some (Inr es)"
  shows "es = entry_pairs xs"
proof -
  have "scan_all linux_scan ls = Parsed zs \<Longrightarrow> map (the \<circ> linux_scan) ls = zs" for ls zs
    by (induction ls arbitrary: zs) (auto split: option.splits scan_result.splits)
  from this [OF scan_device_text] parse_entries [OF assms] show ?thesis by (simp add: cstr_device_text)
qed

lemma device_parse:
  assumes "xs \<noteq> []"
  shows "msr_parse_allowlist parse_ok linux_scan (device_text xs) = Some (Inr (entry_pairs xs))"
proof -
  have "device_text xs \<noteq> []" using assms by (simp add: device_text_def header_line_eq)
  then show ?thesis by (subst parse_ok_result) (simp_all add: cstr_device_text scan_device_text)
qed

section \<open>Properties\<close>

text \<open>
  C23: what the module prints the tool understands. The loop that copies the allowlist device,
  8192 bytes at a time, always comes to an end, whatever else fails; and when
  \<open>msr_parse_allowlist\<close> succeeds, as it does when every system call succeeds, it has exactly the
  loaded entries, in their order.
\<close>

theorem msrsave_reads_device:
  assumes "al_inv h G" and "al_array G = Some xs" and "xs \<noteq> []" and "length xs < 2 ^ 31"
  shows "\<exists>r. msr_parse_file pos linux_scan (device_reader G) wr 0 = Some r
    \<and> (\<forall>es. r = Inr es \<longrightarrow> es = entry_pairs xs)
    \<and> (pos = parse_ok \<longrightarrow> (\<forall>i. wr i = None) \<longrightarrow> r = Inr (entry_pairs xs))"
proof -
  obtain e txt0 where c: "copy_loop (device_reader G) wr 0 0 [] = Some (e, txt0)"
    and t: "e = None \<Longrightarrow> txt0 = device_text xs" and ok: "\<forall>i. wr i = None \<Longrightarrow> e = None"
    by (rule copy_device [OF assms(1,2,4), where wr = wr]) (rule that)
  show ?thesis
  proof (cases "first_failure [p_mkstemp pos, p_open pos]")
    case (Some err)
    then show ?thesis by (auto simp: msr_parse_file_def parse_ok_def)
  next
    case None
    then have p: "msr_parse_file pos linux_scan (device_reader G) wr 0 = msr_parse_allowlist (pos\<lparr>p_copy := e\<rparr>) linux_scan txt0"
      by (simp add: msr_parse_file_def c)
    show ?thesis
    proof (cases e)
      case None
      then have tx: "txt0 = device_text xs" and same: "pos = parse_ok \<Longrightarrow> pos\<lparr>p_copy := e\<rparr> = parse_ok"
        using t by (simp_all add: parse_ok_def)
      obtain r where r: "msr_parse_allowlist (pos\<lparr>p_copy := e\<rparr>) linux_scan txt0 = Some r"
        using parse_defined by blast
      with device_text_lines [of "pos\<lparr>p_copy := e\<rparr>" xs] device_parse [OF assms(3)] same p tx show ?thesis by auto
    next
      case (Some a)
      then have "\<exists>err. msr_parse_allowlist (pos\<lparr>p_copy := e\<rparr>) linux_scan txt0 = Some (Inl err)"
        using \<open>first_failure [p_mkstemp pos, p_open pos] = None\<close>
        by (cases "p_mkstemp pos"; cases "p_open pos") (simp_all add: msr_parse_allowlist_def)
      with p ok Some show ?thesis by auto
    qed
  qed
qed

theorem msrsave_reads_device_witness:
  "msr_parse_file parse_ok linux_scan (device_reader sample_table) (\<lambda>_. None) 0 = Some (Inr [(0x199, 0xFF)])"
proof -
  have a: "al_array sample_table = Some [\<lparr>e_wmask = 0xFF, e_msr = 0x199\<rparr>]" by (simp add: sample_table_def)
  from msrsave_reads_device [OF sample_table_inv a, of parse_ok "\<lambda>_. None"] show ?thesis
    by (auto simp: entry_pairs_def)
qed

text \<open>
  C8: save and restore cover all that the module lets a program change. Let msrsave save the
  registers and later restore them, both times with the text that its copy loop reads from the
  allowlist device, while one allowlist of fewer than 2^31 entries stays loaded. When both
  return 0, then on each of the CPUs and for every listed register that the hardware lets the
  CPU read and write without a fault, all bits of the register's write mask have the value
  they had when it was saved. The condition on the hardware is needed: the program reports a
  register that it cannot read or write with a warning and still returns 0.
\<close>

theorem msrsave_restores_writable:
  assumes "al_inv h G" and "port_view view P"
    and "al_array G = Some xs" and "length xs < 2 ^ 31"
    and "copy_loop (device_reader G) wr 0 0 [] = Some (None, content)"
    and "msr_save pos linux_scan content sos (safe_io h G P ncpu on) m0 n = Some (0, Some file)"
    and "msr_restore pos' linux_scan content ros (safe_io h G P ncpu on) m1 n file = Some (0, st)"
    and "c < n" and "al_map G (ucast reg) = Some w" and "port_total P c reg"
  shows "view (rs_machine st) c reg AND w = view m0 c reg AND w"
proof -
  let ?off = "ucast reg :: u64"
  have t: "content = device_text xs"
    by (rule copy_device [OF assms(1,3,4), where wr = wr]) (use assms(5) in simp)
  have r: "msr_reg ?off = reg" unfolding msr_reg_def by (rule bit_word_eqI) (auto simp: bit_simps)
  have "(?off, w) \<in> set (entry_pairs xs)"
    using assms(3,9) by (auto simp: al_map_def dest: map_of_SomeD)
  moreover obtain es where "msr_parse_allowlist pos linux_scan content = Some (Inr es)"
    using assms(6) by (auto simp: msr_save_def split: option.splits sum.splits)
  ultimately have mem: "Some (?off, w) \<in> linux_scan ` set (msr_lines (cstr content 0))"
    using parse_scanned device_text_lines unfolding t by blast
  have "\<not> bit ?off (LENGTH(64) - 1)" by (auto simp: bit_simps dest: bit_imp_le_length)
  then have "0 \<le> sint ?off" using bit_last_iff [of ?off] by simp
  from save_restore [OF assms(1,2,6-8) mem this, of w] assms(9,10) show ?thesis
    by (simp add: r)
qed

theorem msrsave_restores_writable_witness:
  "\<exists>content st. copy_loop (device_reader sample_table) (\<lambda>_. None) 0 0 [] = Some (None, content)
    \<and> msr_save parse_ok linux_scan content save_ok sample_io (\<lambda>_ _. 0x12) 1 = Some (0, Some [0x12])
    \<and> msr_restore parse_ok linux_scan content restore_ok sample_io (\<lambda>_ _. 0x3456) 1 [0x12] = Some (0, st)
    \<and> rs_machine st 0 0x199 AND 0xFF = 0x12"
proof -
  let ?xs = "[\<lparr>e_wmask = 0xFF, e_msr = 0x199\<rparr>] :: allowlist_entry list"
  have a: "al_array sample_table = Some ?xs" by (simp add: sample_table_def)
  have t: "copy_loop (device_reader sample_table) (\<lambda>_. None) 0 0 [] = Some (None, device_text ?xs)"
    by (rule copy_device [OF sample_table_inv a, where wr = "\<lambda>_. None"]) simp_all
  have p: "msr_parse_allowlist parse_ok linux_scan (device_text ?xs) = Some (Inr [(0x199, 0xFF)])"
    using device_parse [of ?xs] by (simp add: entry_pairs_def)
  have sv: "msr_save parse_ok linux_scan (device_text ?xs) save_ok sample_io (\<lambda>_ _. 0x12) 1 = Some (0, Some [0x12])"
    using sample_save by (simp add: msr_save_def p one_line_parse)
  obtain st where rs: "msr_restore parse_ok linux_scan (device_text ?xs) restore_ok sample_io (\<lambda>_ _. 0x3456) 1 [0x12] = Some (0, st)"
    using sample_restore by (auto simp: msr_restore_def p one_line_parse)
  have "port_total plain_port 0 0x199" by (simp add: port_total_def plain_port_def)
  from msrsave_restores_writable [OF sample_table_inv plain_port_view a _ t sv rs _ _ this, of "0xFF"]
  have "rs_machine st 0 0x199 AND 0xFF = 0x12 AND 0xFF" by (simp add: sample_table_map)
  with t sv rs show ?thesis by (intro exI [of _ "device_text ?xs"] exI [of _ st]) simp
qed

end
