(* ===== verification/Msrsave_Test.thy ===== *)
theory Msrsave_Test
  imports Msrsave_Device
begin

text \<open>
  The test program msrsave/msrsave_test.c, which runs \<open>msr_save\<close> and \<open>msr_restore\<close> on plain
  files that stand for the MSR devices of ten CPUs. A failed assertion is \<open>None\<close>. The theory
  interprets the interface \<open>register_file\<close> a second time, on plain files, and shows that the
  test passes when every system call succeeds.
\<close>

section \<open>Plain files as MSR devices\<close>

text \<open>
  Each file holds \<open>nvals\<close> values of eight bytes; \<open>m c j\<close> is the value at offset \<open>8 * j\<close> of the
  file of CPU \<open>c\<close>. Offsets that are not multiples of eight, which the test does not use, are
  left out (\<open>None\<close>, as an offset past the end; 2 is ENOENT).
\<close>

definition in_file :: "nat \<Rightarrow> u64 \<Rightarrow> bool" where
  "in_file nvals off \<longleftrightarrow> unat off mod 8 = 0 \<and> unat off div 8 < nvals"

definition file_io :: "nat \<Rightarrow> nat \<Rightarrow> (nat \<Rightarrow> nat \<Rightarrow> u64) msr_io" where
  "file_io num_cpu nvals = \<lparr>
     io_open = (\<lambda>m c. if c < num_cpu then None else Some 2),
     io_pread = (\<lambda>m c off. if in_file nvals off then Some (m c (unat off div 8)) else None),
     io_pwrite = (\<lambda>m c off v. if in_file nvals off then Some (m(c := (m c)(unat off div 8 := v))) else None),
     io_close = (\<lambda>m c. None)\<rparr>"

interpretation plain_file: register_file True "\<lambda>m. m" "\<lambda>off. unat off div 8" "\<lambda>_. NOT 0" "file_io num_cpu nvals"
  for num_cpu nvals
  by unfold_locales (auto simp: file_io_def merge.upd_full [simplified] split: if_splits)

section \<open>The test\<close>

definition test_off :: "u64 list" where
  "test_off = [0x0, 0x8, 0x10, 0x18, 0x20, 0x28, 0x30, 0x38, 0x40, 0x48, 0x50, 0x58, 0x60, 0x68, 0x70, 0x78,
     0x80, 0x88, 0x90, 0x98, 0x1000000000000100]"

definition test_mask :: "u64 list" where
  "test_mask = [0x8000000000000000, 0x8000000000000000, 0x8000000000000000, 0x8000000000000000,
     0x8000000000000000, 0x8000000000000000, 0x8000000000000000, 0x8000000000000000, 0x8000000000000000,
     0x8000000000000000, 0x8000000000000000, 0x8000000000000000, 0x8000000000000000, 0x8000000000000000,
     0x8000000000000000, 0x8000000000000000, 0x8000000000000000, 0x8000000000000000, 0x8000000000000000,
     0xFFFFFFFFFFFFFFFF, 0x8000000000000000]"

definition NUM_MSR :: nat where
  "NUM_MSR = 21"

definition test_entries :: "allowlist_entry list" where
  "test_entries = map (\<lambda>i. \<lparr>e_wmask = test_mask ! i, e_msr = test_off ! i\<rparr>) [0..<NUM_MSR]"

text \<open>The format \<open>0x%.8zX 0x%.16zX\n\<close> prints what \<open>read_allowlist\<close> prints for an entry.\<close>

definition test_allowlist :: string where
  "test_allowlist = concat (map entry_line test_entries)"

definition first_val :: "nat \<Rightarrow> u64" where
  "first_val i = of_nat i OR push_bit 32 0xDEADBEEF"

definition second_val :: "nat \<Rightarrow> u64" where
  "second_val i = of_nat (NUM_MSR - i) OR push_bit 32 0x1EADBEEF"

definition check_val :: "nat \<Rightarrow> u64" where
  "check_val i =
     (if i < NUM_MSR - 1
      then if (test_mask ! i) AND 0xFFFFFFFF \<noteq> 0 then 0xDEADBEEF00000000 OR of_nat i
           else of_nat (NUM_MSR - i) OR push_bit 32 0x9EADBEEF
      else second_val i)"

definition msrsave_test_mock_msr :: "u64 list \<Rightarrow> nat \<Rightarrow> (nat \<Rightarrow> nat \<Rightarrow> u64) \<Rightarrow> nat \<Rightarrow> nat \<Rightarrow> u64" where
  "msrsave_test_mock_msr vals num_cpu m =
     (\<lambda>c. if c < num_cpu then (\<lambda>j. if j < length vals then vals ! j else 0) else m c)"

definition msrsave_test_check_msr :: "u64 list \<Rightarrow> nat \<Rightarrow> (nat \<Rightarrow> nat \<Rightarrow> u64) \<Rightarrow> bool" where
  "msrsave_test_check_msr check num_cpu m =
     list_all (\<lambda>i. list_all (\<lambda>j. check ! j = m i j) [0..<length check]) [0..<num_cpu]"

definition msrsave_test_main :: "parse_os \<Rightarrow> save_os \<Rightarrow> parse_os \<Rightarrow> restore_os \<Rightarrow> int option" where
  "msrsave_test_main pos sos pos' ros =
     (let num_cpu = 10; io = file_io num_cpu NUM_MSR;
          m0 = msrsave_test_mock_msr (map first_val [0..<NUM_MSR]) num_cpu (\<lambda>_ _. 0)
      in case msr_save pos linux_scan test_allowlist sos io m0 num_cpu of
           Some (err, Some save_file) \<Rightarrow>
             if err \<noteq> 0 then None
             else let m1 = msrsave_test_mock_msr (map second_val [0..<NUM_MSR]) num_cpu m0
                  in (case msr_restore pos' linux_scan test_allowlist ros io m1 num_cpu save_file of
                        None \<Rightarrow> None
                      | Some (err, st) \<Rightarrow>
                          if err \<noteq> 0 then None
                          else if msrsave_test_check_msr (map check_val [0..<NUM_MSR]) num_cpu (rs_machine st)
                          then Some err else None)
         | _ \<Rightarrow> None)"

section \<open>The save and the restore succeed\<close>

lemma test_entry_pairs: "entry_pairs test_entries = zip test_off test_mask"
  by (simp add: test_entries_def entry_pairs_def NUM_MSR_def test_off_def test_mask_def upt_rec)

lemma test_parse: "msr_parse_allowlist parse_ok linux_scan test_allowlist = Some (Inr (zip test_off test_mask))"
proof -
  have "NUL \<notin> set test_allowlist"
    using NUL_notin_device_text [of test_entries] by (auto simp: device_text_def test_allowlist_def split: if_splits)
  then have c: "cstr test_allowlist 0 = test_allowlist" by (auto simp: cstr_def takeWhile_eq_all_conv)
  have "test_allowlist \<noteq> []" by (simp add: test_allowlist_def test_entries_def NUM_MSR_def entry_line_def upt_rec)
  moreover have "scan_all linux_scan (msr_lines (cstr test_allowlist 0)) = Parsed (zip test_off test_mask)"
    unfolding c unfolding test_allowlist_def by (simp add: msr_lines_entries test_entry_pairs)
  ultimately show ?thesis by (subst parse_ok_result) simp_all
qed

lemma save_msrs_total:
  "\<forall>e \<in> set es. \<exists>w. save_value io m c e = Inr w \<Longrightarrow> \<exists>ws. save_msrs io m c es = Inr ws"
  by (induction es) auto

lemma save_cpus_total:
  assumes "\<forall>c \<in> set cs. io_open io m c = None \<and> io_close io m c = None \<and> (\<forall>e \<in> set es. \<exists>w. save_value io m c e = Inr w)"
  shows "\<exists>buf. save_cpus io m es cs = Inr buf"
  using assms
proof (induction cs)
  case Nil
  then show ?case by simp
next
  case (Cons c cs)
  then obtain row buf where "save_msrs io m c es = Inr row" "save_cpus io m es cs = Inr buf"
    using save_msrs_total [of es io m c] by auto
  with Cons.prems show ?case by auto
qed

lemma restore_cpus_runs:
  assumes "\<forall>c \<in> set cs. \<forall>m. io_open io m c = None \<and> io_close io m c = None"
  shows "fst (restore_cpus io es buf cs st) = 0"
  using assms by (induction cs arbitrary: buf st) (simp_all add: Let_def)

section \<open>The entries\<close>

abbreviation test_es :: "(u64 \<times> u64) list" where
  "test_es \<equiv> zip test_off test_mask"

lemma test_es_eq: "test_es = map (\<lambda>j. (of_nat (8 * j), test_mask ! j)) [0..<20]
    @ [(0x1000000000000100, 0x8000000000000000)]"
  by (simp add: test_off_def test_mask_def upt_rec)

lemma test_mask_nth:
  assumes "j < 20"
  shows "test_mask ! j = (if j = 19 then NOT 0 else 0x8000000000000000)"
proof -
  have "replicate 19 x = [x, x, x, x, x, x, x, x, x, x, x, x, x, x, x, x, x, x, x]" for x :: u64
    by (simp add: numeral_eq_Suc)
  then have t: "test_mask = replicate 19 0x8000000000000000 @ [NOT 0, 0x8000000000000000]"
    by (simp only: test_mask_def append.simps) simp
  show ?thesis unfolding t using assms by (auto simp: nth_append)
qed

lemma test_off_index: "j < 20 \<Longrightarrow> unat (of_nat (8 * j) :: u64) = 8 * j"
  by (simp only: unat_of_nat) simp

lemma test_es_cases:
  assumes "(off, msk) \<in> set test_es"
  obtains (near) j where "j < 20" and "off = of_nat (8 * j)" and "unat off div 8 = j" and "msk = test_mask ! j"
  | (far) "unat off div 8 = 0x200000000000020" and "msk = 0x8000000000000000"
  using assms unfolding test_es_eq by (auto simp: test_off_index simp del: of_nat_mult)

abbreviation test_io :: "(nat \<Rightarrow> nat \<Rightarrow> u64) msr_io" where
  "test_io \<equiv> file_io 10 NUM_MSR"

abbreviation mock :: "(nat \<Rightarrow> u64) \<Rightarrow> (nat \<Rightarrow> nat \<Rightarrow> u64) \<Rightarrow> nat \<Rightarrow> nat \<Rightarrow> u64" where
  "mock f m \<equiv> msrsave_test_mock_msr (map f [0..<NUM_MSR]) 10 m"

lemma mock_nth: "c < 10 \<Longrightarrow> j < NUM_MSR \<Longrightarrow> mock f m c j = f j"
  by (simp add: msrsave_test_mock_msr_def)

lemma test_save:
  obtains buf where "save_cpus test_io (mock first_val m) test_es [0..<10] = Inr buf"
    and "length buf = length test_es * 10"
proof -
  have "\<exists>w. save_value test_io (mock first_val m) c e = Inr w" if "c < 10" "e \<in> set test_es" for c e
  proof -
    obtain off msk where e: "e = (off, msk)" by (cases e)
    from that(2) have "(off, msk) \<in> set test_es" by (simp add: e)
    then show ?thesis
    proof (cases rule: test_es_cases)
      case (near j)
      have "mock first_val m c 19 = 0xDEADBEEF00000013"
        using that(1) by (subst mock_nth) (simp_all add: NUM_MSR_def first_val_def)
      with near show ?thesis
        by (auto simp: e save_value_def file_io_def Let_def test_mask_nth G_COOKIE_BAD_READ_def split: if_splits)
    next
      case far
      then show ?thesis by (simp add: e save_value_def file_io_def in_file_def NUM_MSR_def Let_def)
    qed
  qed
  then have "\<exists>buf. save_cpus test_io (mock first_val m) test_es [0..<10] = Inr buf"
    by (intro save_cpus_total) (auto simp: file_io_def)
  then show thesis using that save_cpus_length by force
qed

text \<open>What the restore leaves in the files.\<close>

lemma test_restore:
  assumes "save_cpus test_io (mock first_val m) test_es [0..<10] = Inr buf"
    and "restore_cpus test_io test_es buf [0..<10] (restore_start (mock second_val m')) = (0, st)"
    and "c < 10" and "j < NUM_MSR"
  shows "rs_machine st c j = (if j < 20 then merge_bits (test_mask ! j) (second_val j) (first_val j) else second_val j)"
proof (rule bit_word_eqI)
  fix k assume "k < LENGTH(64)"
  then have k: "k < 64" by simp
  note rows = save_cpus_rows [OF assms(1)]
  have far: "j \<noteq> 0x200000000000020" using assms(4) by (simp add: NUM_MSR_def)
  have old: "bit (rs_machine st c j) k = bit (second_val j) k" if "j < 20 \<Longrightarrow> \<not> bit (test_mask ! j) k"
  proof -
    have "\<not> moved (\<lambda>off. unat off div 8) (\<lambda>_. NOT 0) R test_es C c j k b" for R C b
      using that far by (auto simp: moved_def elim!: test_es_cases)
    with plain_file.restore_cpus_bit [OF _ k rows assms(2), of c j] show ?thesis
      by (simp add: restore_start_def mock_nth [OF assms(3,4)])
  qed
  have new: "bit (rs_machine st c j) k = bit (first_val j) k" if "j < 20" "bit (test_mask ! j) k"
  proof -
    have "(of_nat (8 * j), test_mask ! j) \<in> set test_es" using that(1) unfolding test_es_eq by auto
    moreover have "accessible (\<lambda>off. unat off div 8) (\<lambda>_. NOT 0) test_io c (of_nat (8 * j)) (test_mask ! j)"
      using that(1) test_off_index [OF that(1)] by (simp add: accessible_def file_io_def in_file_def NUM_MSR_def)
    ultimately have "bit (rs_machine st c (unat (of_nat (8 * j) :: u64) div 8)) k
        = bit (mock first_val m c (unat (of_nat (8 * j) :: u64) div 8)) k"
      using assms(3) that(2) by (intro plain_file.restore_cpus_agrees [OF _ k rows assms(2)]) auto
    then show ?thesis unfolding test_off_index [OF that(1)] using mock_nth [OF assms(3,4)] by simp
  qed
  show "bit (rs_machine st c j) k = bit (if j < 20 then merge_bits (test_mask ! j) (second_val j) (first_val j) else second_val j) k"
    using old new k by (auto simp: bit_merge_bits)
qed

text \<open>The values that the test expects.\<close>

lemma check_values:
  assumes "j < NUM_MSR"
  shows "check_val j = (if j < 20 then merge_bits (test_mask ! j) (second_val j) (first_val j) else second_val j)"
proof -
  have "\<forall>j \<in> set [0..<20]. check_val j = merge_bits (test_mask ! j) (second_val j) (first_val j)"
    by (simp add: upt_rec check_val_def second_val_def first_val_def NUM_MSR_def test_mask_nth merge_bits_def)
  with assms show ?thesis by (auto simp: check_val_def NUM_MSR_def)
qed

section \<open>Property\<close>

text \<open>
  C31: the test program of msrsave passes. When every system call succeeds (\<open>fwrite\<close> writes all
  210 values), no assertion of the test fails: the two runs return 0, afterwards each of the
  ten files has in the bits of the masks the values that were saved and in all others the
  values that were there before the restore, and the entry whose offset lies outside the
  files is passed over.
\<close>

theorem msrsave_test_passes:
  "msrsave_test_main parse_ok (save_ok\<lparr>s_written := 210\<rparr>) parse_ok restore_ok = Some 0"
proof -
  let ?m0 = "mock first_val (\<lambda>_ _. 0)"
  obtain buf where buf: "save_cpus test_io ?m0 test_es [0..<10] = Inr buf" "length buf = length test_es * 10"
    by (rule test_save)
  have len: "length test_es = 21" by (simp add: test_off_def test_mask_def)
  have save: "msr_save parse_ok linux_scan test_allowlist (save_ok\<lparr>s_written := 210\<rparr>) test_io ?m0 10 = Some (0, Some buf)"
    using buf len by (simp add: msr_save_def test_parse save_state_def save_ok_def)
  obtain err st where st: "restore_cpus test_io test_es buf [0..<10] (restore_start (mock second_val ?m0)) = (err, st)"
    by (cases "restore_cpus test_io test_es buf [0..<10] (restore_start (mock second_val ?m0))")
  have "err = 0" using restore_cpus_runs [of "[0..<10]" test_io test_es buf "restore_start (mock second_val ?m0)"] st
    by (simp add: file_io_def)
  note st = st [unfolded this]
  have restore: "msr_restore parse_ok linux_scan test_allowlist restore_ok test_io (mock second_val ?m0) 10 buf = Some (0, st)"
    using st buf(2) by (simp add: msr_restore_def test_parse restore_saved_def restore_ok_def Let_def)
  have "msrsave_test_check_msr (map check_val [0..<NUM_MSR]) 10 (rs_machine st)"
    using test_restore [OF buf(1) st] check_values by (auto simp: msrsave_test_check_msr_def list_all_iff)
  with save restore show ?thesis by (simp add: msrsave_test_main_def Let_def)
qed

end
