(* ===== verification/Msrsave_Tools.thy ===== *)
theory Msrsave_Tools
  imports Msrsave Device_Nodes
begin

text \<open>
  The programs around msrsave.c: the command line of msrsave_main.c and the SLURM plugin
  spank_msrsafe.c, whose prolog saves and whose epilog restores the registers of a node. The
  calls of \<open>msr_save\<close> and \<open>msr_restore\<close> appear as events; what they do is the subject of the
  theory Msrsave.
\<close>

section \<open>Paths\<close>

text \<open>
  \<open>snprintf\<close> into \<open>n\<close> bytes with a format that has one conversion \<open>%d\<close>, and what the tools pass as
  path of the allowlist and as format of the path of a CPU.
\<close>

fun format_d :: "string \<Rightarrow> nat \<Rightarrow> string" where
  "format_d [] i = []"
| "format_d (c # cs) i = (if c = CHR ''%'' \<and> take 1 cs = ''d'' then decimal i @ drop 1 cs else c # format_d cs i)"

definition NAME_MAX :: nat where
  "NAME_MAX = 255"

definition msr_file_name :: "string \<Rightarrow> nat \<Rightarrow> string" where
  "msr_file_name msr_path_format i = take (NAME_MAX - 1) (format_d msr_path_format i)"

definition tool_msr_path :: string where
  "tool_msr_path = ''/dev/cpu/%d/msr_safe''"

definition tool_allowlist_path :: string where
  "tool_allowlist_path = ''/dev/cpu/msr_allowlist''"

lemma length_decimal: "n < 10 ^ Suc k \<Longrightarrow> length (decimal n) \<le> Suc k"
proof (induction k arbitrary: n)
  case 0
  then show ?case by (simp add: decimal.simps)
next
  case (Suc k)
  show ?case
  proof (cases "n < 10")
    case True
    then show ?thesis by (simp add: decimal.simps)
  next
    case False
    from Suc.prems have "n div 10 < 10 ^ Suc k" by (simp add: less_mult_imp_div_less mult.commute)
    from Suc.IH [OF this] False show ?thesis by (subst decimal.simps) simp
  qed
qed

text \<open>
  In the loaded module the path that msrsave makes for CPU \<open>i\<close> leads to the per-CPU device of \<open>i\<close>
  (the interface \<open>msr_io\<close> of \<open>msr_save\<close> and \<open>msr_restore\<close> names the file by \<open>i\<close>), and the path of
  the allowlist to the allowlist device.
\<close>

lemma tool_msr_path_devnode:
  assumes "i < 2 ^ 31"
  shows "msr_file_name tool_msr_path i = ''/dev/'' @ msr_devnode i"
proof -
  have "i < 10 ^ Suc 9" using assms by simp
  from length_decimal [OF this] show ?thesis
    by (simp add: msr_file_name_def tool_msr_path_def NAME_MAX_def msr_devnode_def)
qed

lemma tool_paths_lead_to_drivers:
  assumes "module_up K S m r" and "i < 2 ^ 31" and "i \<in> S" and "i < num_possible_cpus K"
  shows "\<exists>path. msr_file_name tool_msr_path i = ''/dev/'' @ path
      \<and> leads_to ty (reg K (kern m)) path d j = (d = Safe_driver \<and> j = i)"
    and "\<exists>path. tool_allowlist_path = ''/dev/'' @ path \<and> leads_to ty (reg K (kern m)) path Allowlist_driver 0"
proof -
  have "leads_to ty (reg K (kern m)) (msr_devnode i) d j = (d = Safe_driver \<and> j = i)"
    using assms(3,4) devnode_names [of i] unfolding leads_to_module [OF assms(1)] driver_path_def
    by (cases d) auto
  with tool_msr_path_devnode [OF assms(2)] show "\<exists>path. msr_file_name tool_msr_path i = ''/dev/'' @ path
      \<and> leads_to ty (reg K (kern m)) path d j = (d = Safe_driver \<and> j = i)" by blast
  show "\<exists>path. tool_allowlist_path = ''/dev/'' @ path \<and> leads_to ty (reg K (kern m)) path Allowlist_driver 0"
    by (intro exI [of _ "''cpu/msr_allowlist''"])
      (simp add: tool_allowlist_path_def leads_to_module [OF assms(1)] driver_path_def)
qed

section \<open>The command line\<close>

text \<open>
  A call of \<open>msr_save\<close> or \<open>msr_restore\<close>: the file, the paths of the allowlist and of the registers, and
  the number of CPUs.
\<close>

datatype tool_call =
    Call_Save string string string int
  | Call_Restore string string string int
  | Print_Out string
  | Print_Err string

text \<open>The text \<open>usage\<close>, line by line; \<open>printf\<close> takes it as its format.\<close>

definition usage_lines :: "string list" where
  "usage_lines =
    [''NAME'',
     ''       msrsave - msr-safe save and restore application'',
     '''',
     ''SYNOPSIS'',
     ''       SAVE MSR:'',
     ''              msrsave outfile'',
     '''',
     ''       RESTORE MSR:'',
     ''              msrsave -r infile'',
     '''',
     ''       PRINT VERSION OR HELP:'',
     ''              msrsave --version | --help'',
     '''',
     ''DESCRIPTION'',
     ''       The  msrsave  application  is  used  to save to a file the  state of all write'',
     ''       accessible MSR values defined in the current MSR allowlist or restore the MSR'',
     ''       values from a saved state file. The msrsave application  also respects the'',
     ''       standard --version  and  --help  options  for  printing  the msr-safe pack-'',
     ''       age version or a brief message about usage.'',
     '''',
     ''OPTIONS'',
     ''       --help'',
     ''              Print brief summary of the command line usage information, then exit.'',
     '''',
     ''       --version'',
     ''              Print version of msr-safe package to standard output, then exit.'',
     '''',
     ''       -r'',
     ''              Restore the MSR values that are recorded in an existing MSR saved state'',
     ''              file.'',
     '''',
     ''COPYRIGHT'',
     ''       Copyright (C) 2016, Intel Corporation. All rights reserved.'',
     '''',
     '''']"

definition usage :: string where
  "usage = concat (map (\<lambda>l. l @ [LF]) usage_lines)"

text \<open>
  The loop over \<open>getopt\<close>: its results up to the one that is -1. It stops after an unknown
  option; 22 is EINVAL.
\<close>

fun getopt_loop :: "string \<Rightarrow> bool \<Rightarrow> int \<times> bool \<times> tool_call list" where
  "getopt_loop [] do_restore = (0, do_restore, [])"
| "getopt_loop (opt # opts) do_restore =
     (if opt = CHR ''r'' then getopt_loop opts True
      else (22, do_restore, [Print_Err (''Error: Unknown parameter '' @ [CHR 0x22, opt, CHR 0x22, LF, LF]), Print_Err usage]))"

text \<open>
  \<open>opts\<close> and \<open>optind\<close> are what the C library makes of the arguments, \<open>num_cpu\<close> the number of CPUs that
  \<open>sysconf\<close> reports, \<open>result\<close> the return value
  of the call of \<open>msr_save\<close> or \<open>msr_restore\<close>; the outcome is the exit code, what is printed and the call made.
\<close>

definition msrsave_main :: "string list \<Rightarrow> string \<Rightarrow> nat \<Rightarrow> int \<Rightarrow> (tool_call \<Rightarrow> int) \<Rightarrow> int \<times> tool_call list" where
  "msrsave_main argv opts optind num_cpu result =
     (if length argv > 1 \<and> argv ! 1 = ''--version''
      then (0, [Print_Out (MSR_SAFE_VERSION_STR @ [LF]),
                Print_Out ([LF] @ ''Copyright (C) 2016, Intel Corporation. All rights reserved.'' @ [LF, LF])])
      else if length argv > 1 \<and> (argv ! 1 = ''--help'' \<or> argv ! 1 = ''-h'') then (0, [Print_Out usage])
      else let (err, do_restore, printed) = getopt_loop opts False
           in if err \<noteq> 0 then (err, printed)
              else if optind = length argv
              then (22, [Print_Err (''Error: No file name specified.'' @ [LF, LF]), Print_Err usage])
              else let file_name = argv ! optind;
                       call = (if do_restore then Call_Restore file_name tool_allowlist_path tool_msr_path num_cpu
                               else Call_Save file_name tool_allowlist_path tool_msr_path num_cpu)
                   in (result call, [call]))"

text \<open>The usage text has no conversion that would make \<open>printf\<close> look for an argument.\<close>

lemma usage_plain: "CHR ''%'' \<notin> set usage"
  by (simp add: usage_def usage_lines_def)

text \<open>
  \<open>getopt\<close> reports every unknown option as a question mark, and this is what the message shows
  instead of the option.
\<close>

lemma unknown_option_message:
  "getopt_loop (CHR ''?'' # opts) b =
     (22, b, [Print_Err (''Error: Unknown parameter '' @ [CHR 0x22, CHR ''?'', CHR 0x22, LF, LF]), Print_Err usage])"
  by simp

section \<open>The log of the plugin\<close>

definition SLURM_SPANK_MSRSAFE_BUFFER_SIZE :: nat where
  "SLURM_SPANK_MSRSAFE_BUFFER_SIZE = 1024"

text \<open>
  The loop of \<open>slurm_spank_msrsafe_read_log\<close> with the text in the buffer and the rest of the
  file; the result is the messages printed.
\<close>

fun read_log_loop :: "string \<Rightarrow> string \<Rightarrow> string list" where
  "read_log_loop buffer [] = [buffer]"
| "read_log_loop buffer (c # cs) =
     (if c = LF \<or> length buffer = SLURM_SPANK_MSRSAFE_BUFFER_SIZE - 1
      then buffer # read_log_loop [] cs
      else read_log_loop (buffer @ [c]) cs)"

definition slurm_spank_msrsafe_read_log :: "string option \<Rightarrow> int \<times> string list" where
  "slurm_spank_msrsafe_read_log log_fid =
     (case log_fid of None \<Rightarrow> (1, []) | Some content \<Rightarrow> (0, read_log_loop [] content))"

section \<open>Prolog and epilog\<close>

text \<open>
  What the C library returns to the plugin. \<open>log_text\<close> is what the call of msrsave.c writes to
  the log, \<open>msr_result\<close> its return value.
\<close>

record spank_env =
  num_cpu_online :: int
  gethostname_result :: int
  hostname :: string
  mkstemp_result :: int
  log_name :: string
  fopen_ok :: bool
  msr_result :: int
  log_text :: string

datatype spank_event = Info string | Run tool_call | Log "string list" | Close_And_Unlink

text \<open>
  \<open>slurm_spank_job_prolog\<close> and \<open>slurm_spank_job_epilog\<close> differ in the call and the texts. The
  result is the return value and the events; \<open>None\<close> is the call of \<open>rewind\<close> on a null file.
\<close>

definition msrsave_file :: "spank_env \<Rightarrow> string" where
  "msrsave_file E = take (NAME_MAX * 2 - 1) (''/var/run/slurm-msrsave'' @ ''-'' @ hostname E)"

definition spank_job :: "(string \<Rightarrow> tool_call) \<Rightarrow> string \<Rightarrow> string \<Rightarrow> string \<Rightarrow> spank_env \<Rightarrow> (int \<times> spank_event list) option" where
  "spank_job run running failed completed E =
     (let t0 = [Info running];
          err1 = gethostname_result E;
          t1 = (if err1 \<noteq> 0 then t0 @ [Info ''gethostname failed.''] else t0);
          (err2, t2) = (if err1 = 0
            then (mkstemp_result E,
                  if mkstemp_result E \<noteq> 0 then t1 @ [Info ''failed to create msrsave output log''] else t1)
            else (err1, t1));
          out_log = (err2 = 0 \<and> fopen_ok E);
          t3 = (if err2 = 0 \<and> \<not> fopen_ok E then t2 @ [Info (''failed to open '' @ log_name E @ '' for writing'')] else t2);
          fin = (\<lambda>err t. Some (err, t @ (if err = 0 then [Info completed] else [])
                                     @ (if out_log then [Close_And_Unlink] else [])))
      in if err2 = 0
         then (if \<not> out_log then None
               else let err = msr_result E
                    in fin err (t3 @ [Run (run (msrsave_file E))] @ (if err \<noteq> 0 then [Info failed] else [])
                                @ [Log (snd (slurm_spank_msrsafe_read_log (Some (log_text E))))]))
         else fin err2 t3)"

definition slurm_spank_job_prolog :: "spank_env \<Rightarrow> (int \<times> spank_event list) option" where
  "slurm_spank_job_prolog E =
     spank_job (\<lambda>file. Call_Save file tool_allowlist_path tool_msr_path (num_cpu_online E))
       ''Running msr-safe plugin to save register values.'' ''msr_save failed:''
       ''Completed msr-safe plugin to save register values.'' E"

definition slurm_spank_job_epilog :: "spank_env \<Rightarrow> (int \<times> spank_event list) option" where
  "slurm_spank_job_epilog E =
     spank_job (\<lambda>file. Call_Restore file tool_allowlist_path tool_msr_path (num_cpu_online E))
       ''Running msr-safe plugin to restore register values.'' ''msr_restore failed:''
       ''Completed msr-safe plugin to restore register values.'' E"

text \<open>
  The two other entry points print a line; \<open>slurm_spank_slurmd_init\<close> has no return statement, so
  the value its caller sees is undefined (\<open>None\<close>).
\<close>

definition slurm_spank_init :: "int \<times> spank_event list" where
  "slurm_spank_init = (0, [Info ''Loaded msrsave restore plugin.''])"

definition slurm_spank_slurmd_init :: "int option \<times> spank_event list" where
  "slurm_spank_slurmd_init = (None, [Info ''Loaded msrsave restore plugin.''])"

text \<open>
  The program that the file is when it is compiled for a test by itself: \<open>slurm_info\<close> is then
  \<open>printf\<close>. \<open>E1\<close> and \<open>E2\<close> are what the C library returns to the prolog and to the epilog.
\<close>

definition spank_test_main :: "spank_env \<Rightarrow> spank_env \<Rightarrow> (int \<times> spank_event list) option" where
  "spank_test_main E1 E2 =
     (case slurm_spank_job_prolog E1 of
        None \<Rightarrow> None
      | Some (_, saved) \<Rightarrow>
          (case slurm_spank_job_epilog E2 of
             None \<Rightarrow> None
           | Some (_, restored) \<Rightarrow>
               Some (0, [Info (''SAVE SCRIPT:'' @ [LF])] @ saved
                 @ [Info ([LF, LF] @ ''RESTORE SCRIPT:'' @ [LF])] @ restored @ [Info [LF, LF]])))"

section \<open>Lemmas\<close>

text \<open>The lines of a text, the last one being what follows the last line feed.\<close>

fun split_lines :: "string \<Rightarrow> string list" where
  "split_lines [] = [[]]"
| "split_lines (c # cs) = (if c = LF then [] # split_lines cs
     else (case split_lines cs of [] \<Rightarrow> [[c]] | l # ls \<Rightarrow> (c # l) # ls))"

lemma split_lines_not_Nil [simp]: "split_lines s \<noteq> []"
  by (cases s) (auto split: list.splits)

lemma read_log_lines:
  assumes "\<forall>l \<in> set (split_lines s). length l \<le> 1023" and "length b + length (hd (split_lines s)) \<le> 1023"
  shows "read_log_loop b s = (b @ hd (split_lines s)) # tl (split_lines s)"
  using assms
proof (induction s arbitrary: b)
  case Nil
  then show ?case by simp
next
  case (Cons c s)
  obtain l ls where ls: "split_lines s = l # ls" by (cases "split_lines s") auto
  show ?case
  proof (cases "c = LF")
    case True
    with Cons ls show ?thesis by simp
  next
    case False
    with Cons.prems ls have "length (b @ [c]) + length (hd (split_lines s)) \<le> 1023"
      "\<forall>l \<in> set (split_lines s). length l \<le> 1023" by auto
    from Cons.IH [OF this(2,1)] False Cons.prems ls show ?thesis
      by (simp add: SLURM_SPANK_MSRSAFE_BUFFER_SIZE_def)
  qed
qed

lemma read_log_bounded: "length b \<le> 1023 \<Longrightarrow> \<forall>l \<in> set (read_log_loop b s). length l \<le> 1023"
proof (induction s arbitrary: b)
  case Nil
  then show ?case by simp
next
  case (Cons c s)
  from Cons.IH [of "[]"] Cons.IH [of "b @ [c]"] Cons.prems show ?case
    by (simp add: SLURM_SPANK_MSRSAFE_BUFFER_SIZE_def)
qed

lemma read_log_full: "length b + length s = 1023 \<Longrightarrow> LF \<notin> set s \<Longrightarrow> read_log_loop b (s @ [c]) = [b @ s, []]"
  by (induction s arbitrary: b) (auto simp: SLURM_SPANK_MSRSAFE_BUFFER_SIZE_def)

section \<open>Properties\<close>

text \<open>
  C40: the plugin takes the descriptor that \<open>mkstemp\<close> returns for an error code. Whenever the
  temporary file has been created with any descriptor other than 0, the prolog does not save
  the registers, the epilog does not restore them, and both return the descriptor as an error.
\<close>

theorem spank_skips_save_and_restore:
  assumes "gethostname_result E = 0" and "mkstemp_result E > 0"
  shows "\<exists>t u. slurm_spank_job_prolog E = Some (mkstemp_result E, t) \<and> (\<forall>c. Run c \<notin> set t)
    \<and> slurm_spank_job_epilog E = Some (mkstemp_result E, u) \<and> (\<forall>c. Run c \<notin> set u)"
  using assms by (simp add: slurm_spank_job_prolog_def slurm_spank_job_epilog_def spank_job_def)

theorem spank_skips_save_and_restore_witness:
  "\<exists>t. slurm_spank_job_prolog \<lparr>num_cpu_online = 2, gethostname_result = 0, hostname = ''n1'', mkstemp_result = 3, log_name = ''log'', fopen_ok = True, msr_result = 0,
       log_text = []\<rparr> = Some (3, t) \<and> (\<forall>c. Run c \<notin> set t)"
  using spank_skips_save_and_restore
    [of "\<lparr>num_cpu_online = 2, gethostname_result = 0, hostname = ''n1'', mkstemp_result = 3, log_name = ''log'', fopen_ok = True, msr_result = 0, log_text = []\<rparr>"]
  by auto

text \<open>
  The log reader never writes outside its buffer; it prints a log of lines of at most
  1023 characters line by line; and of a longer line it loses the character that comes when
  the buffer is full.
\<close>

theorem read_log_behaviour:
  "(\<forall>l \<in> set (snd (slurm_spank_msrsafe_read_log (Some s))). length l < SLURM_SPANK_MSRSAFE_BUFFER_SIZE)
    \<and> ((\<forall>l \<in> set (split_lines s). length l \<le> 1023) \<longrightarrow>
        slurm_spank_msrsafe_read_log (Some s) = (0, split_lines s))
    \<and> (length s = 1023 \<and> LF \<notin> set s \<longrightarrow> slurm_spank_msrsafe_read_log (Some (s @ [c])) = (0, [s, []]))"
proof (intro conjI)
  show "\<forall>l \<in> set (snd (slurm_spank_msrsafe_read_log (Some s))). length l < SLURM_SPANK_MSRSAFE_BUFFER_SIZE"
    using read_log_bounded [of "[]" s]
    by (auto simp: slurm_spank_msrsafe_read_log_def SLURM_SPANK_MSRSAFE_BUFFER_SIZE_def)
  show "(\<forall>l \<in> set (split_lines s). length l \<le> 1023) \<longrightarrow> slurm_spank_msrsafe_read_log (Some s) = (0, split_lines s)"
    using read_log_lines [of s "[]"] by (simp add: slurm_spank_msrsafe_read_log_def)
  show "length s = 1023 \<and> LF \<notin> set s \<longrightarrow> slurm_spank_msrsafe_read_log (Some (s @ [c])) = (0, [s, []])"
    using read_log_full [of "[]" s c] by (simp add: slurm_spank_msrsafe_read_log_def)
qed

theorem read_log_behaviour_witness:
  "slurm_spank_msrsafe_read_log (Some (''ab'' @ [LF] @ ''c'')) = (0, [''ab'', ''c''])"
  using read_log_behaviour [of "''ab'' @ [LF] @ ''c''"] by simp

text \<open>
  The command line tool touches registers in at most one call: it restores only when it
  was asked to with -r and no option was unknown, saves only when no option was given, and
  for a missing file name or an unknown option it does neither and exits with EINVAL.
\<close>

theorem msrsave_main_calls:
  "let (code, calls) = msrsave_main argv opts optind num_cpu result
   in (\<forall>f a p n. Call_Restore f a p n \<in> set calls \<longrightarrow>
        calls = [Call_Restore f a p n] \<and> opts \<noteq> [] \<and> set opts = {CHR ''r''} \<and> f = argv ! optind)
     \<and> (\<forall>f a p n. Call_Save f a p n \<in> set calls \<longrightarrow> calls = [Call_Save f a p n] \<and> opts = [] \<and> f = argv ! optind)
     \<and> (\<forall>s. Print_Err s \<in> set calls \<longrightarrow> code = 22)"
proof -
  have g: "fst (getopt_loop os b) = 0 \<Longrightarrow> set os \<subseteq> {CHR ''r''} \<and> getopt_loop os b = (0, b \<or> os \<noteq> [], [])" for os b
  proof (induction os arbitrary: b)
    case (Cons c os)
    from Cons.IH [of True] Cons.prems show ?case by (auto split: if_splits)
  qed simp
  have e: "fst (getopt_loop os b) \<noteq> 0 \<Longrightarrow> fst (getopt_loop os b) = 22
      \<and> (\<forall>c \<in> set (snd (snd (getopt_loop os b))). \<exists>s. c = Print_Err s)" for os b
    by (induction os arbitrary: b) (auto split: if_splits)
  have h: "set opts \<subseteq> {CHR ''r''} \<Longrightarrow> opts \<noteq> [] \<Longrightarrow> set opts = {CHR ''r''}"
    by (cases opts) auto
  obtain err r pr where l: "getopt_loop opts False = (err, r, pr)" by (metis prod_cases3)
  show ?thesis
  proof (cases "err = 0")
    case True
    with g [of opts False] h l show ?thesis by (auto simp: msrsave_main_def Let_def)
  next
    case False
    with e [of opts False] l show ?thesis by (auto simp: msrsave_main_def Let_def)
  qed
qed

theorem msrsave_main_calls_witness:
  "msrsave_main [''msrsave'', ''-r'', ''f''] ''r'' 2 8 (\<lambda>_. 7)
      = (7, [Call_Restore ''f'' tool_allowlist_path tool_msr_path 8])
    \<and> set ''r'' = {CHR ''r''}"
  using msrsave_main_calls [of "[''msrsave'', ''-r'', ''f'']" "''r''" 2 8 "\<lambda>_. 7"]
  by (simp add: msrsave_main_def)

end
