(* ===== verification/Msrsave_Resources.thy ===== *)
theory Msrsave_Resources
  imports Msrsave
begin

text \<open>
  The files and buffers of \<open>msr_parse_allowlist\<close>, \<open>msr_save\<close> and \<open>msr_restore\<close>. The functions
  acquire descriptors, streams and memory as they go on, jump to the label \<open>exit\<close> at the first
  failure, and give back there what their variables say they hold. The theory has the three
  functions as programs over these variables, with a log of what is acquired and released; it
  shows that they return what the functions of \<open>Msrsave\<close> return, and that on every path
  everything is released exactly once.
\<close>

section \<open>Programs with resources\<close>

datatype resource =
    Tmp_fd | Allowlist_fd | Allowlist_buffer | Msr_offset | Msr_mask
  | Save_buffer | Save_fid | Restore_buffer | Restore_fid | Msr_fd

datatype resource_event = Acquire resource | Release resource

text \<open>
  The variables that are not -1 and not null, and the log. A program returns, besides the state,
  the error code or a value; \<open>None\<close> is undefined behaviour, as in \<open>msr_parse_allowlist\<close>.
\<close>

record pstate =
  ps_set :: "resource set"
  ps_log :: "resource_event list"

type_synonym 'a prog = "pstate \<Rightarrow> (int + 'a) option \<times> pstate"

definition ret :: "'a \<Rightarrow> 'a prog" where
  "ret x s = (Some (Inr x), s)"

definition fail :: "int \<Rightarrow> 'a prog" where
  "fail e s = (Some (Inl e), s)"

definition bind_prog :: "'a prog \<Rightarrow> ('a \<Rightarrow> 'b prog) \<Rightarrow> 'b prog" where
  "bind_prog p f s =
     (case p s of
        (None, s1) \<Rightarrow> (None, s1)
      | (Some (Inl e), s1) \<Rightarrow> (Some (Inl e), s1)
      | (Some (Inr x), s1) \<Rightarrow> f x s1)"

text \<open>A call that only can fail, one that acquires a resource, one that releases it in any case.\<close>

definition check :: "int option \<Rightarrow> unit prog" where
  "check out = (case out of None \<Rightarrow> ret () | Some e \<Rightarrow> fail (fail_code e))"

definition acquire :: "resource \<Rightarrow> int option \<Rightarrow> unit prog" where
  "acquire r out s =
     (case out of
        None \<Rightarrow> ret () (s\<lparr>ps_set := insert r (ps_set s), ps_log := ps_log s @ [Acquire r]\<rparr>)
      | Some e \<Rightarrow> fail (fail_code e) s)"

definition release :: "resource \<Rightarrow> int option \<Rightarrow> unit prog" where
  "release r out s = check out (s\<lparr>ps_set := ps_set s - {r}, ps_log := ps_log s @ [Release r]\<rparr>)"

text \<open>\<open>if (r) release(r);\<close> for the variables after the label \<open>exit\<close>, in their order.\<close>

fun clean_up :: "resource list \<Rightarrow> pstate \<Rightarrow> pstate" where
  "clean_up [] s = s"
| "clean_up (r # rs) s =
     clean_up rs (if r \<in> ps_set s then s\<lparr>ps_set := ps_set s - {r}, ps_log := ps_log s @ [Release r]\<rparr> else s)"

definition exit_with :: "resource list \<Rightarrow> 'a prog \<Rightarrow> 'a prog" where
  "exit_with rs p s = (case p s of (r, s1) \<Rightarrow> (r, clean_up rs s1))"

section \<open>The three functions\<close>

text \<open>What is looked at behind the label \<open>exit\<close>, in the order of the code.\<close>

definition parse_exit :: "resource list" where
  "parse_exit = [Tmp_fd, Allowlist_fd, Allowlist_buffer]"

definition save_exit :: "resource list" where
  "save_exit = [Save_buffer, Msr_offset, Msr_mask, Save_fid, Msr_fd]"

definition restore_exit :: "resource list" where
  "restore_exit = [Restore_buffer, Restore_fid, Msr_offset, Msr_mask, Msr_fd]"

definition parse_text :: "parse_os \<Rightarrow> scanner \<Rightarrow> string \<Rightarrow> (u64 \<times> u64) list prog" where
  "parse_text os scan content =
     (let allowlist_buffer = cstr content 0; num_msr = count_msr allowlist_buffer
      in bind_prog (acquire Msr_offset (p_malloc_offset os)) (\<lambda>_.
         bind_prog (acquire Msr_mask (p_malloc_mask os)) (\<lambda>_.
         (case parse_lines scan num_msr (Some allowlist_buffer) of
            Parsed es \<Rightarrow> ret es
          | Failed \<Rightarrow> fail (- 1)
          | Stray \<Rightarrow> (\<lambda>s. (None, s))))))"

definition parse_prog :: "parse_os \<Rightarrow> scanner \<Rightarrow> string \<Rightarrow> (u64 \<times> u64) list prog" where
  "parse_prog os scan content =
     exit_with parse_exit
       (bind_prog (acquire Tmp_fd (p_mkstemp os)) (\<lambda>_.
        bind_prog (acquire Allowlist_fd (p_open os)) (\<lambda>_.
        bind_prog (check (p_copy os)) (\<lambda>_.
        bind_prog (release Tmp_fd (p_close_tmp os)) (\<lambda>_.
        bind_prog (release Allowlist_fd (p_close_allowlist os)) (\<lambda>_.
        bind_prog (check (p_stat os)) (\<lambda>_.
        if content = [] then fail (fail_code (p_errno os))
        else bind_prog (acquire Allowlist_buffer (p_malloc os)) (\<lambda>_.
             bind_prog (acquire Tmp_fd (p_open_tmp os)) (\<lambda>_.
             bind_prog (check (p_read_tmp os)) (\<lambda>_.
             bind_prog (release Tmp_fd (p_close os)) (\<lambda>_.
             parse_text os scan content)))))))))))"

text \<open>\<open>if (!msr_offset || !msr_mask)\<close> in the callers.\<close>

definition require_arrays :: "unit prog" where
  "require_arrays s = (if Msr_offset \<in> ps_set s \<and> Msr_mask \<in> ps_set s then ret () s else fail (- 1) s)"

fun save_cpus_prog :: "'m msr_io \<Rightarrow> 'm \<Rightarrow> (u64 \<times> u64) list \<Rightarrow> nat list \<Rightarrow> u64 list prog" where
  "save_cpus_prog io m es [] = ret []"
| "save_cpus_prog io m es (c # cs) =
     bind_prog (acquire Msr_fd (io_open io m c)) (\<lambda>_.
     bind_prog (case save_msrs io m c es of Inl err \<Rightarrow> fail err | Inr row \<Rightarrow> ret row) (\<lambda>row.
     bind_prog (release Msr_fd (io_close io m c)) (\<lambda>_.
     bind_prog (save_cpus_prog io m es cs) (\<lambda>buf. ret (row @ buf)))))"

definition save_prog :: "parse_os \<Rightarrow> scanner \<Rightarrow> string \<Rightarrow> save_os \<Rightarrow> 'm msr_io \<Rightarrow> 'm \<Rightarrow> nat \<Rightarrow> unit prog" where
  "save_prog pos scan content os io m num_cpu =
     exit_with save_exit
       (bind_prog (parse_prog pos scan content) (\<lambda>es.
        bind_prog require_arrays (\<lambda>_.
        bind_prog (acquire Save_buffer (s_malloc os)) (\<lambda>_.
        bind_prog (save_cpus_prog io m es [0..<num_cpu]) (\<lambda>save_buffer.
        bind_prog (acquire Save_fid (s_fopen os)) (\<lambda>_.
        bind_prog (if s_written os < length save_buffer then fail (fail_code (s_errno os)) else ret ()) (\<lambda>_.
        release Save_fid (s_fclose os))))))))"

fun restore_cpus_prog :: "'m msr_io \<Rightarrow> (u64 \<times> u64) list \<Rightarrow> u64 list \<Rightarrow> nat list \<Rightarrow> 'm restore_state \<Rightarrow> unit prog" where
  "restore_cpus_prog io es buf [] st = ret ()"
| "restore_cpus_prog io es buf (c # cs) st =
     bind_prog (acquire Msr_fd (io_open io (rs_machine st) c)) (\<lambda>_.
     let st1 = restore_msrs io c es (take (length es) buf) st
     in bind_prog (release Msr_fd (io_close io (rs_machine st1) c)) (\<lambda>_.
        restore_cpus_prog io es (drop (length es) buf) cs st1))"

definition restore_prog :: "parse_os \<Rightarrow> scanner \<Rightarrow> string \<Rightarrow> restore_os \<Rightarrow> 'm msr_io \<Rightarrow> 'm \<Rightarrow> nat \<Rightarrow> u64 list
    \<Rightarrow> unit prog" where
  "restore_prog pos scan content os io m num_cpu restore_file =
     exit_with restore_exit
       (bind_prog (parse_prog pos scan content) (\<lambda>es.
        bind_prog require_arrays (\<lambda>_.
        bind_prog (check (r_stat_restore os)) (\<lambda>_.
        bind_prog (check (r_stat_allowlist os)) (\<lambda>_.
        bind_prog (if restore_mtime os < allowlist_mtime os then fail (- 1) else ret ()) (\<lambda>_.
        bind_prog (acquire Restore_buffer (r_malloc os)) (\<lambda>_.
        bind_prog (acquire Restore_fid (r_fopen os)) (\<lambda>_.
        bind_prog (if length restore_file \<noteq> length es * num_cpu then fail (fail_code (r_errno os)) else ret ()) (\<lambda>_.
        bind_prog (release Restore_fid (r_fclose os)) (\<lambda>_.
        restore_cpus_prog io es restore_file [0..<num_cpu] (restore_start m)))))))))))"

section \<open>What is held\<close>

text \<open>The resources held after a log, if none is acquired twice and none is released that is not held.\<close>

fun held_after :: "resource set \<Rightarrow> resource_event list \<Rightarrow> resource set option" where
  "held_after R [] = Some R"
| "held_after R (Acquire r # es) = (if r \<in> R then None else held_after (insert r R) es)"
| "held_after R (Release r # es) = (if r \<in> R then held_after (R - {r}) es else None)"

lemma held_after_append:
  "held_after R (es @ fs) = (case held_after R es of None \<Rightarrow> None | Some R1 \<Rightarrow> held_after R1 fs)"
  by (induction R es rule: held_after.induct) auto

text \<open>The variables tell the truth: what is held is what they say.\<close>

definition accounted :: "pstate \<Rightarrow> bool" where
  "accounted s \<longleftrightarrow> held_after {} (ps_log s) = Some (ps_set s)"

definition ended :: "resource set \<Rightarrow> resource set \<Rightarrow> (int + 'a) option \<Rightarrow> pstate \<Rightarrow> bool" where
  "ended B C out s \<longleftrightarrow> accounted s \<and> (case out of Some (Inr _) \<Rightarrow> ps_set s = B | _ \<Rightarrow> ps_set s \<subseteq> C)"

text \<open>
  From a state that holds \<open>A\<close> the program keeps the account; it holds \<open>B\<close> when it succeeds and
  nothing outside of \<open>C\<close> when it fails.
\<close>

definition runs :: "resource set \<Rightarrow> 'a prog \<Rightarrow> resource set \<Rightarrow> resource set \<Rightarrow> bool" where
  "runs A p B C \<longleftrightarrow> (\<forall>s. accounted s \<and> ps_set s = A \<longrightarrow>
     (case p s of (out, s1) \<Rightarrow> ended B C out s1))"

lemma runsD: "runs A p B C \<Longrightarrow> accounted s \<Longrightarrow> ps_set s = A \<Longrightarrow> p s = (out, s1) \<Longrightarrow> ended B C out s1"
  by (auto simp: runs_def)

lemma runs_ret: "runs A (ret x) A C"
  by (simp add: runs_def ret_def ended_def)

lemma runs_fail: "A \<subseteq> C \<Longrightarrow> runs A (fail e) B C"
  by (simp add: runs_def fail_def ended_def)

lemma runs_stray: "A \<subseteq> C \<Longrightarrow> runs A (\<lambda>s. (None, s)) B C"
  by (simp add: runs_def ended_def)

lemma runs_check: "A \<subseteq> C \<Longrightarrow> runs A (check out) A C"
  by (simp add: check_def runs_ret runs_fail split: option.split)

lemma runs_acquire: "r \<notin> A \<Longrightarrow> A \<subseteq> C \<Longrightarrow> runs A (acquire r out) (insert r A) C"
  by (auto simp: runs_def acquire_def ret_def fail_def accounted_def ended_def held_after_append split: option.splits)

lemma runs_release: "r \<in> A \<Longrightarrow> A - {r} \<subseteq> C \<Longrightarrow> runs A (release r out) (A - {r}) C"
  by (auto simp: runs_def release_def check_def ret_def fail_def accounted_def ended_def held_after_append
      split: option.splits)

lemma runs_bind:
  assumes p: "runs A p B C" and f: "\<And>x. runs B (f x) D C"
  shows "runs A (bind_prog p f) D C"
  unfolding runs_def
proof (intro allI impI)
  fix s
  assume s: "accounted s \<and> ps_set s = A"
  obtain out s1 where r: "p s = (out, s1)" by (cases "p s")
  have e: "ended B C out s1" using runsD [OF p _ _ r] s by simp
  show "case bind_prog p f s of (out, s1) \<Rightarrow> ended D C out s1"
  proof (cases "\<exists>x. out = Some (Inr x)")
    case True
    then obtain x where "out = Some (Inr x)" by blast
    with e f [of x] show ?thesis by (simp add: bind_prog_def r ended_def runs_def)
  next
    case False
    with e show ?thesis by (auto simp: bind_prog_def r ended_def split: option.splits sum.splits)
  qed
qed

lemma clean_up_held:
  "accounted s \<Longrightarrow> accounted (clean_up rs s) \<and> ps_set (clean_up rs s) = ps_set s - set rs"
  by (induction rs s rule: clean_up.induct) (auto simp: accounted_def held_after_append)

lemma runs_exit: "runs A p B C \<Longrightarrow> runs A (exit_with rs p) (B - set rs) (C - set rs)"
  using clean_up_held
  by (fastforce simp: runs_def exit_with_def case_prod_beta ended_def split: option.splits sum.splits)

lemma runs_weaken: "runs A p B C \<Longrightarrow> B = B' \<Longrightarrow> C \<subseteq> C' \<Longrightarrow> runs A p B' C'"
  by (fastforce simp: runs_def ended_def split: option.splits sum.splits)

lemma runs_arrays: "{Msr_offset, Msr_mask} \<subseteq> A \<Longrightarrow> runs A require_arrays A C"
  by (simp add: runs_def require_arrays_def ret_def ended_def)

lemma runs_if: "(b \<Longrightarrow> runs A p B C) \<Longrightarrow> (\<not> b \<Longrightarrow> runs A q B C) \<Longrightarrow> runs A (if b then p else q) B C"
  by simp

lemmas runs_rules = runs_bind runs_acquire runs_release runs_check runs_arrays runs_if runs_ret runs_fail runs_stray

section \<open>The three functions keep the account\<close>

lemma parse_text_runs:
  assumes "A \<inter> {Msr_offset, Msr_mask} = {}"
  shows "runs A (parse_text os scan content) ({Msr_mask, Msr_offset} \<union> A) ({Msr_mask, Msr_offset} \<union> A)"
proof -
  have "runs (insert Msr_mask (insert Msr_offset A))
      (case r of Parsed es \<Rightarrow> ret es | Failed \<Rightarrow> fail (- 1) | Stray \<Rightarrow> (\<lambda>s. (None, s)))
      ({Msr_mask, Msr_offset} \<union> A) ({Msr_mask, Msr_offset} \<union> A)" for r :: "(u64 \<times> u64) list scan_result"
    by (cases r) (auto intro: runs_weaken [OF runs_ret] runs_fail runs_stray)
  with assms show ?thesis
    unfolding parse_text_def Let_def
    by (intro runs_bind [OF runs_acquire] runs_bind [OF runs_acquire]) auto
qed

lemma parse_prog_runs: "runs {} (parse_prog os scan content) {Msr_mask, Msr_offset} {Msr_mask, Msr_offset}"
proof -
  let ?B = "{Allowlist_buffer, Msr_mask, Msr_offset}"
  let ?C = "{Allowlist_buffer, Allowlist_fd, Msr_mask, Msr_offset, Tmp_fd}"
  have t: "runs {Allowlist_buffer} (parse_text os scan content) ?B ?C"
    by (rule runs_weaken [OF parse_text_runs]) auto
  show ?thesis
    unfolding parse_prog_def parse_exit_def
    by (rule runs_weaken [OF runs_exit [where C = ?C and B = ?B]])
      (rule runs_rules t | simp add: insert_Diff_if insert_commute)+
qed

lemma runs_closed: "r \<notin> A \<Longrightarrow> A \<subseteq> C \<Longrightarrow> runs (insert r A) (release r out) A C"
  using runs_release [of r "insert r A" C out] by simp

lemma save_cpus_prog_runs:
  "Msr_fd \<notin> A \<Longrightarrow> insert Msr_fd A \<subseteq> C \<Longrightarrow> runs A (save_cpus_prog io m es cs) A C"
proof (induction cs)
  case Nil
  then show ?case by (simp add: runs_ret)
next
  case (Cons c cs)
  then show ?case
    by (auto intro!: runs_bind [OF runs_acquire] runs_bind [OF _ runs_bind [OF runs_closed]] runs_bind [OF Cons.IH]
        runs_ret runs_fail split: sum.split)
qed

lemma restore_cpus_prog_runs:
  "Msr_fd \<notin> A \<Longrightarrow> insert Msr_fd A \<subseteq> C \<Longrightarrow> runs A (restore_cpus_prog io es buf cs st) A C"
proof (induction cs arbitrary: buf st)
  case Nil
  then show ?case by (simp add: runs_ret)
next
  case (Cons c cs)
  then show ?case
    by (auto simp: Let_def intro!: runs_bind [OF runs_acquire] runs_bind [OF runs_closed] Cons.IH)
qed

lemma save_prog_runs: "runs {} (save_prog pos scan content os io m num_cpu) {} {}"
proof -
  let ?B = "{Msr_mask, Msr_offset, Save_buffer}"
  let ?C = "{Msr_fd, Msr_mask, Msr_offset, Save_buffer, Save_fid}"
  have p: "runs {} (parse_prog pos scan content) {Msr_mask, Msr_offset} ?C"
    by (rule runs_weaken [OF parse_prog_runs]) auto
  have c: "runs {Msr_mask, Msr_offset, Save_buffer, Save_fid} (release Save_fid out) ?B ?C" for out
    by (rule runs_weaken [OF runs_release [where C = ?C]]) auto
  show ?thesis
    unfolding save_prog_def save_exit_def
    by (rule runs_weaken [OF runs_exit [where C = ?C and B = ?B]])
      (rule c runs_bind [OF p] runs_bind [OF save_cpus_prog_runs] runs_rules | simp add: insert_Diff_if insert_commute)+
qed

lemma restore_prog_runs: "runs {} (restore_prog pos scan content os io m num_cpu restore_file) {} {}"
proof -
  let ?B = "{Msr_mask, Msr_offset, Restore_buffer}"
  let ?C = "{Msr_fd, Msr_mask, Msr_offset, Restore_buffer, Restore_fid}"
  have p: "runs {} (parse_prog pos scan content) {Msr_mask, Msr_offset} ?C"
    by (rule runs_weaken [OF parse_prog_runs]) auto
  show ?thesis
    unfolding restore_prog_def restore_exit_def
    by (rule runs_weaken [OF runs_exit [where C = ?C and B = ?B]])
      (rule runs_bind [OF p] restore_cpus_prog_runs runs_rules | simp add: insert_Diff_if insert_commute)+
qed

section \<open>The three functions return what their models return\<close>

lemma fst_bind [simp]:
  "fst (bind_prog p f s) =
     (case fst (p s) of None \<Rightarrow> None | Some (Inl e) \<Rightarrow> Some (Inl e) | Some (Inr x) \<Rightarrow> fst (f x (snd (p s))))"
  by (auto simp: bind_prog_def case_prod_beta split: option.splits sum.splits)

lemma fst_steps [simp]:
  "fst (ret x s) = Some (Inr x)" "fst (fail e s) = Some (Inl e)"
  "fst (check out s) = Some (case out of None \<Rightarrow> Inr () | Some e \<Rightarrow> Inl (fail_code e))"
  "fst (acquire r out s) = Some (case out of None \<Rightarrow> Inr () | Some e \<Rightarrow> Inl (fail_code e))"
  "fst (release r out s) = Some (case out of None \<Rightarrow> Inr () | Some e \<Rightarrow> Inl (fail_code e))"
  "fst (exit_with rs p s) = fst (p s)"
  by (simp_all add: ret_def fail_def check_def acquire_def release_def exit_with_def case_prod_beta split: option.split)

lemma parse_text_result:
  "fst (parse_text os scan content s) =
     (case first_failure [p_malloc_offset os, p_malloc_mask os] of
        Some err \<Rightarrow> Some (Inl err)
      | None \<Rightarrow>
          (case parse_lines scan (count_msr (cstr content 0)) (Some (cstr content 0)) of
             Parsed es \<Rightarrow> Some (Inr es) | Failed \<Rightarrow> Some (Inl (- 1)) | Stray \<Rightarrow> None))"
  by (simp add: parse_text_def Let_def split: option.split scan_result.split)

lemma parse_prog_result: "fst (parse_prog os scan content s) = msr_parse_allowlist os scan content"
  by (simp add: parse_prog_def msr_parse_allowlist_def parse_text_result Let_def split: option.split if_split)

lemma save_cpus_prog_result: "fst (save_cpus_prog io m es cs s) = Some (save_cpus io m es cs)"
  by (induction cs arbitrary: s) (auto split: option.split sum.split)

text \<open>What the caller sees: the value of \<open>err\<close>.\<close>

fun exit_code :: "(int + 'a) option \<Rightarrow> int option" where
  "exit_code None = None"
| "exit_code (Some (Inl e)) = Some e"
| "exit_code (Some (Inr x)) = Some 0"

lemma restore_cpus_prog_result:
  "exit_code (fst (restore_cpus_prog io es buf cs st s)) = Some (fst (restore_cpus io es buf cs st))"
  by (induction cs arbitrary: buf st s) (auto simp: Let_def split: option.split)

text \<open>The functions start with -1 and null pointers; after the parser has succeeded the arrays are there.\<close>

definition prog_start :: pstate where
  "prog_start = \<lparr>ps_set = {}, ps_log = []\<rparr>"

lemma prog_start_accounted: "accounted prog_start" "ps_set prog_start = {}"
  by (simp_all add: prog_start_def accounted_def)

lemma arrays_there:
  assumes "msr_parse_allowlist pos scan content = Some (Inr es)"
  shows "fst (require_arrays (snd (parse_prog pos scan content prog_start))) = Some (Inr ())"
proof -
  obtain s1 where p: "parse_prog pos scan content prog_start = (Some (Inr es), s1)"
    using assms parse_prog_result [of pos scan content prog_start] by (metis prod.collapse)
  from runsD [OF parse_prog_runs prog_start_accounted p] show ?thesis
    by (simp add: p ended_def require_arrays_def)
qed

lemma save_prog_result:
  "exit_code (fst (save_prog pos scan content os io m n prog_start)) =
     map_option fst (msr_save pos scan content os io m n)"
  using arrays_there [of pos scan content]
  by (simp add: save_prog_def msr_save_def save_state_def parse_prog_result save_cpus_prog_result
      split: option.split sum.split if_split)

lemma restore_prog_result:
  "exit_code (fst (restore_prog pos scan content os io m n restore_file prog_start)) =
     map_option fst (msr_restore pos scan content os io m n restore_file)"
  using arrays_there [of pos scan content]
  by (simp add: restore_prog_def msr_restore_def restore_saved_def parse_prog_result restore_cpus_prog_result Let_def
      split: option.split sum.split if_split)

lemma all_released:
  assumes "runs {} p {} {}"
  shows "held_after {} (ps_log (snd (p prog_start))) = Some {}"
  using runsD [OF assms prog_start_accounted, of "fst (p prog_start)" "snd (p prog_start)"]
  by (simp add: ended_def accounted_def split: option.splits sum.splits)

section \<open>Property\<close>

text \<open>
  C22: the files and buffers of \<open>msr_save\<close> and \<open>msr_restore\<close>. Whatever calls of the C library
  fail, and whatever is in the files, each descriptor, stream and buffer that was acquired has
  been released exactly once when the function returns, on the early exits by the code behind
  the label \<open>exit\<close>; nothing is released that is not held. The programs that show this return
  the codes of the functions that the other properties are about.
\<close>

theorem files_and_buffers_released:
  "held_after {} (ps_log (snd (save_prog pos scan content sos io m n prog_start))) = Some {}
    \<and> exit_code (fst (save_prog pos scan content sos io m n prog_start)) =
        map_option fst (msr_save pos scan content sos io m n)
    \<and> held_after {} (ps_log (snd (restore_prog pos scan content ros io m n restore_file prog_start))) = Some {}
    \<and> exit_code (fst (restore_prog pos scan content ros io m n restore_file prog_start)) =
        map_option fst (msr_restore pos scan content ros io m n restore_file)"
  by (simp only: all_released [OF save_prog_runs] all_released [OF restore_prog_runs] save_prog_result
      restore_prog_result simp_thms)

end
