(* ===== verification/Module_Params.thy ===== *)
theory Module_Params
  imports Module_Life
begin

text \<open>
  The major numbers as parameters of the module. \<open>msr_entry.c\<close> declares them with the
  permission \<open>S_IWUSR\<close>, so the administrator can write them while the module is loaded; the
  variables that \<open>msr_exit\<close> and the hotplug callbacks use are the same ones. The other theories
  let the parameters be as \<open>msr_init\<close> left them; here they change.
\<close>

section \<open>Writing a parameter\<close>

datatype param = Mdev_msr_safe | Mdev_msr_allowlist | Mdev_msr_batch | Mdev_msr_version

fun param_value :: "param \<Rightarrow> 'k msr_module \<Rightarrow> nat" where
  "param_value Mdev_msr_safe m = mdev_msr_safe m"
| "param_value Mdev_msr_allowlist m = mdev_msr_allowlist m"
| "param_value Mdev_msr_batch m = mdev_msr_batch m"
| "param_value Mdev_msr_version m = mdev_msr_version m"

fun set_param :: "param \<Rightarrow> nat \<Rightarrow> 'k msr_module \<Rightarrow> 'k msr_module" where
  "set_param Mdev_msr_safe n m = m\<lparr>mdev_msr_safe := n\<rparr>"
| "set_param Mdev_msr_allowlist n m = m\<lparr>mdev_msr_allowlist := n\<rparr>"
| "set_param Mdev_msr_batch n m = m\<lparr>mdev_msr_batch := n\<rparr>"
| "set_param Mdev_msr_version n m = m\<lparr>mdev_msr_version := n\<rparr>"

section \<open>What a clean-up with another major leaves alone\<close>

text \<open>\<open>unregister_chrdev\<close> does not touch the regions of other majors, whatever is registered.\<close>

definition unregister_local :: "'k kernel_api \<Rightarrow> bool" where
  "unregister_local K \<longleftrightarrow> (\<forall>k major len nm. \<exists>f. reg K (unregister_chrdev K major len nm k) = (reg K k)\<lparr>chrdevs := f\<rparr>
     \<and> (\<forall>x. x \<noteq> major \<longrightarrow> f x = chrdevs (reg K k) x))"

text \<open>
  The region and the nodes of the major \<open>x\<close> are as before, and of the classes at most those of
  \<open>D\<close> are gone.
\<close>

definition leaves :: "'k kernel_api \<Rightarrow> nat \<Rightarrow> string set \<Rightarrow> 'k \<Rightarrow> 'k \<Rightarrow> bool" where
  "leaves K x D k k' \<longleftrightarrow> chrdevs (reg K k') x = chrdevs (reg K k) x
     \<and> (\<forall>cls c. nodes (reg K k') (cls, x, c) = nodes (reg K k) (cls, x, c))
     \<and> classes (reg K k) - D \<subseteq> classes (reg K k')"

lemma leaves_refl: "leaves K x D k k"
  by (auto simp: leaves_def)

lemma leaves_trans: "leaves K x D k k1 \<Longrightarrow> leaves K x E k1 k2 \<Longrightarrow> leaves K x (D \<union> E) k k2"
  unfolding leaves_def by (simp, blast)

lemma leaves_classes: "leaves K x D k k' \<Longrightarrow> cls \<in> classes (reg K k) \<Longrightarrow> cls \<notin> D \<Longrightarrow> cls \<in> classes (reg K k')"
  unfolding leaves_def by blast

lemma leaves_device: "kernel_ok K \<Longrightarrow> ma \<noteq> x \<Longrightarrow> leaves K x {} k (device_destroy K cls ma mi k)"
  by (simp add: leaves_def kernel_device(3))

lemma leaves_class:
  "kernel_ok K \<Longrightarrow> cls \<in> classes (reg K k) \<Longrightarrow> leaves K x {cls} k (class_destroy K cls k)"
  by (auto simp: leaves_def kernel_class(3))

lemma leaves_unregister:
  assumes "unregister_local K" and "major \<noteq> x"
  shows "leaves K x {} k (unregister_chrdev K major len nm k)"
proof -
  obtain f where "reg K (unregister_chrdev K major len nm k) = (reg K k)\<lparr>chrdevs := f\<rparr>"
    "\<forall>y. y \<noteq> major \<longrightarrow> f y = chrdevs (reg K k) y"
    using assms(1) unfolding unregister_local_def by blast
  with assms(2) show ?thesis by (simp add: leaves_def)
qed

lemma leaves_cleanup:
  assumes "kernel_ok K" and "unregister_local K" and "cdev_up nm c" and "dn_class nm \<in> classes (reg K k)"
    and "major \<noteq> x"
  shows "leaves K x {dn_class nm} k (snd (chrdev_cleanup K nm major (c, k)))"
proof -
  let ?k1 = "device_destroy K (dn_class nm) major 0 k"
  have d: "leaves K x {} k ?k1" using leaves_device [OF assms(1,5)] .
  have c: "leaves K x {dn_class nm} ?k1 (class_destroy K (dn_class nm) ?k1)"
    using leaves_class [OF assms(1)] leaves_classes [OF d assms(4)] by simp
  show ?thesis
    using leaves_trans [OF leaves_trans [OF d c] leaves_unregister [OF assms(2,5)]] assms(3)
    by (simp add: chrdev_cleanup_def cdev_up_def)
qed

lemma leaves_destroy_online:
  assumes "kernel_ok K"
  shows "mdev_msr_safe m \<noteq> x \<Longrightarrow> kern_only m (destroy_online K cs m) \<and> leaves K x {} (kern m) (kern (destroy_online K cs m))"
proof (induction cs arbitrary: m)
  case Nil
  then show ?case by (simp add: leaves_refl kern_only_refl)
next
  case (Cons c cs)
  have o: "kern_only m (msr_device_destroy K c m)"
    by (auto simp: msr_device_destroy_def kern_only_def)
  have d: "leaves K x {} (kern m) (kern (msr_device_destroy K c m))"
    using leaves_device [OF assms Cons.prems] by (simp add: msr_device_destroy_def)
  have "mdev_msr_safe (msr_device_destroy K c m) \<noteq> x" using Cons.prems by (simp add: msr_device_destroy_def)
  from Cons.IH [OF this] show ?case using leaves_trans [OF d] kern_only_trans [OF o] by simp
qed

lemma leaves_run_down:
  assumes "kernel_ok K" and "mdev_msr_safe m \<noteq> x"
  shows "leaves K x {} k (run_down (node_down K m) cs k)"
proof (induction cs arbitrary: k)
  case Nil
  then show ?case by (simp add: leaves_refl)
next
  case (Cons c cs)
  have "leaves K x {} k (node_down K m c k)"
    using leaves_device [OF assms] by (simp add: node_down_def msr_device_destroy_def)
  from leaves_trans [OF this Cons.IH] show ?case by simp
qed

text \<open>The three drivers, one after the other.\<close>

definition classes_there :: "'k kernel_api \<Rightarrow> string set \<Rightarrow> 'k \<Rightarrow> bool" where
  "classes_there K D k \<longleftrightarrow> D \<subseteq> classes (reg K k)"

lemma classes_there_leaves: "classes_there K C k \<Longrightarrow> leaves K x D k k' \<Longrightarrow> classes_there K (C - D) k'"
  unfolding leaves_def classes_there_def by blast

lemma call_cleanup_kern:
  "kern (call_allowlist_cleanup K m) =
     snd (chrdev_cleanup K allowlist_names (mdev_msr_allowlist m) (snd (md_allowlist m), kern m))"
  "kern (call_batch_cleanup K m) = snd (chrdev_cleanup K batch_names (mdev_msr_batch m) (md_batch m, kern m))"
  "kern (call_version_cleanup K m) = snd (chrdev_cleanup K version_names (mdev_msr_version m) (md_version m, kern m))"
  by (simp_all add: call_allowlist_cleanup_def call_batch_cleanup_def call_version_cleanup_def
      msr_allowlist_cleanup_def msrbatch_cleanup_def msr_version_cleanup_def Let_def case_prod_beta)

lemma call_cleanup_others:
  "md_batch (call_allowlist_cleanup K m) = md_batch m" "md_version (call_allowlist_cleanup K m) = md_version m"
  "mdev_msr_batch (call_allowlist_cleanup K m) = mdev_msr_batch m"
  "mdev_msr_version (call_allowlist_cleanup K m) = mdev_msr_version m"
  "md_version (call_batch_cleanup K m) = md_version m" "mdev_msr_version (call_batch_cleanup K m) = mdev_msr_version m"
  by (simp_all add: call_allowlist_cleanup_def call_batch_cleanup_def Let_def case_prod_beta)

lemma leaves_drivers:
  assumes K: "kernel_ok K" "unregister_local K"
    and up: "cdev_up batch_names (md_batch m)" "al_up (md_allowlist m)" "cdev_up version_names (md_version m)"
    and cls: "classes_there K {''msr_batch'', ''msr_allowlist'', ''msr_safe_version''} (kern m)"
    and x: "\<forall>p. param_value p m \<noteq> x"
  shows "\<exists>D. leaves K x D (kern m) (kern (call_version_cleanup K (call_batch_cleanup K (call_allowlist_cleanup K m))))"
proof -
  let ?m1 = "call_allowlist_cleanup K m" and ?m2 = "call_batch_cleanup K (call_allowlist_cleanup K m)"
  have v: "mdev_msr_allowlist m \<noteq> x" "mdev_msr_batch m \<noteq> x" "mdev_msr_version m \<noteq> x"
    using x [rule_format, of Mdev_msr_allowlist] x [rule_format, of Mdev_msr_batch]
      x [rule_format, of Mdev_msr_version] by simp_all
  have a: "leaves K x {''msr_allowlist''} (kern m) (kern ?m1)"
    using leaves_cleanup [OF K, of allowlist_names] up(2) cls v(1)
    by (simp add: call_cleanup_kern al_up_def classes_there_def allowlist_names_def)
  note c1 = classes_there_leaves [OF cls a]
  have "''msr_batch'' \<in> classes (reg K (kern ?m1))" using c1 by (auto simp: classes_there_def)
  then have b: "leaves K x {''msr_batch''} (kern ?m1) (kern ?m2)"
    using leaves_cleanup [OF K, of batch_names] up(1) v(2)
    by (simp add: call_cleanup_kern(2) call_cleanup_others batch_names_def)
  note c2 = classes_there_leaves [OF c1 b]
  have "''msr_safe_version'' \<in> classes (reg K (kern ?m2))" using c2 by (auto simp: classes_there_def)
  then have "leaves K x {''msr_safe_version''} (kern ?m2) (kern (call_version_cleanup K ?m2))"
    using leaves_cleanup [OF K, of version_names] up(3) v(3)
    by (simp add: call_cleanup_kern(3) call_cleanup_others version_names_def)
  from leaves_trans [OF leaves_trans [OF a b] this] show ?thesis by blast
qed

text \<open>The whole of \<open>msr_exit\<close>: the nodes of the CPUs, in the two variants, and the rest.\<close>

lemma leaves_cpus:
  assumes "kernel_ok K" and "mdev_msr_safe m \<noteq> x"
  obtains k1 where "leaves K x {} (kern m) k1"
    and "v < KERNEL_VERSION 4 10 0 \<longrightarrow> destroy_online K (online_cpus K (kern m)) m = m\<lparr>kern := k1\<rparr>"
    and "\<not> v < KERNEL_VERSION 4 10 0 \<longrightarrow> cpuhp_remove_state K (cpuhp_msr_state m) (node_down K m) (kern m) = k1"
proof (cases "v < KERNEL_VERSION 4 10 0")
  case True
  have d: "kern_only m (destroy_online K (online_cpus K (kern m)) m)"
    "leaves K x {} (kern m) (kern (destroy_online K (online_cpus K (kern m)) m))"
    using leaves_destroy_online [OF assms] by blast+
  then obtain k1 where "destroy_online K (online_cpus K (kern m)) m = m\<lparr>kern := k1\<rparr>" by (auto simp: kern_only_def)
  with d True show ?thesis by (intro that [of k1]) simp_all
next
  case False
  let ?k1 = "cpuhp_remove_state K (cpuhp_msr_state m) (node_down K m) (kern m)"
  obtain k0 where "reg K k0 = reg K (kern m)"
    and "reg K ?k1 = (reg K (run_down (node_down K m) (cpus (reg K (kern m))) k0))\<lparr>hotplug := False\<rparr>"
    using kernel_hotplug(6) [OF assms(1)] by metis
  with leaves_run_down [OF assms, of k0 "cpus (reg K (kern m))"] have "leaves K x {} (kern m) ?k1"
    by (simp add: leaves_def)
  with False show ?thesis by (intro that [of ?k1]) simp_all
qed

lemma leaves_exit:
  assumes K: "kernel_ok K" "unregister_local K"
    and up: "cdev_up batch_names (md_batch m)" "al_up (md_allowlist m)" "cdev_up version_names (md_version m)"
    and c: "msr_class m = Some ''msr_safe''"
    and cls: "classes_there K {''msr_safe'', ''msr_batch'', ''msr_allowlist'', ''msr_safe_version''} (kern m)"
    and x: "\<forall>p. param_value p m \<noteq> x"
  shows "\<exists>D. leaves K x D (kern m) (kern (msr_exit K v m))"
proof -
  have sx: "mdev_msr_safe m \<noteq> x" using x [rule_format, of Mdev_msr_safe] by simp
  obtain k1 where l1: "leaves K x {} (kern m) k1"
    and h: "v < KERNEL_VERSION 4 10 0 \<longrightarrow> destroy_online K (online_cpus K (kern m)) m = m\<lparr>kern := k1\<rparr>"
    "\<not> v < KERNEL_VERSION 4 10 0 \<longrightarrow> cpuhp_remove_state K (cpuhp_msr_state m) (node_down K m) (kern m) = k1"
    by (rule leaves_cpus [OF K(1) sx, where v = v]) (rule that)
  let ?k2 = "class_destroy K ''msr_safe'' k1"
  let ?k3 = "unregister_chrdev K (mdev_msr_safe m) (num_possible_cpus K) ''cpu/msr_safe'' ?k2"
  define k4 where "k4 = (if v < KERNEL_VERSION 4 10 0 then unregister_hotcpu_notifier K ?k3 else ?k3)"
  have "''msr_safe'' \<in> classes (reg K k1)" using classes_there_leaves [OF cls l1] by (simp add: classes_there_def)
  note l2 = leaves_trans [OF leaves_trans [OF l1 leaves_class [OF K(1) this]] leaves_unregister [OF K(2) sx]]
  then have l4: "leaves K x {''msr_safe''} (kern m) k4"
    by (simp add: k4_def leaves_def kernel_hotplug(3) [OF K(1)])
  have e: "msr_exit K v m = call_version_cleanup K (call_batch_cleanup K (call_allowlist_cleanup K (m\<lparr>kern := k4\<rparr>)))"
    using c by (simp add: msr_exit_def Let_def h k4_def)
  have x4: "\<forall>p. param_value p (m\<lparr>kern := k4\<rparr>) \<noteq> x"
  proof
    fix p
    show "param_value p (m\<lparr>kern := k4\<rparr>) \<noteq> x" using x [rule_format, of p] by (cases p) simp_all
  qed
  have "classes_there K {''msr_batch'', ''msr_allowlist'', ''msr_safe_version''} (kern (m\<lparr>kern := k4\<rparr>))"
    using classes_there_leaves [OF cls l4] by (auto simp: classes_there_def)
  from leaves_drivers [OF K _ _ _ this x4] up obtain D where "leaves K x D k4 (kern (msr_exit K v m))"
    unfolding e by auto
  from leaves_trans [OF l4 this] show ?thesis by blast
qed

section \<open>Property\<close>

lemma module_up_majors:
  assumes "module_up K S m r"
  shows "distinct [mdev_msr_safe m, mdev_msr_allowlist m, mdev_msr_batch m, mdev_msr_version m]"
    and "chrdevs r (param_value p m) = None"
proof -
  have "drivers_up m r" "safe_fresh m r" using assms by (simp_all add: module_up_def)
  then have "fresh_dev batch_names (mdev_msr_batch m) r"
    "fresh_dev allowlist_names (mdev_msr_allowlist m) (add_dev batch_names (mdev_msr_batch m) r)"
    "fresh_dev version_names (mdev_msr_version m)
      (add_dev allowlist_names (mdev_msr_allowlist m) (add_dev batch_names (mdev_msr_batch m) r))"
    "chrdevs (base3 m r) (mdev_msr_safe m) = None"
    by (simp_all add: drivers_up_def safe_fresh_def)
  note f = this [unfolded fresh_dev_def base3_def add_dev_def, simplified]
  show "distinct [mdev_msr_safe m, mdev_msr_allowlist m, mdev_msr_batch m, mdev_msr_version m]"
    using f by (auto split: if_splits)
  show "chrdevs r (param_value p m) = None"
    using f by (cases p) (auto split: if_splits)
qed

lemma param_value_distinct:
  "distinct [mdev_msr_safe m, mdev_msr_allowlist m, mdev_msr_batch m, mdev_msr_version m] \<Longrightarrow> p \<noteq> q \<Longrightarrow>
     param_value p m \<noteq> param_value q m"
  by (cases p; cases q) auto

lemma module_up_registered:
  assumes "module_up K S m r"
  shows "chrdevs (reg K (kern m)) (param_value p m) \<noteq> None"
    and "classes_there K {''msr_safe'', ''msr_batch'', ''msr_allowlist'', ''msr_safe_version''} (kern m)"
proof -
  have r: "reg K (kern m)
      = cpu_nodes (mdev_msr_safe m) S (add_safe (num_possible_cpus K) (mdev_msr_safe m) (base3 m r))"
    using module_up_kern [OF assms] by simp
  show "chrdevs (reg K (kern m)) (param_value p m) \<noteq> None"
    by (cases p) (simp_all add: r cpu_nodes_def add_safe_def base3_def add_dev_def)
  show "classes_there K {''msr_safe'', ''msr_batch'', ''msr_allowlist'', ''msr_safe_version''} (kern m)"
    by (simp add: classes_there_def r cpu_nodes_def add_safe_def base3_def add_dev_def batch_names_def
        allowlist_names_def version_names_def)
qed

lemma set_param_values:
  "param_value q (set_param p n m) = (if q = p then n else param_value q m)"
  by (cases p; cases q) simp_all

lemma set_param_rest [simp]:
  "kern (set_param p n m) = kern m" "msr_class (set_param p n m) = msr_class m"
  "md_batch (set_param p n m) = md_batch m" "md_allowlist (set_param p n m) = md_allowlist m"
  "md_version (set_param p n m) = md_version m"
  by (cases p; simp)+

text \<open>A CPU that comes up after the parameter was written gets a node with the written number.\<close>

lemma new_node_written_major:
  assumes "kernel_ok K" and "hotplug_up K v c (set_param Mdev_msr_safe n m) = (None, m1)"
  shows "nodes (reg K (kern m1)) (the (msr_class m), n, c) = Some (cpu_node_name c)"
proof -
  have "msr_device_create K c (set_param Mdev_msr_safe n m) = (None, m1)"
    using assms(2) by (auto simp: hotplug_up_def msr_class_cpu_callback_def split: if_splits)
  then show ?thesis
    using kernel_device(2) [OF assms(1)] by (auto simp: msr_device_create_def split: prod.splits)
qed

text \<open>
  C37: unloading does not clean up after a parameter was written. When one of the four major
  numbers is changed while the module is loaded, \<open>msr_exit\<close> gives the kernel the new number
  back: the region under the number that \<open>msr_init\<close> had registered remains, with all its nodes,
  and the handlers behind it are in a module that is gone.
\<close>

theorem changed_major_leaks:
  assumes "kernel_ok K" and "unregister_local K" and "reg_wf (reg K (kern m0))" and "module_idle m0"
    and "loaded K v m0 m" and "n \<noteq> param_value p m"
  shows "chrdevs (reg K (kern m0)) (param_value p m) = None
    \<and> chrdevs (reg K (kern (msr_exit K v (set_param p n m)))) (param_value p m) \<noteq> None
    \<and> nodes (reg K (kern (msr_exit K v (set_param p n m)))) (cls, param_value p m, c)
        = nodes (reg K (kern m)) (cls, param_value p m, c)"
proof -
  from loaded_inv [OF assms(5,1,3,4)] obtain S
    where up: "module_up K S m ((reg K (kern m0))\<lparr>hotplug := True, cpus := cpus (reg K (kern m))\<rparr>)"
    by (rule hot_invE)
  have x: "\<forall>q. param_value q (set_param p n m) \<noteq> param_value p m"
    using assms(6) param_value_distinct [OF module_up_majors(1) [OF up]] by (auto simp: set_param_values)
  have "\<exists>D. leaves K (param_value p m) D (kern m) (kern (msr_exit K v (set_param p n m)))"
    using leaves_exit [OF assms(1,2) _ _ _ _ _ x] up module_up_registered(2) [OF up]
    by (simp add: module_up_def drivers_up_def nodes_are_def)
  then show ?thesis
    using module_up_majors(2) [OF up, of p] module_up_registered(1) [OF up, of p] by (auto simp: leaves_def)
qed

theorem changed_major_leaks_witness:
  "\<exists>m. loaded all_nodes (KERNEL_VERSION 5 14 0) (sample_module 243) m
    \<and> chrdevs (kern (msr_exit all_nodes (KERNEL_VERSION 5 14 0) (set_param Mdev_msr_batch 77 m))) 242 \<noteq> None"
proof -
  obtain m where i: "msr_init all_nodes (KERNEL_VERSION 5 14 0) (sample_module 243) = (None, m)"
    using sample_loads by blast
  have l: "loaded all_nodes (KERNEL_VERSION 5 14 0) (sample_module 243) m" using i by (rule loaded_init)
  have v: "param_value Mdev_msr_batch m = 242" using i by (auto simp: module_eval)
  have u: "unregister_local all_nodes" by (auto simp: unregister_local_def plain_kernel_def)
  from changed_major_leaks [OF plain_kernel_ok u sample_module_ok l, of 77 Mdev_msr_batch] v l
  show ?thesis by auto
qed

end
