(* ===== verification/Spec2Isabelle.thy ===== *)
theory Spec2Isabelle
  imports Allowlist_Race Msr_Atomic Msr_Progress Device_Nodes Example Msrsave_Test Msrsave_Tools Msrsave_Resources Module_Params
begin

text \<open>
  \<^bold>\<open>msr-safe: the kernel module and its tools\<close>

  msr-safe is a Linux kernel module that lets user programs access model-specific registers
  (MSRs) as far as an allowlist permits: a register can be read if the list names it, and of
  a register only the bits of its write mask can be written. The list is loaded through
  \<open>/dev/cpu/msr_allowlist\<close>; registers are accessed one at a time through
  \<open>/dev/cpu/N/msr_safe\<close> or in batches across CPUs through \<open>/dev/cpu/msr_batch\<close>;
  \<open>/dev/cpu/msr_safe_version\<close> tells the version. The program \<open>msrsave\<close> and a plugin for the
  SLURM resource manager save and restore the listed registers through these devices.

  \<^bold>\<open>Theories and sources\<close>

  \<^item> \<open>Msr_Prelude\<close>: machine types, errno values, text scanning, the formats of \<open>sprintf\<close>, and
    the locale \<open>masked_update\<close> of the expression by which three files replace the bits of a
    mask (interpreted for \<open>msr_write\<close> and for \<open>__msr_safe_batch\<close>).
  \<^item> \<open>Allowlist_Parse\<close>: \<open>parse_next_allowlist_entry\<close> and the first pass of \<open>write_allowlist\<close>
    (msr_allowlist.c), on a text with an explicit NUL and with the NUL characters that the
    parser writes into it. \<open>Allowlist_Spec\<close>: a parser on strings, and the lemmas that the
    former implements it. \<open>Klib_Instance\<close>: an instance of the string functions of the kernel
    for the witnesses.
  \<^item> \<open>Allowlist_Table\<close>: the static variables of msr_allowlist.c, the entry array with its count
    and the hash table, and the functions on them; the invariants \<open>tab_inv\<close> and \<open>al_inv\<close>; the
    abstraction \<open>al_map\<close> to a finite map; the locales \<open>filling_table\<close> (what the second pass
    needs of the table) and \<open>msr_policy\<close> (what the readers of the table rely on), both
    interpreted on the model.
  \<^item> \<open>Allowlist_Dev\<close>: \<open>write_allowlist\<close> and \<open>read_allowlist\<close>. \<open>Allowlist_Roundtrip\<close>: the text
    that a client reads from the device, and that it loads again.
  \<^item> \<open>Allowlist_Race\<close>: the two halves of \<open>msr_allowlist_writemask\<close>, which locks the mutex for
    the search only, over a heap of entry arrays, interleaved with loads of the allowlist.
  \<^item> \<open>Msr_Entry\<close>: the per-CPU device of msr_entry.c.
  \<^item> \<open>Msr_Smp\<close>: msr-smp.c, once as the sequence of CPUs that \<open>on_each_cpu_mask\<close> visits and once
    as a step relation in which the CPUs interleave.
  \<^item> \<open>Msr_Batch\<close>: the ioctl of msr_batch.c, whose look-ups can each meet another allowlist.
  \<^item> \<open>Step_System\<close>: the locales \<open>step_system\<close> and \<open>terminating_system\<close>, a step relation with an
    invariant and one whose runs also end; interpreted in \<open>Msr_Smp\<close>, \<open>Msr_System\<close>,
    \<open>Allowlist_Race\<close> and \<open>Module_Life\<close>; \<open>simulation\<close>, a step relation that implements
    another one, interpreted in \<open>Msr_Atomic\<close>; and \<open>fair_system\<close>, an agent whose measure the
    steps of the others do not raise, interpreted in \<open>Msr_Progress\<close>.
  \<^item> \<open>Msr_System\<close>: any number of concurrent callers. \<open>write_step\<close> are the steps of \<open>msr_write\<close> and
    \<open>batch_step\<close> those of \<open>msrbatch_ioctl\<close>, from the look-up that starts the call to the return,
    errors included: one look-up of the allowlist, one access to a register, one turn of the
    loop of \<open>__msr_safe_batch\<close> on one CPU. In between allowlists are loaded and CPUs come and
    go. That the steps are those of the code is the theorem \<open>calls_are_runs\<close>: a call of the
    sequential model, with allowlists loaded between its look-ups, is a run of steps.
    \<open>Msr_Atomic\<close>: this system implements one in which every write happens at once, as long as
    the allowlist stays the same. \<open>Msr_Progress\<close>: under weak fairness every call returns.
  \<^item> \<open>Kernel_Registry\<close>: the bring-up and the clean-up of a character device with a class and a
    node, which msr_batch.c, msr_allowlist.c and msr_version.c each contain, with the locale
    \<open>cdev_driver\<close> that is interpreted for each of the three; the functions of the kernel are the
    record \<open>kernel_api\<close>, with their laws \<open>kernel_ok\<close>. \<open>Msr_Version\<close>: msr_version.c and the macros
    of msr_version.h. \<open>Msr_Module\<close>: \<open>msr_init\<close>, \<open>msr_exit\<close> and the hotplug callbacks of
    msr_entry.c, composed of the functions of the other files. \<open>Module_Exit\<close> and \<open>Module_Init\<close>:
    what they do to the registry, stage by stage. \<open>Module_Life\<close>: the loaded module
    while CPUs come and go. \<open>Module_Params\<close>: its major numbers, which the administrator can
    write meanwhile.
  \<^item> \<open>Device_Files\<close>: the four \<open>file_operations\<close> tables and the system calls of a program on open
    files, over the state of the whole module; user memory is the bytes that a call passes.
    \<open>Device_Nodes\<close>: the \<open>devnode\<close> callbacks, and from a path below \<open>/dev\<close> to the driver that
    serves it.
  \<^item> \<open>Msrsave_Parse\<close>, \<open>Msrsave\<close>, \<open>Msrsave_Tools\<close>: the parser of msrsave.c, \<open>msr_save\<close> and
    \<open>msr_restore\<close>, and the programs around them (msrsave_main.c, spank_msrsafe.c). The locale
    \<open>register_file\<close> states what the tool relies on of a register device; it is interpreted on
    the per-CPU device of the module (\<open>Msrsave_Device\<close>) and on plain files (\<open>Msrsave_Test\<close>, the
    test program msrsave_test.c). \<open>Msrsave_Resources\<close>: the same functions as programs that
    acquire and release descriptors, streams and buffers. \<open>Example\<close>: examples/example.c, run
    against the whole module.

  \<^bold>\<open>What the lemmas show\<close>

  The parser terminates, stays inside its buffer and gives back the text it was given; the
  two passes agree, so the table is never filled beyond its size; a write to the device
  implements a parser and a finite map, on every error path; what the device prints it reads
  again as the same table. Through the per-CPU device and through the batch ioctl a register
  changes only in bits that an allowlist allows, whatever the caller passes, and however
  often the allowlist is replaced between two look-ups; inside a look-up there is a race, which
  is shown to hand out the mask of another register. Concurrent writes are as good as single ones, unless the
  allowlist is replaced between the accesses of one of them. A batch has the same result under every interleaving
  of the CPUs, and it ends. The device nodes follow the CPUs that are online, a failed
  initialisation gives back everything it took, with two exceptions that are stated, and
  unloading gives back the rest, unless a major number was written in between. A system call on any device gets along with whatever it is
  given, changes what its driver is for and nothing else, and returns. A restore writes back
  exactly what a save has read, and both release all they hold on every path.

  \<^bold>\<open>Conventions and bounds\<close>

  A function of the kernel that can fail is an outcome passed in (the records \<open>write_env\<close>,
  \<open>ioctl_env\<close>, \<open>parse_os\<close>, \<open>save_os\<close>, \<open>restore_os\<close>); a function that has a state is
  a parameter with laws (\<open>klib_ok\<close>, \<open>port_view\<close>, \<open>local_view\<close>, \<open>kernel_ok\<close>); the
  parameter \<open>vfs\<close> is what the kernel does itself for an operation that a table does not have,
  \<open>platform\<close> the hardware, and a \<open>reader\<close> the file that a program reads. \<open>None\<close> as the result
  of a whole function stands for an access outside an object, and in the loop that copies the
  allowlist (\<open>copy_loop\<close>, a \<open>partial_function\<close>) for not returning; that it does return on the
  allowlist device is part of \<open>msrsave_reads_device\<close>. Of the state of the kernel only
  the registry that it shows (\<open>reg\<close>) is known; at least one CPU is online when the module is
  loaded. Errors are \<open>Inl\<close> of an errno
  value, or \<open>Some\<close> of it where the code returns 0 for success. Loops are recursive functions
  with termination proofs; the only fuel is that of \<open>cat_device\<close>, a client that reads to the
  end of the device, and one more than the number of entries is enough. Registers, masks and
  file positions are machine words; entry counts are natural numbers, with the bound
  \<open>2^31\<close> where the code's \<open>int\<close> would matter (a text within the write limit has far fewer
  entries).

  \<^bold>\<open>Atomic steps\<close>

  The mutex of the allowlist makes what stands between lock and unlock one step. The function
  \<open>msr_allowlist_writemask\<close> reads the mask only after it has released the mutex; \<open>Msr_Batch\<close>,
  \<open>Msr_System\<close>, \<open>Msr_Atomic\<close> and \<open>Msr_Progress\<close> take it as one step all the same. Their
  theorems on a changing allowlist are therefore about executions in which no allowlist is
  replaced between the search and the read of one look-up; what the code does otherwise is
  the subject of \<open>Allowlist_Race\<close>, where the two are separate steps over a heap.

  \<^bold>\<open>Not modelled\<close>

  The removal of temporary files; the messages of the error logs; side effects of reading a
  register; suspend and resume of CPUs, for which older kernels have actions of their own; negative module parameters for the major numbers; how the
  kernel, getopt, the C library and the SLURM daemon work, beyond the laws above; headers that
  hold only prototypes; build files, packaging and the sample allowlists, which are data.
\<close>

end
